(* ===== verification/Prelude.thy ===== *)
theory Prelude
  imports Main "HOL-Library.Word"
begin

unbundle bit_operations_syntax

text \<open>
  What every component shares: the machine type \<open>size_t\<close>, the outcome of a C++ call (a value, an
  exception, or undefined behaviour), the operations of \<open>std::vector\<close> the sets use on a bucket,
  and the generic lemmas on lists and words the components rest on.
\<close>

section \<open>Types\<close>

text \<open>\<open>std::size_t\<close> on the 64-bit targets the build supports. Arithmetic wraps.\<close>

type_synonym size_t = "64 word"

text \<open>A thread is a number; any number of threads may take part.\<close>

type_synonym tid = nat

text \<open>
  The exceptions the sources throw themselves (\<open>std::invalid_argument\<close>, \<open>std::runtime_error\<close>,
  with their message) and the \<open>std::length_error\<close> of a \<open>std::vector\<close> constructor that is asked for
  more than \<open>max_size()\<close> elements. \<open>Bad_alloc\<close> is \<open>std::bad_alloc\<close>, for the components whose model has a
  bound on what can be allocated.
\<close>

datatype exn = Invalid_argument string | Runtime_error string | Length_error | Bad_alloc

text \<open>
  The outcome of a member function: it returns a value, throws (the object keeps the state it has
  reached), or its behaviour is undefined (a vector indexed out of range, a remainder by zero, a
  null dereference, a failed \<open>assert\<close>). Undefined behaviour is a value of the model so that its
  absence is a theorem.
\<close>

datatype ('r, 's) outcome = Ret 'r 's | Throw exn 's | Undef

named_theorems table_simps "facts on bucket tables"
named_theorems key_simps "facts on split-order keys"
named_theorems step_simps "one-step evaluation of thread programs"

section \<open>Vectors\<close>

text \<open>
  \<open>std::ranges::find(v, x)\<close> as the position it returns, with \<open>v.end()\<close> the length; \<open>v.erase(it)\<close>
  and \<open>v.push_back(x)\<close>.
\<close>

fun ranges_find :: "'a \<Rightarrow> 'a list \<Rightarrow> nat" where
  "ranges_find x [] = 0"
| "ranges_find x (y # ys) = (if y = x then 0 else Suc (ranges_find x ys))"

definition vec_erase :: "nat \<Rightarrow> 'a list \<Rightarrow> 'a list" where
  "vec_erase i xs = take i xs @ drop (Suc i) xs"

definition push_back :: "'a list \<Rightarrow> 'a \<Rightarrow> 'a list" where
  "push_back xs x = xs @ [x]"

text \<open>
  \<open>max_size()\<close> of \<open>std::vector<std::vector<T>>\<close>: \<open>PTRDIFF_MAX\<close> over the 24 bytes of an inner vector
  (libstdc++ and libc++ agree). Asking the constructor for more throws \<open>std::length_error\<close>.
\<close>

definition vec_max :: nat where
  "vec_max = (2 ^ 63 - 1) div 24"

lemma vec_max_bounds: "0 < vec_max" "4 * vec_max < 2 ^ 64"
  by (simp_all add: vec_max_def)

lemma ranges_find_le [simp]: "ranges_find x xs \<le> length xs"
  by (induction xs) auto

lemma ranges_find_end [simp]: "ranges_find x xs = length xs \<longleftrightarrow> x \<notin> set xs"
  by (induction xs) auto

lemma ranges_find_less: "x \<in> set xs \<Longrightarrow> ranges_find x xs < length xs"
  by (metis ranges_find_le ranges_find_end le_neq_implies_less)

lemma nth_ranges_find: "x \<in> set xs \<Longrightarrow> xs ! ranges_find x xs = x"
  by (induction xs) auto

lemma erase_found: "vec_erase (ranges_find x xs) xs = remove1 x xs"
  by (induction xs) (auto simp: vec_erase_def)

lemma set_push_back [simp]: "set (push_back xs x) = insert x (set xs)"
  by (simp add: push_back_def)

lemma distinct_push_back [simp]: "distinct (push_back xs x) \<longleftrightarrow> x \<notin> set xs \<and> distinct xs"
  by (auto simp: push_back_def)

section \<open>Words\<close>

lemma unat_size_less [simp]: "unat (x :: size_t) < 2 ^ 64"
  using unsigned_less [of x] by simp

lemma size_eq_iff: "(v :: size_t) = w \<longleftrightarrow> (\<forall>n<64. bit v n \<longleftrightarrow> bit w n)"
  by (auto intro!: bit_word_eqI)

lemma of_nat_card_insert:
  "finite A \<Longrightarrow> x \<notin> A \<Longrightarrow> (of_nat (card (insert x A)) :: size_t) = of_nat (card A) + 1"
  by simp

lemma of_nat_card_remove:
  assumes "finite A" "x \<in> A"
  shows "(of_nat (card (A - {x})) :: size_t) = of_nat (card A) - 1"
proof -
  from assms have "card A = Suc (card (A - {x}))"
    by (rule card.remove)
  then show ?thesis by (simp del: card_Diff_insert)
qed

lemma unat_of_nat_size: "n < 2 ^ 64 \<Longrightarrow> unat (of_nat n :: size_t) = n"
  by (simp add: unat_of_nat take_bit_nat_eq_self)

lemma unat_mod_size: "unat (a mod b :: size_t) = unat a mod unat b"
  by (rule unat_mod)

section \<open>Lists\<close>

lemma sorted_wrt_insert_between:
  assumes "sorted_wrt R (us @ p # c # vs)"
    and "\<And>x. x \<in> set (us @ [p]) \<Longrightarrow> R x n"
    and "\<And>x. x \<in> set (c # vs) \<Longrightarrow> R n x"
  shows "sorted_wrt R (us @ p # n # c # vs)"
  using assms by (auto simp: sorted_wrt_append)

lemma sorted_wrt_drop_mid:
  "sorted_wrt R (us @ p # c # vs) \<Longrightarrow> sorted_wrt R (us @ p # vs)"
  by (auto simp: sorted_wrt_append)

end
