(* ===== verification/SizeBits.thy ===== *)
theory SizeBits
  imports Prelude
begin

text \<open>
  The functions of \<open><bit>\<close> the sources call on \<open>std::size_t\<close> (\<open>std::bit_width\<close>,
  \<open>std::bit_floor\<close>, \<open>std::countr_zero\<close>, \<open>std::byteswap\<close>), the power-of-two test of the
  constructors, and \<open>detail::ReverseBits\<close> of \<open>BucketList.h\<close>, with the lemmas that say what each
  does to the bits of its argument.
\<close>

section \<open>Operations of the standard header\<close>

fun nat_width :: "nat \<Rightarrow> nat" where
  "nat_width n = (if n = 0 then 0 else Suc (nat_width (n div 2)))"

fun nat_trailing_zeros :: "nat \<Rightarrow> nat" where
  "nat_trailing_zeros n = (if n = 0 \<or> odd n then 0 else Suc (nat_trailing_zeros (n div 2)))"

declare nat_width.simps [simp del] nat_trailing_zeros.simps [simp del]

definition bit_width :: "size_t \<Rightarrow> nat" where
  "bit_width w = nat_width (unat w)"

definition bit_floor :: "size_t \<Rightarrow> size_t" where
  "bit_floor w = (if w = 0 then 0 else push_bit (bit_width w - 1) 1)"

definition countr_zero :: "size_t \<Rightarrow> nat" where
  "countr_zero w = (if w = 0 then 64 else nat_trailing_zeros (unat w))"

definition byteswap :: "size_t \<Rightarrow> size_t" where
  "byteswap n =
     push_bit 56 (n AND 0xFF) OR
     push_bit 40 (n AND 0xFF00) OR
     push_bit 24 (n AND 0xFF0000) OR
     push_bit 8 (n AND 0xFF000000) OR
     (drop_bit 8 n AND 0xFF000000) OR
     (drop_bit 24 n AND 0xFF0000) OR
     (drop_bit 40 n AND 0xFF00) OR
     (drop_bit 56 n AND 0xFF)"

text \<open>The constructors' test that a capacity is a power of two: \<open>((c - 1) & c) == 0\<close>.\<close>

definition not_pow2 :: "size_t \<Rightarrow> bool" where
  "not_pow2 c \<longleftrightarrow> (c - 1) AND c \<noteq> 0"

section \<open>Reversing the bits of a word\<close>

text \<open>One round of the reversal: exchange the bits selected by the mask with their neighbours.\<close>

definition swap_round :: "nat \<Rightarrow> size_t \<Rightarrow> size_t \<Rightarrow> size_t" where
  "swap_round s m n = (drop_bit s n AND m) OR push_bit s (n AND m)"

definition ReverseBits :: "size_t \<Rightarrow> size_t" where
  "ReverseBits n =
     (let m1 = 0x5555555555555555; m2 = 0x3333333333333333; m4 = 0x0F0F0F0F0F0F0F0F;
          n = swap_round 1 m1 n;
          n = swap_round 2 m2 n;
          n = swap_round 4 m4 n
      in byteswap n)"

lemma all_less_64:
  fixes P :: "nat \<Rightarrow> bool"
  assumes "list_all P [0..<64]" "n < 64"
  shows "P n"
  using assms by (simp add: list_all_iff)

lemma bit_m1: "n < 64 \<Longrightarrow> bit (0x5555555555555555 :: size_t) n \<longleftrightarrow> even (n div 1)"
proof -
  have "list_all (\<lambda>n. bit (0x5555555555555555 :: size_t) n \<longleftrightarrow> even (n div 1)) [0..<64]"
    by code_simp
  then show "n < 64 \<Longrightarrow> ?thesis" by (rule all_less_64)
qed

lemma bit_m2: "n < 64 \<Longrightarrow> bit (0x3333333333333333 :: size_t) n \<longleftrightarrow> even (n div 2)"
proof -
  have "list_all (\<lambda>n. bit (0x3333333333333333 :: size_t) n \<longleftrightarrow> even (n div 2)) [0..<64]"
    by code_simp
  then show "n < 64 \<Longrightarrow> ?thesis" by (rule all_less_64)
qed

lemma bit_m4: "n < 64 \<Longrightarrow> bit (0x0F0F0F0F0F0F0F0F :: size_t) n \<longleftrightarrow> even (n div 4)"
proof -
  have "list_all (\<lambda>n. bit (0x0F0F0F0F0F0F0F0F :: size_t) n \<longleftrightarrow> even (n div 4)) [0..<64]"
    by code_simp
  then show "n < 64 \<Longrightarrow> ?thesis" by (rule all_less_64)
qed

lemma bit_swap_round:
  assumes m: "\<And>i. i < 64 \<Longrightarrow> bit m i \<longleftrightarrow> even (i div s)"
    and s: "0 < s" "2 * s dvd 64" and n: "n < 64"
  shows "bit (swap_round s m w) n \<longleftrightarrow> bit w (if even (n div s) then n + s else n - s)"
proof -
  have step: "(n - s) div s = n div s - 1" if "s \<le> n"
    using that s by (simp add: le_div_geq)
  have small: "n < s \<Longrightarrow> n div s = 0" by simp
  show ?thesis
  proof (cases "even (n div s)")
    case True
    have "\<not> (s \<le> n \<and> even ((n - s) div s))"
      using True step s by (auto simp: div_greater_zero_iff)
    moreover have "\<not> (s \<le> n \<and> bit m (n - s))"
      using calculation m [of "n - s"] n by auto
    ultimately show ?thesis
      using True n m [of n] by (auto simp: swap_round_def bit_simps add.commute)
  next
    case False
    then have "s \<le> n" using small by (metis even_zero not_le)
    moreover have "even ((n - s) div s)"
      using False step [OF calculation] by simp
    ultimately have "s \<le> n" "bit m (n - s)" using m [of "n - s"] n by auto
    then show ?thesis
      using False n m [of n] by (auto simp: swap_round_def bit_simps)
  qed
qed

lemma bit_rounds:
  "n < 64 \<Longrightarrow> bit (swap_round 1 0x5555555555555555 w) n \<longleftrightarrow>
     bit w (if even n then n + 1 else n - 1)"
  "n < 64 \<Longrightarrow> bit (swap_round 2 0x3333333333333333 w) n \<longleftrightarrow>
     bit w (if even (n div 2) then n + 2 else n - 2)"
  "n < 64 \<Longrightarrow> bit (swap_round 4 0x0F0F0F0F0F0F0F0F w) n \<longleftrightarrow>
     bit w (if even (n div 4) then n + 4 else n - 4)"
  using bit_swap_round [OF bit_m1, of n w] bit_swap_round [OF bit_m2, of n w]
    bit_swap_round [OF bit_m4, of n w]
  by simp_all

lemma bit_byteswap:
  assumes "n < 64"
  shows "bit (byteswap w) n \<longleftrightarrow> bit w (8 * (7 - n div 8) + n mod 8)"
proof -
  have "list_all (\<lambda>n. bit (byteswap w) n \<longleftrightarrow> bit w (8 * (7 - n div 8) + n mod 8)) [0..<64]"
    by (simp add: upt_rec byteswap_def bit_simps) (simp add: eval_nat_numeral)
  then show ?thesis using assms by (rule all_less_64)
qed

lemma bit_ReverseBits:
  assumes "n < 64"
  shows "bit (ReverseBits w) n \<longleftrightarrow> bit w (63 - n)"
proof -
  have "list_all (\<lambda>n. bit (ReverseBits w) n \<longleftrightarrow> bit w (63 - n)) [0..<64]"
    by (simp add: upt_rec ReverseBits_def bit_byteswap bit_rounds del: One_nat_def)
  then show ?thesis using assms by (rule all_less_64)
qed


lemma ReverseBits_eq_word_reverse: "ReverseBits w = word_reverse w"
  by (rule bit_word_eqI) (simp add: bit_ReverseBits bit_simps)

lemma ReverseBits_involutive [simp]: "ReverseBits (ReverseBits w) = w"
  by (rule bit_word_eqI) (simp add: bit_ReverseBits)

lemma ReverseBits_inject [simp]: "ReverseBits v = ReverseBits w \<longleftrightarrow> v = w"
  by (metis ReverseBits_involutive)

section \<open>Order and bits\<close>

text \<open>A word whose set bits are among those of another is no larger.\<close>

lemma bits_subset_le:
  fixes a b :: "'a::len word"
  assumes "\<And>n. bit a n \<Longrightarrow> bit b n"
  shows "a \<le> b"
proof -
  have "a = b AND a" using assms by (auto intro!: bit_word_eqI simp: bit_simps)
  then show ?thesis by (metis word_and_le2)
qed

lemma bits_subset_less:
  fixes a b :: "'a::len word"
  assumes sub: "\<And>n. bit a n \<Longrightarrow> bit b n" and m: "bit b m" "\<not> bit a m"
  shows "a < b"
proof -
  have "a \<le> b" by (rule bits_subset_le) (rule sub)
  moreover from m have "a \<noteq> b" by auto
  ultimately show ?thesis by simp
qed

section \<open>Widths, floors and powers of two\<close>

lemma nat_width_pos_cases:
  "0 < n \<Longrightarrow> \<exists>m. nat_width n = Suc m \<and> 2 ^ m \<le> n \<and> n < 2 ^ Suc m"
proof (induction n rule: nat_width.induct)
  case (1 n)
  show ?case
  proof (cases "n div 2 = 0")
    case True
    with "1.prems" have "n = 1" by linarith
    then show ?thesis by (simp add: nat_width.simps)
  next
    case False
    then obtain m where m: "nat_width (n div 2) = Suc m" "2 ^ m \<le> n div 2" "n div 2 < 2 ^ Suc m"
      using "1" by auto
    then have "2 ^ Suc m \<le> n" "n < 2 ^ Suc (Suc m)" by simp_all
    moreover have "nat_width n = Suc (Suc m)"
      using "1.prems" m(1) by (subst nat_width.simps) simp
    ultimately show ?thesis by blast
  qed
qed

lemma nat_width_0 [simp]: "nat_width 0 = 0"
  by (simp add: nat_width.simps)

lemma nat_width_unique:
  assumes k: "2 ^ k \<le> n" "n < 2 ^ Suc k"
  shows "nat_width n = Suc k"
proof -
  have "(0::nat) < 2 ^ k" by simp
  with k(1) have "0 < n" by linarith
  then obtain m where m: "nat_width n = Suc m" "2 ^ m \<le> n" "n < 2 ^ Suc m"
    using nat_width_pos_cases by blast
  from k m have "(2::nat) ^ m < 2 ^ Suc k" "(2::nat) ^ k < 2 ^ Suc m" by linarith+
  then have "m < Suc k" "k < Suc m" by (simp_all only: power_strict_increasing_iff one_less_numeral_iff semiring_norm)
  with m(1) show ?thesis by simp
qed

lemma bit_width_0 [simp]: "bit_width 0 = 0"
  by (simp add: bit_width_def)

text \<open>The position of the highest set bit of a non-zero word.\<close>

lemma bit_width_cases:
  assumes "w \<noteq> 0"
  obtains m where "bit_width w = Suc m" "m < 64" "2 ^ m \<le> unat w" "unat w < 2 ^ Suc m"
proof -
  from assms have "0 < unat w" by (simp add: unat_gt_0)
  then obtain m where m: "bit_width w = Suc m" "2 ^ m \<le> unat w" "unat w < 2 ^ Suc m"
    using nat_width_pos_cases unfolding bit_width_def by blast
  have "(2::nat) ^ m < 2 ^ 64" using m(2) unat_size_less [of w] by linarith
  then have "m < 64" by (simp only: power_strict_increasing_iff one_less_numeral_iff semiring_norm)
  with m that show thesis by blast
qed

lemma unat_pow2 [simp]: "k < 64 \<Longrightarrow> unat (2 ^ k :: size_t) = 2 ^ k"
proof -
  assume "k < 64"
  then have "(2::nat) ^ k < 2 ^ 64" by (simp only: power_strict_increasing_iff one_less_numeral_iff semiring_norm)
  then have "unat (of_nat (2 ^ k) :: size_t) = 2 ^ k" by (rule unat_of_nat_size)
  then show ?thesis by (simp only: of_nat_power of_nat_numeral)
qed

lemma bit_floor_eq: "bit_width w = Suc m \<Longrightarrow> bit_floor w = 2 ^ m"
  by (auto simp: bit_floor_def)

lemma minus_bit_floor:
  assumes "bit_width w = Suc m"
  shows "w - bit_floor w = take_bit m w"
proof -
  from assms have "w \<noteq> 0" by auto
  then have m: "m < 64" and le: "2 ^ m \<le> unat w" and lt: "unat w < 2 * 2 ^ m"
    using bit_width_cases [of w] assms by auto
  have "unat (w - bit_floor w) = unat w - 2 ^ m"
    using assms le m by (simp add: bit_floor_eq unat_sub word_le_nat_alt)
  also have "\<dots> = unat w mod 2 ^ m" using le lt by (simp add: mod_if)
  finally show ?thesis using m by (simp add: word_unat_eq_iff take_bit_eq_mod unat_mod_size)
qed

lemma bit_top:
  assumes "bit_width w = Suc m"
  shows "bit w m"
proof -
  from assms have "w \<noteq> 0" by auto
  then have "2 ^ m \<le> unat w" and "unat w < 2 * 2 ^ m"
    using bit_width_cases [of w] assms by auto
  then have "unat w div 2 ^ m = 1" by (intro div_nat_eqI) simp_all
  then have "bit (unat w) m" by (simp add: bit_iff_odd)
  then show ?thesis by (simp add: bit_simps)
qed

lemma pow2_and_pred: "k < 64 \<Longrightarrow> (2 ^ k - 1) AND 2 ^ k = (0 :: size_t)"
  by (auto intro!: bit_word_eqI simp: bit_simps simp flip: mask_eq_exp_minus_1)

lemma not_pow2_iff: "\<not> not_pow2 c \<longleftrightarrow> c = 0 \<or> (\<exists>k<64. unat c = 2 ^ k)"
proof (intro iffI)
  assume ok: "\<not> not_pow2 c"
  show "c = 0 \<or> (\<exists>k<64. unat c = 2 ^ k)"
  proof (cases "c = 0")
    case False
    then obtain m where m: "bit_width c = Suc m" "m < 64" "2 ^ m \<le> unat c" "unat c < 2 ^ Suc m"
      by (rule bit_width_cases)
    have "unat c = 2 ^ m"
    proof (rule ccontr)
      assume "unat c \<noteq> 2 ^ m"
      moreover have "unat (c - 1) = unat c - 1"
        using False by (simp add: unat_minus_one)
      ultimately have "unat (c - 1) div 2 ^ m = 1"
        using m by (intro div_nat_eqI) simp_all
      then have "bit (unat (c - 1)) m" by (simp add: bit_iff_odd)
      with bit_top [OF m(1)] have "bit ((c - 1) AND c) m" by (simp add: bit_simps)
      with ok show False by (simp add: not_pow2_def)
    qed
    with m show ?thesis by blast
  qed simp
next
  assume "c = 0 \<or> (\<exists>k<64. unat c = 2 ^ k)"
  then show "\<not> not_pow2 c"
  proof (elim disjE exE conjE)
    fix k assume k: "k < (64::nat)" "unat c = 2 ^ k"
    then have "c = 2 ^ k" by (simp add: word_unat_eq_iff)
    then show ?thesis using pow2_and_pred [OF k(1)] by (simp add: not_pow2_def)
  qed (simp add: not_pow2_def)
qed

end
