(* ===== verification/Markable.thy ===== *)
theory Markable
  imports SizeBits
begin

text \<open>
  \<open>MarkableReference.h\<close>: a pointer and a mark packed into one machine word, so that both can be
  read and compared-and-set atomically. A pointer is a 64-bit address; the class is only ever
  instantiated with pointers to \<open>Node\<close>, whose alignment exceeds one byte (a \<open>static_assert\<close> of
  \<open>BucketList.h\<close>), so bit 0 of every pointer is clear. An operation on the atomic cell takes the
  cell's content and returns its result and the new content; the memory order argument has no
  counterpart in the sequentially consistent model.

  The interface the list relies on is the locale \<open>markable_ref\<close>: it is provided by the packed
  word and by the plain pair of a reference and a mark that \<open>BucketList\<close> is modelled with.
\<close>

section \<open>The packed word\<close>

type_synonym uintptr_t = "64 word"

definition kMarkBit :: uintptr_t where
  "kMarkBit = 1"

definition Pack :: "uintptr_t \<Rightarrow> bool \<Rightarrow> uintptr_t" where
  "Pack ref marked = ref OR (if marked then kMarkBit else 0)"

definition Unpack :: "uintptr_t \<Rightarrow> uintptr_t" where
  "Unpack packed = packed AND NOT kMarkBit"

definition IsMarked :: "uintptr_t \<Rightarrow> bool" where
  "IsMarked packed \<longleftrightarrow> packed AND kMarkBit \<noteq> 0"

definition Load :: "uintptr_t \<Rightarrow> uintptr_t \<times> bool" where
  "Load packed = (Unpack packed, IsMarked packed)"

definition Store :: "uintptr_t \<Rightarrow> bool \<Rightarrow> uintptr_t" where
  "Store ref marked = Pack ref marked"

definition CompareAndSet ::
    "uintptr_t \<Rightarrow> uintptr_t \<Rightarrow> bool \<Rightarrow> uintptr_t \<Rightarrow> bool \<Rightarrow> bool \<times> uintptr_t" where
  "CompareAndSet packed expected_ref expected_mark new_ref new_mark =
     (let expected = Pack expected_ref expected_mark
      in if packed = expected then (True, Pack new_ref new_mark) else (False, packed))"

definition AttemptMark :: "uintptr_t \<Rightarrow> uintptr_t \<Rightarrow> bool \<Rightarrow> bool \<times> uintptr_t" where
  "AttemptMark packed expected_ref new_mark =
     CompareAndSet packed expected_ref (\<not> new_mark) expected_ref new_mark"

definition aligned :: "uintptr_t \<Rightarrow> bool" where
  "aligned p \<longleftrightarrow> \<not> bit p 0"

section \<open>The interface\<close>

locale markable_ref =
  fixes valid :: "'p \<Rightarrow> bool"
    and make :: "'p \<Rightarrow> bool \<Rightarrow> 'c"
    and get :: "'c \<Rightarrow> 'p \<times> bool"
    and cas :: "'c \<Rightarrow> 'p \<Rightarrow> bool \<Rightarrow> 'p \<Rightarrow> bool \<Rightarrow> bool \<times> 'c"
    and attempt_mark :: "'c \<Rightarrow> 'p \<Rightarrow> bool \<Rightarrow> bool \<times> 'c"
  assumes get_make: "valid p \<Longrightarrow> get (make p m) = (p, m)"
    and cas_eq: "valid e \<Longrightarrow>
      cas c e em p m = (if get c = (e, em) then (True, make p m) else (False, c))"
    and attempt_mark_eq: "attempt_mark c e m = cas c e (\<not> m) e m"
begin

lemma cas_succeeds:
  "valid e \<Longrightarrow> valid p \<Longrightarrow> fst (cas c e em p m) \<Longrightarrow>
     get c = (e, em) \<and> get (snd (cas c e em p m)) = (p, m)"
  by (simp add: cas_eq get_make split: if_splits)

lemma cas_fails: "valid e \<Longrightarrow> \<not> fst (cas c e em p m) \<Longrightarrow> snd (cas c e em p m) = c"
  by (simp add: cas_eq split: if_splits)

text \<open>
  A marked cell is frozen: no compare-and-set that expects the mark clear succeeds on it, and that
  is the only kind the list performs.
\<close>

lemma marked_frozen: "valid e \<Longrightarrow> snd (get c) \<Longrightarrow> cas c e False p m = (False, c)"
  by (auto simp: cas_eq)

lemma marked_mark_fails: "valid e \<Longrightarrow> snd (get c) \<Longrightarrow> attempt_mark c e True = (False, c)"
  by (simp add: attempt_mark_eq marked_frozen)

text \<open>Marking keeps the reference.\<close>

lemma mark_keeps_ref:
  "valid e \<Longrightarrow> fst (attempt_mark c e True) \<Longrightarrow>
     get c = (e, False) \<and> get (snd (attempt_mark c e True)) = (e, True)"
  using cas_succeeds [of e e c False True] by (simp add: attempt_mark_eq)

end

section \<open>The two providers\<close>

lemma bit_kMarkBit [simp]: "bit kMarkBit n \<longleftrightarrow> n = 0"
  by (simp add: kMarkBit_def bit_simps)

lemma bit_Pack: "bit (Pack p m) n \<longleftrightarrow> bit p n \<or> m \<and> n = 0"
  by (auto simp: Pack_def bit_simps)

lemma bit_Unpack: "bit (Unpack c) n \<longleftrightarrow> bit c n \<and> n \<noteq> 0"
  by (auto simp: Unpack_def bit_simps dest: bit_imp_le_length)

lemma IsMarked_iff: "IsMarked c \<longleftrightarrow> bit c 0"
  by (simp add: IsMarked_def kMarkBit_def and_one_eq bit_0 odd_iff_mod_2_eq_one)

lemma Load_Pack: "aligned p \<Longrightarrow> Load (Pack p m) = (p, m)"
  by (auto simp: Load_def IsMarked_iff bit_Pack aligned_def bit_Unpack intro!: bit_word_eqI gr0I)

lemma Pack_Load: "Pack (fst (Load c)) (snd (Load c)) = c"
  by (auto simp: Load_def IsMarked_iff bit_Pack bit_Unpack intro!: bit_word_eqI)

lemma eq_Pack_iff: "aligned e \<Longrightarrow> c = Pack e em \<longleftrightarrow> Load c = (e, em)"
  by (metis Load_Pack Pack_Load fst_conv snd_conv)

interpretation packed: markable_ref aligned Pack Load CompareAndSet AttemptMark
  by unfold_locales (simp_all add: Load_Pack CompareAndSet_def AttemptMark_def eq_Pack_iff Let_def)

text \<open>The same cell without the packing: a reference and a mark side by side.\<close>

type_synonym 'p mref = "'p \<times> bool"

definition mref_cas :: "'p mref \<Rightarrow> 'p \<Rightarrow> bool \<Rightarrow> 'p \<Rightarrow> bool \<Rightarrow> bool \<times> 'p mref" where
  "mref_cas c e em p m = (if c = (e, em) then (True, (p, m)) else (False, c))"

definition mref_attempt_mark :: "'p mref \<Rightarrow> 'p \<Rightarrow> bool \<Rightarrow> bool \<times> 'p mref" where
  "mref_attempt_mark c e m = mref_cas c e (\<not> m) e m"

interpretation mref: markable_ref "\<lambda>_. True" Pair id mref_cas mref_attempt_mark
  by unfold_locales (simp_all add: mref_cas_def mref_attempt_mark_def)

section \<open>Properties\<close>

text \<open>
  C40 (roundtrip): packing an aligned pointer with a mark and loading the word gives both back;
  and every word is the packing of what it loads as.
\<close>

theorem packed_roundtrip:
  assumes "aligned p"
  shows "Load (Pack p m) = (p, m) \<and> Pack (fst (Load c)) (snd (Load c)) = c"
  using packed.get_make [OF assms] Pack_Load by simp

text \<open>
  C39 (refinement): on aligned pointers the word operations are the pair operations: a
  compare-and-set and an attempt to mark succeed on the packed word exactly when they succeed on
  the pair it loads as, and leave the packing of the pair's new content.
\<close>

theorem packed_refines_pair:
  assumes "aligned e" "aligned p"
  shows "fst (CompareAndSet c e em p m) = fst (mref_cas (Load c) e em p m) \<and>
         Load (snd (CompareAndSet c e em p m)) = snd (mref_cas (Load c) e em p m) \<and>
         fst (AttemptMark c e m) = fst (mref_attempt_mark (Load c) e m) \<and>
         Load (snd (AttemptMark c e m)) = snd (mref_attempt_mark (Load c) e m)"
  using assms
  by (simp add: packed.cas_eq packed.attempt_mark_eq mref.cas_eq mref.attempt_mark_eq packed.get_make)

theorem packed_refines_pair_witness:
  "fst (CompareAndSet 64 64 False 128 False) \<and> Load (snd (AttemptMark 64 64 True)) = (64, True)"
proof -
  have a: "aligned 64" "aligned 128" by (simp_all add: aligned_def)
  have l: "Load 64 = (64, False)" by (simp add: Load_def Unpack_def IsMarked_def kMarkBit_def)
  show ?thesis
    using packed_refines_pair [OF a, of 64 False False] packed_refines_pair [OF a, of 64 False True]
    by (simp add: l mref_cas_def mref_attempt_mark_def)
qed

theorem packed_roundtrip_witness: "Load (Pack 64 True) = (64, True)"
  using packed_roundtrip [of 64 True 0] by (simp add: aligned_def)

end
