(* ===== verification/SplitOrder.thy ===== *)
theory SplitOrder
  imports SizeBits
begin

text \<open>
  The split-order keys of \<open>BucketList.h\<close> and the bucket hierarchy of \<open>HashSetLockFree.h\<close>: a node
  is sorted by the bit reversal of its hash, with the topmost bit of the hash telling elements
  (odd keys) from bucket sentinels (even keys). The lemmas give the three facts the lock-free set
  rests on: a bucket's sentinel comes before every element of the bucket whatever power of two the
  capacity is, a bucket's parent comes before the bucket, and keys of elements and of sentinels
  never meet.
\<close>

section \<open>Keys\<close>

definition kKeyBits :: nat where
  "kKeyBits = 64"

definition kKeyMask :: size_t where
  "kKeyMask = push_bit (kKeyBits - 2) 1 - 1"

definition kMaxBuckets :: size_t where
  "kMaxBuckets = kKeyMask + 1"

definition kTailKey :: size_t where
  "kTailKey = - 1"

definition kOrdinaryKeyBit :: size_t where
  "kOrdinaryKeyBit = push_bit (kKeyBits - 1) 1"

definition MakeOrdinaryKey :: "('a \<Rightarrow> size_t) \<Rightarrow> 'a \<Rightarrow> size_t" where
  "MakeOrdinaryKey hash elem =
     (let code = hash elem AND kKeyMask in ReverseBits (code OR kOrdinaryKeyBit))"

definition MakeSentinelKey :: "size_t \<Rightarrow> size_t" where
  "MakeSentinelKey code = ReverseBits (code AND kKeyMask)"

definition GetParentIndex :: "size_t \<Rightarrow> size_t" where
  "GetParentIndex index = index - bit_floor index"

text \<open>The three \<open>static_assert\<close>s of the class.\<close>

definition key_static_asserts :: bool where
  "key_static_asserts \<longleftrightarrow>
     kKeyMask AND kOrdinaryKeyBit = 0 \<and>
     ReverseBits (kKeyMask OR kOrdinaryKeyBit) < kTailKey \<and>
     ReverseBits kKeyMask < kTailKey"

section \<open>Bits of the keys\<close>

lemma kKeyMask_eq: "kKeyMask = mask 62"
  by (simp add: kKeyMask_def kKeyBits_def mask_eq_exp_minus_1)

lemma and_kKeyMask: "w AND kKeyMask = take_bit 62 w"
  by (simp add: kKeyMask_eq take_bit_eq_mask)

lemma kMaxBuckets_eq: "unat kMaxBuckets = 2 ^ 62"
  by (simp add: kMaxBuckets_def kKeyMask_def kKeyBits_def)

lemma bit_kOrdinaryKeyBit: "bit kOrdinaryKeyBit n \<longleftrightarrow> n = 63"
  unfolding kOrdinaryKeyBit_def bit_push_bit_iff by (auto simp: kKeyBits_def bit_simps)

lemma bit_kTailKey: "bit kTailKey n \<longleftrightarrow> n < 64"
  by (simp add: kTailKey_def bit_simps)

lemma bit_ordinary_key [key_simps]:
  "bit (MakeOrdinaryKey hash e) n \<longleftrightarrow> n = 0 \<or> 2 \<le> n \<and> n < 64 \<and> bit (hash e) (63 - n)"
proof (cases "n < 64")
  case True
  then show ?thesis
    by (auto simp: MakeOrdinaryKey_def Let_def bit_ReverseBits and_kKeyMask bit_kOrdinaryKeyBit
        bit_or_iff bit_take_bit_iff)
qed (auto dest: bit_imp_le_length)

lemma bit_sentinel_key [key_simps]:
  "bit (MakeSentinelKey i) n \<longleftrightarrow> 2 \<le> n \<and> n < 64 \<and> bit i (63 - n)"
proof (cases "n < 64")
  case True
  then show ?thesis
    by (auto simp: MakeSentinelKey_def bit_ReverseBits and_kKeyMask bit_take_bit_iff)
qed (auto dest: bit_imp_le_length)

text \<open>Sentinels have even keys, elements odd ones, and neither is the key of the tail.\<close>

lemma even_sentinel [simp]: "\<not> bit (MakeSentinelKey i) 0"
  by (simp add: key_simps)

lemma odd_ordinary [simp]: "bit (MakeOrdinaryKey hash e) 0"
  by (simp add: key_simps)

lemma ordinary_less_tail: "MakeOrdinaryKey hash e < kTailKey"
  by (rule bits_subset_less [where m = 1])
    (auto simp: key_simps bit_kTailKey)

lemma sentinel_less_tail: "MakeSentinelKey i < kTailKey"
  by (rule bits_subset_less [where m = 0])
    (auto simp: key_simps bit_kTailKey)

lemma odd_tail [simp]: "bit kTailKey 0"
  by (simp add: bit_kTailKey)

lemma sentinel_key_0 [simp]: "MakeSentinelKey 0 = 0"
  by (rule bit_word_eqI) (simp add: key_simps)

lemma ordinary_neq_sentinel [simp]:
  "MakeOrdinaryKey hash e \<noteq> MakeSentinelKey i" "MakeSentinelKey i \<noteq> MakeOrdinaryKey hash e"
  by (metis even_sentinel odd_ordinary)+

lemma key_bits_eq:
  fixes v w :: size_t
  shows "(\<forall>n. 2 \<le> n \<and> n < 64 \<longrightarrow> bit v (63 - n) = bit w (63 - n)) \<longleftrightarrow>
     take_bit 62 v = take_bit 62 w"
proof
  assume l: "\<forall>n. 2 \<le> n \<and> n < 64 \<longrightarrow> bit v (63 - n) = bit w (63 - n)"
  show "take_bit 62 v = take_bit 62 w"
  proof (rule bit_word_eqI)
    fix n :: nat
    have "2 \<le> 63 - n \<and> 63 - n < 64 \<and> 63 - (63 - n) = n" if "n < 62"
      using that by linarith
    then show "bit (take_bit 62 v) n = bit (take_bit 62 w) n"
      using l [rule_format, of "63 - n"] by (cases "n < 62") (simp_all add: bit_simps)
  qed
next
  assume eq: "take_bit 62 v = take_bit 62 w"
  show "\<forall>n. 2 \<le> n \<and> n < 64 \<longrightarrow> bit v (63 - n) = bit w (63 - n)"
  proof (intro allI impI)
    fix n :: nat assume "2 \<le> n \<and> n < 64"
    moreover have "bit (take_bit 62 v) (63 - n) = bit (take_bit 62 w) (63 - n)" by (simp add: eq)
    ultimately show "bit v (63 - n) = bit w (63 - n)" by (auto simp: bit_simps)
  qed
qed

lemma sentinel_key_eq_iff:
  "MakeSentinelKey i = MakeSentinelKey j \<longleftrightarrow> take_bit 62 i = take_bit 62 j"
  unfolding key_bits_eq [symmetric] by (auto simp: size_eq_iff bit_sentinel_key)

lemma ordinary_key_eq_iff:
  "MakeOrdinaryKey hash d = MakeOrdinaryKey hash e \<longleftrightarrow>
     take_bit 62 (hash d) = take_bit 62 (hash e)"
  unfolding key_bits_eq [symmetric] by (auto simp: size_eq_iff bit_ordinary_key)

lemma sentinel_key_inj:
  assumes "i < kMaxBuckets" "j < kMaxBuckets" "MakeSentinelKey i = MakeSentinelKey j"
  shows "i = j"
proof -
  have id: "take_bit 62 x = x" if "x < kMaxBuckets" for x :: size_t
    using that by (simp add: take_bit_eq_mod word_unat_eq_iff unat_mod_size word_less_nat_alt
        kMaxBuckets_eq)
  with assms show ?thesis by (simp add: sentinel_key_eq_iff)
qed


section \<open>Order of the keys\<close>

text \<open>
  Every capacity the lock-free set can have is a power of two that fits the sentinel key space, so
  a bucket index is the low bits of a hash.
\<close>

definition valid_capacity :: "size_t \<Rightarrow> bool" where
  "valid_capacity c \<longleftrightarrow> (\<exists>k\<le>62. unat c = 2 ^ k)"

lemma valid_capacityE:
  assumes "valid_capacity c"
  obtains k where "k \<le> 62" "unat c = 2 ^ k" "c = 2 ^ k" "\<And>w. w mod c = take_bit k w"
proof -
  from assms obtain k where k: "k \<le> 62" "unat c = 2 ^ k" by (auto simp: valid_capacity_def)
  then have "c = 2 ^ k" by (simp add: word_unat_eq_iff)
  with k that show thesis by (simp add: take_bit_eq_mod)
qed

lemma bucket_before_element [key_simps]:
  assumes "valid_capacity c"
  shows "MakeSentinelKey (hash e mod c) < MakeOrdinaryKey hash e"
proof -
  from assms obtain k where k: "k \<le> 62" "\<And>w. w mod c = take_bit k w"
    by (elim valid_capacityE) blast
  show ?thesis
    by (rule bits_subset_less [where m = 0]) (auto simp: k key_simps bit_take_bit_iff)
qed

lemma parent_bits:
  assumes "i \<noteq> 0"
  obtains m where "bit i m" "m < 64" "GetParentIndex i = take_bit m i" "unat i < 2 ^ Suc m"
proof -
  obtain m where m: "bit_width i = Suc m" "m < 64" "unat i < 2 ^ Suc m"
    using bit_width_cases [OF assms] by metis
  with bit_top [OF m(1)] minus_bit_floor [OF m(1)] that show thesis
    by (simp add: GetParentIndex_def)
qed

lemma parent_less: "i \<noteq> 0 \<Longrightarrow> GetParentIndex i < i"
  by (erule parent_bits) (auto intro!: bits_subset_less simp: bit_take_bit_iff)

lemma parent_before [key_simps]:
  assumes "i \<noteq> 0" "i < kMaxBuckets"
  shows "MakeSentinelKey (GetParentIndex i) < MakeSentinelKey i"
proof -
  obtain m where m: "bit i m" "m < 64" "GetParentIndex i = take_bit m i"
    using assms(1) by (rule parent_bits)
  have "m < 62"
  proof (rule ccontr)
    assume "\<not> m < 62"
    then have "(2::nat) ^ 62 \<le> 2 ^ m" by (intro power_increasing) simp_all
    moreover have "2 ^ m \<le> unat i"
    proof -
      from m(1) have "odd (unat i div 2 ^ m)" by (simp add: bit_simps flip: bit_iff_odd)
      then have "unat i div 2 ^ m \<noteq> 0" by (metis even_zero)
      then show ?thesis by (simp add: div_eq_0_iff)
    qed
    ultimately show False using assms(2) by (simp add: word_less_nat_alt kMaxBuckets_eq)
  qed
  then show ?thesis
    by (intro bits_subset_less [where m = "63 - m"])
      (auto simp: m key_simps bit_take_bit_iff)
qed

text \<open>
  The elements of one bucket are contiguous: between a bucket's sentinel and its elements there is
  no sentinel of another bucket of the same capacity.
\<close>

lemma drop_bit_less_mono:
  fixes v w :: size_t
  assumes "drop_bit n v < drop_bit n w" "n < 64"
  shows "v < w"
proof (rule ccontr)
  assume "\<not> v < w"
  then have "unat w div 2 ^ n \<le> unat v div 2 ^ n"
    by (intro div_le_mono) (simp add: word_less_nat_alt)
  with assms show False
    by (simp add: word_less_nat_alt drop_bit_eq_div unat_div)
qed

lemma bucket_contiguous_aux:
  fixes s e z :: size_t
  assumes top: "drop_bit n s = drop_bit n e" and low: "take_bit n z = 0" and n: "n < 64"
    and less: "s < z"
  shows "e < z"
proof -
  have "drop_bit n s \<noteq> drop_bit n z"
  proof
    assume eq: "drop_bit n s = drop_bit n z"
    have "z \<le> s"
    proof (rule bits_subset_le)
      fix j assume j: "bit z j"
      have "n \<le> j"
      proof (rule ccontr)
        assume "\<not> n \<le> j"
        with j have "bit (take_bit n z) j" by (simp add: bit_simps)
        with low show False by simp
      qed
      with j have "bit (drop_bit n z) (j - n)" by (simp add: bit_simps)
      with eq have "bit (drop_bit n s) (j - n)" by simp
      with \<open>n \<le> j\<close> show "bit s j" by (simp add: bit_simps)
    qed
    with less show False by simp
  qed
  moreover have "drop_bit n s \<le> drop_bit n z"
    using less n by (simp add: word_le_nat_alt word_less_nat_alt drop_bit_eq_div unat_div div_le_mono)
  ultimately have "drop_bit n e < drop_bit n z" using top by simp
  then show ?thesis using n by (rule drop_bit_less_mono)
qed


lemma bucket_contiguous:
  assumes c: "valid_capacity c" and b: "b' < c"
    and less: "MakeSentinelKey (hash e mod c) < MakeSentinelKey b'"
  shows "MakeOrdinaryKey hash e < MakeSentinelKey b'"
proof -
  from c obtain k where k: "k \<le> 62" "unat c = 2 ^ k" "\<And>w. w mod c = take_bit k w"
    by (elim valid_capacityE) blast
  have low: "\<not> bit b' j" if "k \<le> j" for j
  proof
    assume "bit b' j"
    have "b' mod c = b'" using b by (simp add: word_unat_eq_iff unat_mod_size word_less_nat_alt)
    then have "take_bit k b' = b'" using k(3) by simp
    with \<open>bit b' j\<close> that show False by (metis bit_take_bit_iff not_le)
  qed
  show ?thesis
  proof (cases "k = 0")
    case True
    then have "b' = 0" using b k(2) by (simp add: word_less_nat_alt unat_eq_0)
    with less show ?thesis by simp
  next
    case False
    show ?thesis
    proof (rule bucket_contiguous_aux [where n = "64 - k"])
      show "drop_bit (64 - k) (MakeSentinelKey (hash e mod c)) = drop_bit (64 - k) (MakeOrdinaryKey hash e)"
        using k(1) False by (auto intro!: bit_word_eqI simp: bit_drop_bit_eq key_simps k(3) bit_take_bit_iff)
      show "take_bit (64 - k) (MakeSentinelKey b') = 0"
        using low by (auto intro!: bit_word_eqI simp: bit_take_bit_iff key_simps)
    qed (use less False in simp_all)
  qed
qed

section \<open>Properties\<close>

text \<open>
  \<open>detail::ReverseBits\<close> moves bit \<open>n\<close> to bit \<open>63 - n\<close>, and is its own inverse.
\<close>

lemma ReverseBits_reverses:
  "ReverseBits w = word_reverse w \<and> ReverseBits (ReverseBits w) = w"
  by (simp add: ReverseBits_eq_word_reverse)

text \<open>
  The static assertions on the key space hold; the key of an element is odd, the key
  of a bucket even, both are below the key of the tail, and two keys are equal only when the hashes
  (the indices) agree in their low 62 bits.
\<close>

lemma key_space:
  "key_static_asserts \<and>
   MakeSentinelKey i < kTailKey \<and> MakeOrdinaryKey hash e < kTailKey \<and>
   even (MakeSentinelKey i) \<and> odd (MakeOrdinaryKey hash e) \<and>
   (MakeSentinelKey i = MakeSentinelKey j \<longleftrightarrow> i AND kKeyMask = j AND kKeyMask) \<and>
   (MakeOrdinaryKey hash d = MakeOrdinaryKey hash e \<longleftrightarrow>
      hash d AND kKeyMask = hash e AND kKeyMask)"
proof -
  have "ReverseBits kKeyMask = MakeSentinelKey (- 1)"
    "ReverseBits (kKeyMask OR kOrdinaryKeyBit) = MakeOrdinaryKey (\<lambda>_. - 1) ()"
    by (simp_all add: MakeSentinelKey_def MakeOrdinaryKey_def)
  moreover have "kKeyMask AND kOrdinaryKeyBit = 0"
    by (rule bit_word_eqI) (auto simp: bit_and_iff kKeyMask_eq bit_mask_iff bit_kOrdinaryKeyBit)
  ultimately have "key_static_asserts"
    by (simp only: key_static_asserts_def sentinel_less_tail ordinary_less_tail simp_thms)
  then show ?thesis
    using even_sentinel [of i] odd_ordinary [of hash e]
    by (simp add: sentinel_less_tail ordinary_less_tail sentinel_key_eq_iff ordinary_key_eq_iff
        and_kKeyMask bit_0)
qed

text \<open>
  C38 (functional): split ordering. For every capacity the set can have, the sentinel of an element's
  bucket precedes the element, and no sentinel of another bucket of that capacity lies between
  them; so a scan from the bucket meets the element whichever capacity it was computed with.
\<close>

theorem split_order:
  assumes "valid_capacity c"
  shows "MakeSentinelKey (hash e mod c) < MakeOrdinaryKey hash e \<and>
    (\<forall>b < c. \<not> (MakeSentinelKey (hash e mod c) < MakeSentinelKey b \<and>
                 MakeSentinelKey b < MakeOrdinaryKey hash e))"
  using bucket_before_element [OF assms] bucket_contiguous [OF assms] by (meson less_asym)

theorem split_order_witness:
  "MakeSentinelKey (7 mod 4) < MakeOrdinaryKey id 7 \<and>
   \<not> (MakeSentinelKey (7 mod 4) < MakeSentinelKey 1 \<and> MakeSentinelKey 1 < MakeOrdinaryKey id 7)"
proof -
  have c: "valid_capacity 4" unfolding valid_capacity_def by (intro exI [of _ 2]) simp
  have "(1 :: size_t) < 4" by simp
  then show ?thesis using split_order [OF c, of id 7] by (metis id_apply)
qed

text \<open>
  The parent of a non-zero bucket index is the index without its highest bit: a
  smaller index, whose sentinel precedes the sentinel of the index. \<open>InitializeBucket\<close> recurses on
  the parent, so its recursion ends at bucket 0.
\<close>

lemma parent_decreases:
  assumes "i \<noteq> 0" "i < kMaxBuckets"
  shows "GetParentIndex i < i \<and>
    MakeSentinelKey (GetParentIndex i) < MakeSentinelKey i"
  using parent_less [OF assms(1)] parent_before [OF assms] by simp

end
