(* ===== verification/HashSetBase.thy ===== *)
theory HashSetBase
  imports Prelude
begin

text \<open>
  \<open>HashSetBase.h\<close>: the interface all the sets implement. Its contract is the abstract set: an
  operation on a set of elements returns a boolean and a new set. The locale \<open>hash_set\<close> is the
  interface for the use of a set by one thread: three operations and \<open>Size\<close>, on a state with an
  invariant and an abstraction to the set of its elements. Its clients are proved once inside it.
\<close>

section \<open>The operations and what they mean\<close>

datatype 'a op = Add 'a | Remove 'a | Contains 'a

primrec op_elem :: "'a op \<Rightarrow> 'a" where
  "op_elem (Add e) = e"
| "op_elem (Remove e) = e"
| "op_elem (Contains e) = e"

fun is_add :: "'a op \<Rightarrow> bool" where
  "is_add (Add e) = True"
| "is_add x = False"

fun apply_op :: "'a op \<Rightarrow> 'a set \<Rightarrow> bool \<times> 'a set" where
  "apply_op (Add e) A = (e \<notin> A, insert e A)"
| "apply_op (Remove e) A = (e \<in> A, A - {e})"
| "apply_op (Contains e) A = (e \<in> A, A)"

text \<open>Running a list of operations, with the results in order.\<close>

fun apply_ops :: "'a op list \<Rightarrow> 'a set \<Rightarrow> bool list \<times> 'a set" where
  "apply_ops [] A = ([], A)"
| "apply_ops (x # xs) A =
     (let (r, A1) = apply_op x A; (rs, A2) = apply_ops xs A1 in (r # rs, A2))"

text \<open>How many of the results say that an element was added, and that one was removed.\<close>

fun count_added :: "'a op list \<Rightarrow> bool list \<Rightarrow> nat" where
  "count_added (Add e # xs) (r # rs) = (if r then 1 else 0) + count_added xs rs"
| "count_added (x # xs) (r # rs) = count_added xs rs"
| "count_added _ _ = 0"

fun count_removed :: "'a op list \<Rightarrow> bool list \<Rightarrow> nat" where
  "count_removed (Remove e # xs) (r # rs) = (if r then 1 else 0) + count_removed xs rs"
| "count_removed (x # xs) (r # rs) = count_removed xs rs"
| "count_removed _ _ = 0"

lemma apply_op_finite: "finite A \<Longrightarrow> finite (snd (apply_op x A))"
  by (cases x) auto

lemma apply_ops_card:
  assumes "finite A" "apply_ops xs A = (rs, B)"
  shows "finite B \<and> card B + count_removed xs rs = card A + count_added xs rs"
  using assms
proof (induction xs arbitrary: A rs)
  case (Cons x xs)
  obtain r A1 where x: "apply_op x A = (r, A1)" by (cases "apply_op x A")
  from Cons.prems(2) x obtain rs' where rs: "rs = r # rs'" "apply_ops xs A1 = (rs', B)"
    by (auto split: prod.splits)
  have "finite A1" using Cons.prems(1) apply_op_finite [of A x] x by simp
  with Cons.IH rs have IH: "finite B" "card B + count_removed xs rs' = card A1 + count_added xs rs'"
    by blast+
  show ?case
  proof (cases x)
    case (Add e)
    with x have "card A1 = card A + (if r then 1 else 0)"
      using Cons.prems(1) by (auto simp: insert_absorb)
    with IH Add rs show ?thesis by simp
  next
    case (Remove e)
    have "e \<in> A \<Longrightarrow> 0 < card A" using Cons.prems(1) by (auto simp: card_gt_0_iff)
    with Remove x have "card A = card A1 + (if r then 1 else 0)"
      by (auto simp: card_Diff_singleton_if)
    with IH Remove rs show ?thesis by simp
  next
    case (Contains e)
    with x IH rs show ?thesis by auto
  qed
qed simp

section \<open>The interface for one thread\<close>

text \<open>
  \<open>run\<close> is the member function for the operation. It may throw (when the table cannot grow), after
  the operation has taken effect; it is never undefined.
\<close>

locale hash_set =
  fixes inv :: "'s \<Rightarrow> bool"
    and elements :: "'s \<Rightarrow> 'a set"
    and run :: "'a op \<Rightarrow> 's \<Rightarrow> (bool, 's) outcome"
    and size_of :: "'s \<Rightarrow> size_t"
  assumes finite_elements: "inv s \<Longrightarrow> finite (elements s)"
    and size_card: "inv s \<Longrightarrow> size_of s = of_nat (card (elements s))"
    and run_defined: "inv s \<Longrightarrow> run x s \<noteq> Undef"
    and run_ret: "inv s \<Longrightarrow> run x s = Ret r s' \<Longrightarrow>
      inv s' \<and> apply_op x (elements s) = (r, elements s')"
    and run_throw: "inv s \<Longrightarrow> run x s = Throw ex s' \<Longrightarrow>
      inv s' \<and> elements s' = snd (apply_op x (elements s)) \<and> fst (apply_op x (elements s))"
begin

text \<open>A client that performs a list of operations and stops at the first exception.\<close>

primrec run_all :: "'a op list \<Rightarrow> 's \<Rightarrow> (bool list, 's) outcome" where
  "run_all [] s = Ret [] s"
| "run_all (x # xs) s =
     (case run x s of
        Ret r s1 \<Rightarrow>
          (case run_all xs s1 of
             Ret rs s2 \<Rightarrow> Ret (r # rs) s2
           | Throw ex s2 \<Rightarrow> Throw ex s2
           | Undef \<Rightarrow> Undef)
      | Throw ex s1 \<Rightarrow> Throw ex s1
      | Undef \<Rightarrow> Undef)"

lemma run_all_ret:
  "inv s \<Longrightarrow> run_all xs s = Ret rs s' \<Longrightarrow> inv s' \<and> apply_ops xs (elements s) = (rs, elements s')"
proof (induction xs arbitrary: s rs)
  case (Cons x xs)
  from Cons.prems obtain r s1 rs' where
    s1: "run x s = Ret r s1" "run_all xs s1 = Ret rs' s'" "rs = r # rs'"
    by (auto split: outcome.splits)
  with run_ret [OF Cons.prems(1) s1(1)] Cons.IH [of s1 rs'] show ?case by auto
qed simp

lemma run_all_defined: "inv s \<Longrightarrow> run_all xs s \<noteq> Undef"
proof (induction xs arbitrary: s)
  case (Cons x xs)
  show ?case
  proof (cases "run x s")
    case (Ret r s1)
    with run_ret [OF Cons.prems] Cons.IH [of s1] show ?thesis by (auto split: outcome.splits)
  qed (use run_defined [OF Cons.prems] in auto)
qed simp

text \<open>
  The check the benchmark makes after a run: the size is the initial size plus the number of
  successful additions minus the number of successful removals, in wrapping arithmetic.
\<close>

lemma size_after_run:
  assumes "inv s" "run_all xs s = Ret rs s'"
  shows "size_of s' = size_of s + of_nat (count_added xs rs) - of_nat (count_removed xs rs)"
proof -
  from run_all_ret [OF assms] have inv: "inv s'" and ops: "apply_ops xs (elements s) = (rs, elements s')"
    by simp_all
  have "card (elements s') + count_removed xs rs = card (elements s) + count_added xs rs"
    using apply_ops_card [OF finite_elements [OF assms(1)] ops] by simp
  then have "(of_nat (card (elements s') + count_removed xs rs) :: size_t) =
      of_nat (card (elements s) + count_added xs rs)" by (rule arg_cong)
  then show ?thesis
    by (simp add: size_card [OF inv] size_card [OF assms(1)] algebra_simps)
qed

end

end
