(* ===== verification/BucketList.thy ===== *)
theory BucketList
  imports Markable SplitOrder HashSetBase
begin

text \<open>
  \<open>BucketList.h\<close>: the lock-free sorted list under the split-ordered hash set. A node lives at an
  address, an index into the heap; nodes are allocated at the end of the heap and addresses are
  never reused here (in the program a node's memory is reused only after \<open>EpochReclaimer\<close> has
  freed it, which is the subject of the theory \<open>EpochReclaimer\<close>). What the list hands to
  \<open>Guard::Retire\<close> and what it deletes on the spot is recorded in order.

  An operation is a program counter and a step function. Every step makes at most one access to a
  shared atomic cell; reads of the immutable \<open>key\<close> and \<open>elem\<close> of a node and writes to a node no
  other thread can reach yet are part of the step they follow.
\<close>

section \<open>Nodes\<close>

type_synonym addr = nat

record 'a node =
  elem :: 'a
  key :: size_t
  nxt :: "addr option mref"

record 'a lists =
  heap :: "'a node list"
  retired :: "addr list"
  deleted :: "addr list"

definition Matches :: "'a node \<Rightarrow> size_t \<Rightarrow> 'a option \<Rightarrow> bool" where
  "Matches n k e \<longleftrightarrow> key n = k \<and> (case e of None \<Rightarrow> True | Some x \<Rightarrow> elem n = x)"

definition AtOrPast :: "'a node \<Rightarrow> size_t \<Rightarrow> 'a option \<Rightarrow> bool" where
  "AtOrPast n k e \<longleftrightarrow> k < key n \<or> Matches n k e"

text \<open>
  \<open>node->next.Store(ref, false)\<close> and \<open>node->next.CompareAndSet(...)\<close> on the node at an address.
\<close>

definition set_next :: "'a node list \<Rightarrow> addr \<Rightarrow> addr option mref \<Rightarrow> 'a node list" where
  "set_next h a r = h[a := (h ! a)\<lparr>nxt := r\<rparr>]"

definition cas_next ::
    "'a node list \<Rightarrow> addr \<Rightarrow> addr option \<Rightarrow> bool \<Rightarrow> addr option \<Rightarrow> bool \<Rightarrow> bool \<times> 'a node list" where
  "cas_next h a e em p m =
     (let (ok, r) = mref_cas (nxt (h ! a)) e em p m in (ok, set_next h a r))"

section \<open>Operations\<close>

text \<open>
  The operations that go through \<open>Find\<close>: \<open>Add\<close> and \<open>Remove\<close> of an element, and \<open>SentinelFor\<close> a
  bucket index. The call keeps the head it started from and the node it has allocated, if any.
\<close>

datatype 'a lop = LAdd 'a | LRemove 'a | LSentinel size_t

record 'a call =
  c_op :: "'a lop"
  c_head :: addr
  c_node :: "addr option"

primrec lop_key :: "('a \<Rightarrow> size_t) \<Rightarrow> 'a lop \<Rightarrow> size_t" where
  "lop_key hash (LAdd e) = MakeOrdinaryKey hash e"
| "lop_key hash (LRemove e) = MakeOrdinaryKey hash e"
| "lop_key hash (LSentinel i) = MakeSentinelKey i"

primrec lop_elem :: "'a lop \<Rightarrow> 'a option" where
  "lop_elem (LAdd e) = Some e"
| "lop_elem (LRemove e) = Some e"
| "lop_elem (LSentinel i) = None"

datatype lres = RBool bool | RSentinel addr

text \<open>
  Program counters. \<open>LFind\<close> is \<open>find_retry\<close>, \<open>LScan\<close> the load of \<open>curr->next\<close>, \<open>LUnlink\<close> and
  \<open>LRetire\<close> the physical removal of a marked node met on the way, \<open>LInsert\<close> the compare-and-set
  that links a new node, \<open>LSucc\<close>, \<open>LMark\<close>, \<open>LDetach\<close>, \<open>LDispose\<close> the steps of \<open>Remove\<close> after its
  window is found, \<open>LLook\<close> the traversal of \<open>Contains\<close>. \<open>LUndef\<close> is undefined behaviour: a null or
  invalid node has been dereferenced or an assertion has failed.
\<close>

datatype 'a lpc =
    LFind "'a call"
  | LScan "'a call" addr addr
  | LUnlink "'a call" addr addr "addr option"
  | LRetire "'a call" addr addr "addr option"
  | LInsert "'a call" addr addr addr
  | LSucc "'a call" addr addr
  | LMark "'a call" addr addr "addr option"
  | LDetach addr addr "addr option"
  | LDispose addr
  | LLook 'a addr
  | LRet lres
  | LUndef

text \<open>Following a reference that is about to be dereferenced.\<close>

definition goto :: "addr option \<Rightarrow> (addr \<Rightarrow> 'a lpc) \<Rightarrow> 'a lpc" where
  "goto r f = (case r of None \<Rightarrow> LUndef | Some a \<Rightarrow> f a)"

definition delete_node :: "addr option \<Rightarrow> 'a lists \<Rightarrow> 'a lists" where
  "delete_node r s = (case r of None \<Rightarrow> s | Some a \<Rightarrow> s\<lparr>deleted := deleted s @ [a]\<rparr>)"

text \<open>\<open>new Node{...}\<close> and the reuse of the node of an earlier attempt.\<close>

definition prepare_node ::
    "('a \<Rightarrow> size_t) \<Rightarrow> 'a \<Rightarrow> 'a call \<Rightarrow> addr \<Rightarrow> 'a lists \<Rightarrow> addr \<times> 'a lists" where
  "prepare_node hash d c cur s =
     (case c_node c of
        None \<Rightarrow>
          (length (heap s),
           s\<lparr>heap := heap s @ [\<lparr>elem = (case lop_elem (c_op c) of None \<Rightarrow> d | Some e \<Rightarrow> e),
                              key = lop_key hash (c_op c), nxt = (Some cur, False)\<rparr>]\<rparr>)
      | Some n \<Rightarrow> (n, s\<lparr>heap := set_next (heap s) n (Some cur, False)\<rparr>))"

text \<open>
  What the caller of \<open>Find\<close> does with the window \<open>(pred, curr)\<close>, up to its next access to a shared
  cell.
\<close>

definition found ::
    "('a \<Rightarrow> size_t) \<Rightarrow> 'a \<Rightarrow> 'a call \<Rightarrow> addr \<Rightarrow> addr \<Rightarrow> 'a lists \<Rightarrow> 'a lists \<times> 'a lpc" where
  "found hash d c pred cur s =
     (let hit = Matches (heap s ! cur) (lop_key hash (c_op c)) (lop_elem (c_op c));
          insert = (let (n, s1) = prepare_node hash d c cur s
                    in (s1, LInsert (c\<lparr>c_node := Some n\<rparr>) pred cur n))
      in case c_op c of
           LAdd e \<Rightarrow> if hit then (delete_node (c_node c) s, LRet (RBool False)) else insert
         | LSentinel i \<Rightarrow> if hit then (delete_node (c_node c) s, LRet (RSentinel cur)) else insert
         | LRemove e \<Rightarrow> if hit then (s, LSucc c pred cur) else (s, LRet (RBool False)))"

definition retry :: "'a call \<Rightarrow> 'a lpc" where
  "retry c = LFind c"

fun l_step :: "('a \<Rightarrow> size_t) \<Rightarrow> 'a \<Rightarrow> 'a lists \<Rightarrow> 'a lpc \<Rightarrow> 'a lists \<times> 'a lpc" where
  "l_step hash d s (LFind c) =
     (if c_head c < length (heap s)
      then (s, goto (fst (nxt (heap s ! c_head c))) (\<lambda>cur. LScan c (c_head c) cur))
      else (s, LUndef))"
| "l_step hash d s (LScan c pred cur) =
     (if cur < length (heap s)
      then (let (succ, marked) = nxt (heap s ! cur)
            in if marked then (s, LUnlink c pred cur succ)
               else if AtOrPast (heap s ! cur) (lop_key hash (c_op c)) (lop_elem (c_op c))
               then found hash d c pred cur s
               else (s, goto succ (\<lambda>a. LScan c cur a)))
      else (s, LUndef))"
| "l_step hash d s (LUnlink c pred cur succ) =
     (if pred < length (heap s)
      then (let (ok, h) = cas_next (heap s) pred (Some cur) False succ False
            in if ok then (s\<lparr>heap := h\<rparr>, LRetire c pred cur succ) else (s, retry c))
      else (s, LUndef))"
| "l_step hash d s (LRetire c pred cur succ) =
     (s\<lparr>retired := retired s @ [cur]\<rparr>, goto succ (\<lambda>a. LScan c pred a))"
| "l_step hash d s (LInsert c pred cur n) =
     (if pred < length (heap s)
      then (let (ok, h) = cas_next (heap s) pred (Some cur) False (Some n) False
            in if ok
               then (s\<lparr>heap := h\<rparr>,
                     LRet (case c_op c of LSentinel i \<Rightarrow> RSentinel n | _ \<Rightarrow> RBool True))
               else (s, retry c))
      else (s, LUndef))"
| "l_step hash d s (LSucc c pred cur) =
     (if cur < length (heap s)
      then (s, LMark c pred cur (fst (nxt (heap s ! cur))))
      else (s, LUndef))"
| "l_step hash d s (LMark c pred cur succ) =
     (if cur < length (heap s)
      then (let (ok, r) = mref_attempt_mark (nxt (heap s ! cur)) succ True
            in if ok then (s\<lparr>heap := set_next (heap s) cur r\<rparr>, LDetach pred cur succ)
               else (s, retry c))
      else (s, LUndef))"
| "l_step hash d s (LDetach pred cur succ) =
     (if pred < length (heap s)
      then (let (ok, h) = cas_next (heap s) pred (Some cur) False succ False
            in if ok then (s\<lparr>heap := h\<rparr>, LDispose cur) else (s, LRet (RBool True)))
      else (s, LUndef))"
| "l_step hash d s (LDispose cur) =
     (s\<lparr>retired := retired s @ [cur]\<rparr>, LRet (RBool True))"
| "l_step hash d s (LLook e cur) =
     (if cur < length (heap s)
      then (let n = heap s ! cur; k = MakeOrdinaryKey hash e
            in if AtOrPast n k (Some e)
               then (s, LRet (RBool (Matches n k (Some e) \<and> \<not> snd (nxt n))))
               else (s, goto (fst (nxt n)) (\<lambda>a. LLook e a)))
      else (s, LUndef))"
| "l_step hash d s (LRet r) = (s, LRet r)"
| "l_step hash d s LUndef = (s, LUndef)"

text \<open>
  The start of an operation on the list that begins at \<open>head\<close>. \<open>SentinelFor\<close> asserts that the new
  sentinel belongs after the head.
\<close>

definition l_find :: "'a lop \<Rightarrow> addr \<Rightarrow> 'a lpc" where
  "l_find x head = LFind \<lparr>c_op = x, c_head = head, c_node = None\<rparr>"

definition l_start :: "'a op \<Rightarrow> addr \<Rightarrow> 'a lpc" where
  "l_start x head =
     (case x of
        Add e \<Rightarrow> l_find (LAdd e) head
      | Remove e \<Rightarrow> l_find (LRemove e) head
      | Contains e \<Rightarrow> LLook e head)"

definition SentinelFor :: "'a lists \<Rightarrow> addr \<Rightarrow> size_t \<Rightarrow> 'a lpc" where
  "SentinelFor s head index =
     (let k = MakeSentinelKey index
      in if head < length (heap s)
         then if k < key (heap s ! head) then LUndef
              else if key (heap s ! head) = k then LRet (RSentinel head)
              else l_find (LSentinel index) head
         else LUndef)"

text \<open>
  \<open>MakeRoot\<close>: a head with key zero before the tail. \<open>Destroy\<close> walks the list and deletes every node;
  it returns the nodes in the order of their deletion, \<open>None\<close> if it has not reached the null
  reference after \<open>fuel\<close> nodes.
\<close>

definition MakeRoot :: "'a \<Rightarrow> 'a lists \<times> addr" where
  "MakeRoot d =
     (\<lparr>heap = [\<lparr>elem = d, key = kTailKey, nxt = (None, False)\<rparr>,
              \<lparr>elem = d, key = 0, nxt = (Some 0, False)\<rparr>],
       retired = [], deleted = []\<rparr>, 1)"

fun Destroy :: "nat \<Rightarrow> 'a node list \<Rightarrow> addr option \<Rightarrow> addr list option" where
  "Destroy fuel h None = Some []"
| "Destroy 0 h (Some a) = None"
| "Destroy (Suc fuel) h (Some a) =
     (if a < length h
      then map_option (\<lambda>as. a # as) (Destroy fuel h (fst (nxt (h ! a))))
      else None)"

end
