(* ===== verification/Concurrency.thy ===== *)
theory Concurrency
  imports HashSetBase
begin

text \<open>
  Interleaving of threads. A concurrent set is a \<^emph>\<open>program\<close>: a program counter for a thread that is
  not in any operation, one for the start of each operation, a step function that performs one
  access to the shared state (or is blocked, on a mutex another thread holds), and the result of a
  program counter that has reached the end of its operation. The steps of the system are the steps
  of its threads in any order, under sequential consistency; the visible events are the calls and
  the returns.
\<close>

section \<open>Programs and their steps\<close>

datatype 'a event = Call tid "'a op" | Return tid bool

record ('a, 'sh, 'pc) program =
  p_idle :: 'pc
  p_start :: "'a op \<Rightarrow> 'pc"
  p_step :: "tid \<Rightarrow> 'sh \<Rightarrow> 'pc \<Rightarrow> ('sh \<times> 'pc) option"
  p_result :: "'pc \<Rightarrow> bool option"

record ('sh, 'pc) sys =
  shared :: 'sh
  pcs :: "tid \<Rightarrow> 'pc"

definition sys_init :: "('a, 'sh, 'pc) program \<Rightarrow> 'sh \<Rightarrow> ('sh, 'pc) sys" where
  "sys_init P sh = \<lparr>shared = sh, pcs = (\<lambda>_. p_idle P)\<rparr>"

inductive sys_step ::
    "('a, 'sh, 'pc) program \<Rightarrow> ('sh, 'pc) sys \<Rightarrow> 'a event option \<Rightarrow> ('sh, 'pc) sys \<Rightarrow> bool"
  for P where
  step_call: "pcs s t = p_idle P \<Longrightarrow>
     sys_step P s (Some (Call t x)) (s\<lparr>pcs := (pcs s)(t := p_start P x)\<rparr>)"
| step_internal: "p_step P t (shared s) (pcs s t) = Some (sh, pc) \<Longrightarrow>
     sys_step P s None (s\<lparr>shared := sh, pcs := (pcs s)(t := pc)\<rparr>)"
| step_return: "p_result P (pcs s t) = Some r \<Longrightarrow>
     sys_step P s (Some (Return t r)) (s\<lparr>pcs := (pcs s)(t := p_idle P)\<rparr>)"

inductive_cases sys_step_cases: "sys_step P s l s'"

text \<open>The visible part of a label.\<close>

definition visible :: "'a event option \<Rightarrow> 'a event list" where
  "visible l = (case l of None \<Rightarrow> [] | Some e \<Rightarrow> [e])"

lemma visible_simps [simp]: "visible None = []" "visible (Some e) = [e]"
  by (simp_all add: visible_def)

inductive sys_run ::
    "('a, 'sh, 'pc) program \<Rightarrow> ('sh, 'pc) sys \<Rightarrow> 'a event list \<Rightarrow> ('sh, 'pc) sys \<Rightarrow> bool"
  for P s where
  run_start: "sys_run P s [] s"
| run_step: "sys_run P s h s1 \<Longrightarrow> sys_step P s1 l s2 \<Longrightarrow> sys_run P s (h @ visible l) s2"

text \<open>Invariants of all the states of a run.\<close>

lemma sys_run_invariant:
  assumes "sys_run P s h s'" "I s"
    and "\<And>s1 l s2. I s1 \<Longrightarrow> sys_step P s1 l s2 \<Longrightarrow> I s2"
  shows "I s'"
  using assms(1) by induction (use assms in blast)+

lemma sys_run_trans:
  assumes "sys_run P s1 h s2" "sys_run P s2 h' s3"
  shows "sys_run P s1 (h @ h') s3"
  using assms(2)
proof induction
  case run_start
  with assms(1) show ?case by simp
next
  case (run_step h' s3 l s4)
  then show ?case using sys_run.run_step [of P s1 "h @ h'" s3 l s4] by simp
qed

text \<open>Only finitely many threads are ever in an operation.\<close>

definition active :: "('a, 'sh, 'pc) program \<Rightarrow> ('sh, 'pc) sys \<Rightarrow> tid set" where
  "active P s = {t. pcs s t \<noteq> p_idle P}"

lemma sys_step_active:
  "sys_step P s l s' \<Longrightarrow> \<exists>t. active P s' \<subseteq> insert t (active P s)"
  by (erule sys_step_cases) (auto simp: active_def split: if_splits)

lemma finite_active:
  assumes "sys_run P (sys_init P sh) h s"
  shows "finite (active P s)"
proof (rule sys_run_invariant [OF assms])
  show "finite (active P (sys_init P sh))" by (simp add: active_def sys_init_def)
  fix s1 s2 and l :: "'a event option"
  assume "finite (active P s1)" "sys_step P s1 l s2"
  then show "finite (active P s2)" by (metis sys_step_active finite_insert finite_subset)
qed

section \<open>An executable scheduler\<close>

text \<open>
  A schedule names the thread that moves next; running one computes the state reached and the
  history, so that concrete executions can be evaluated.
\<close>

datatype 'a choice = CallOp tid "'a op" | Tick tid | Finish tid

fun sched_step ::
    "('a, 'sh, 'pc) program \<Rightarrow> 'a choice \<Rightarrow> ('sh, 'pc) sys \<Rightarrow> ('sh, 'pc) sys option" where
  "sched_step P (CallOp t x) s =
     (if pcs s t = p_idle P then Some (s\<lparr>pcs := (pcs s)(t := p_start P x)\<rparr>) else None)"
| "sched_step P (Tick t) s =
     (case p_step P t (shared s) (pcs s t) of
        None \<Rightarrow> None
      | Some (sh, pc) \<Rightarrow> Some (s\<lparr>shared := sh, pcs := (pcs s)(t := pc)\<rparr>))"
| "sched_step P (Finish t) s =
     (case p_result P (pcs s t) of
        None \<Rightarrow> None
      | Some r \<Rightarrow> Some (s\<lparr>pcs := (pcs s)(t := p_idle P)\<rparr>))"

fun sched_event :: "('a, 'sh, 'pc) program \<Rightarrow> 'a choice \<Rightarrow> ('sh, 'pc) sys \<Rightarrow> 'a event list" where
  "sched_event P (CallOp t x) s = [Call t x]"
| "sched_event P (Tick t) s = []"
| "sched_event P (Finish t) s =
     (case p_result P (pcs s t) of None \<Rightarrow> [] | Some r \<Rightarrow> [Return t r])"

fun sched_run ::
    "('a, 'sh, 'pc) program \<Rightarrow> 'a choice list \<Rightarrow> ('sh, 'pc) sys \<Rightarrow>
     ('a event list \<times> ('sh, 'pc) sys) option" where
  "sched_run P [] s = Some ([], s)"
| "sched_run P (c # cs) s =
     (case sched_step P c s of
        None \<Rightarrow> None
      | Some s1 \<Rightarrow>
          (case sched_run P cs s1 of
             None \<Rightarrow> None
           | Some (h, s2) \<Rightarrow> Some (sched_event P c s @ h, s2)))"

lemma sched_step_sound:
  "sched_step P c s = Some s' \<Longrightarrow> \<exists>l. sys_step P s l s' \<and> visible l = sched_event P c s"
proof (cases c)
  case (CallOp t x)
  then show "sched_step P c s = Some s' \<Longrightarrow> ?thesis"
    using step_call [of s t P x] by (auto split: if_splits)
next
  case (Tick t)
  then show "sched_step P c s = Some s' \<Longrightarrow> ?thesis"
    using step_internal [of P t s] by (auto split: option.splits)
next
  case (Finish t)
  then show "sched_step P c s = Some s' \<Longrightarrow> ?thesis"
    using step_return [of P s t] by (auto split: option.splits)
qed

lemma sched_run_sound: "sched_run P cs s = Some (h, s') \<Longrightarrow> sys_run P s h s'"
proof (induction cs arbitrary: s h)
  case Nil
  then show ?case by (auto intro: run_start)
next
  case (Cons c cs)
  from Cons.prems obtain s1 h1 where s1: "sched_step P c s = Some s1"
    "sched_run P cs s1 = Some (h1, s')" "h = sched_event P c s @ h1"
    by (auto split: option.splits)
  obtain l where l: "sys_step P s l s1" "visible l = sched_event P c s"
    using sched_step_sound [OF s1(1)] by blast
  have "sys_run P s (visible l) s1"
    using run_step [OF run_start l(1)] by simp
  from sys_run_trans [OF this Cons.IH [OF s1(2)]] l(2) s1(3) show ?case by simp
qed

end
