(* ===== verification/HashSetLockFree.thy ===== *)
theory HashSetLockFree
  imports BucketList Concurrency
begin

text \<open>
  \<open>HashSetLockFree.h\<close>: the lock-free set. One list in split order holds all elements; an array of
  atomic pointers leads to the sentinel node of each bucket that has been used, and the table grows
  by doubling the atomic \<open>capacity_\<close>, without moving an element. The set is a program in the sense
  of the theory \<open>Concurrency\<close>: each step makes at most one access to a shared atomic cell.
\<close>

section \<open>State and construction\<close>

record 'a lockfree =
  lf_list :: "'a lists"
  lf_buckets :: "addr option list"
  lf_max_capacity :: size_t
  lf_capacity :: size_t
  lf_set_size :: size_t

definition kDefaultMaxCapacity :: size_t where
  "kDefaultMaxCapacity = push_bit 20 1"

definition kDefaultInitialCapacity :: size_t where
  "kDefaultInitialCapacity = 2"

definition kLoadFactorNumerator :: size_t where
  "kLoadFactorNumerator = 3"

definition kLoadFactorDenominator :: size_t where
  "kLoadFactorDenominator = 4"

text \<open>
  The constructor. \<open>d\<close> is the value-initialised element \<open>T{}\<close> in the sentinels.
\<close>

definition construct_lockfree :: "'a \<Rightarrow> size_t \<Rightarrow> size_t \<Rightarrow> exn + 'a lockfree" where
  "construct_lockfree d initial_capacity max_capacity =
     (if initial_capacity < 2
      then Inl (Invalid_argument ''initial capacity must be at least two'')
      else if not_pow2 initial_capacity
      then Inl (Invalid_argument ''initial capacity must be a power of two'')
      else if not_pow2 max_capacity
      then Inl (Invalid_argument ''max capacity must be a power of two'')
      else if max_capacity < initial_capacity
      then Inl (Invalid_argument ''initial capacity must not exceed max capacity'')
      else if kMaxBuckets < max_capacity
      then Inl (Invalid_argument ''bucket index must fit in the sentinel key space'')
      else let (l, head) = MakeRoot d
           in Inr \<lparr>lf_list = l,
                   lf_buckets = (replicate (unat max_capacity) None)[0 := Some head],
                   lf_max_capacity = max_capacity, lf_capacity = initial_capacity, lf_set_size = 0\<rparr>)"

text \<open>The destructor: the nodes \<open>Destroy\<close> deletes, from the sentinel of bucket 0.\<close>

definition destroy_lockfree :: "nat \<Rightarrow> 'a lockfree \<Rightarrow> addr list option" where
  "destroy_lockfree fuel s = Destroy fuel (heap (lf_list s)) (lf_buckets s ! 0)"

definition lf_Size :: "'a lockfree \<Rightarrow> size_t" where
  "lf_Size s = lf_set_size s"

section \<open>The operations as a program\<close>

text \<open>
  Program counters. \<open>HCapacity\<close> is the load of \<open>capacity_\<close>. \<open>HBucket x i js\<close> is the load of
  \<open>buckets_[i]\<close> in \<open>GetBucketList\<close>; \<open>js\<close> are the indices of the calls of \<open>InitializeBucket\<close> that wait
  for it, innermost first. \<open>HSentinel x i js pc\<close> runs \<open>parent.SentinelFor(i)\<close> and, when that has
  returned, publishes the sentinel in \<open>buckets_[i]\<close>. \<open>HList x pc\<close> runs the operation on the bucket's
  list and, when it has succeeded, updates \<open>set_size_\<close>. The last three are \<open>ResizeIfNecessary\<close>.
\<close>

datatype 'a hpc =
    HIdle
  | HCapacity "'a op"
  | HBucket "'a op" size_t "size_t list"
  | HSentinel "'a op" size_t "size_t list" "'a lpc"
  | HList "'a op" "'a lpc"
  | HResizeCap
  | HResizeSize size_t
  | HResizeCas size_t
  | HRet bool
  | HUndef

text \<open>The return of a sentinel to the caller of \<open>GetBucketList\<close>.\<close>

definition bucket_found ::
    "'a op \<Rightarrow> size_t list \<Rightarrow> addr \<Rightarrow> 'a lists \<Rightarrow> 'a hpc" where
  "bucket_found x js a l =
     (case js of
        [] \<Rightarrow> HList x (l_start x a)
      | j # js \<Rightarrow> HSentinel x j js (SentinelFor l a j))"

definition get_bucket :: "'a lockfree \<Rightarrow> 'a op \<Rightarrow> size_t \<Rightarrow> size_t list \<Rightarrow> 'a hpc" where
  "get_bucket s x i js =
     (if unat i < length (lf_buckets s) \<and> i < lf_max_capacity s
      then (case lf_buckets s ! unat i of
              Some a \<Rightarrow> bucket_found x js a (lf_list s)
            | None \<Rightarrow> if i = 0 then HUndef else HBucket x (GetParentIndex i) (i # js))
      else HUndef)"

text \<open>\<open>buckets_[i].compare_exchange_strong(nullptr, sentinel)\<close>.\<close>

definition publish_bucket :: "'a lockfree \<Rightarrow> size_t \<Rightarrow> addr \<Rightarrow> 'a lockfree" where
  "publish_bucket s i a =
     (if lf_buckets s ! unat i = None then s\<lparr>lf_buckets := (lf_buckets s)[unat i := Some a]\<rparr> else s)"

text \<open>What follows the return of the list's operation.\<close>

definition list_done :: "'a lockfree \<Rightarrow> 'a op \<Rightarrow> bool \<Rightarrow> 'a lockfree \<times> 'a hpc" where
  "list_done s x r =
     (case x of
        Add e \<Rightarrow> if r then (s\<lparr>lf_set_size := lf_set_size s + 1\<rparr>, HResizeCap) else (s, HRet False)
      | Remove e \<Rightarrow> if r then (s\<lparr>lf_set_size := lf_set_size s - 1\<rparr>, HRet True) else (s, HRet False)
      | Contains e \<Rightarrow> (s, HRet r))"

fun lf_step :: "('a \<Rightarrow> size_t) \<Rightarrow> 'a \<Rightarrow> 'a lockfree \<Rightarrow> 'a hpc \<Rightarrow> ('a lockfree \<times> 'a hpc) option" where
  "lf_step hash d s HIdle = None"
| "lf_step hash d s (HCapacity x) =
     Some (s, if lf_capacity s = 0 then HUndef
              else HBucket x (hash (op_elem x) mod lf_capacity s) [])"
| "lf_step hash d s (HBucket x i js) = Some (s, get_bucket s x i js)"
| "lf_step hash d s (HSentinel x i js pc) =
     Some (case pc of
             LRet (RSentinel a) \<Rightarrow>
               (publish_bucket s i a, bucket_found x js a (lf_list s))
           | LRet (RBool b) \<Rightarrow> (s, HUndef)
           | LUndef \<Rightarrow> (s, HUndef)
           | _ \<Rightarrow> (let (l, pc') = l_step hash d (lf_list s) pc
                  in (s\<lparr>lf_list := l\<rparr>, HSentinel x i js pc')))"
| "lf_step hash d s (HList x pc) =
     Some (case pc of
             LRet (RBool b) \<Rightarrow> list_done s x b
           | LRet (RSentinel a) \<Rightarrow> (s, HUndef)
           | LUndef \<Rightarrow> (s, HUndef)
           | _ \<Rightarrow> (let (l, pc') = l_step hash d (lf_list s) pc
                  in (s\<lparr>lf_list := l\<rparr>, HList x pc')))"
| "lf_step hash d s HResizeCap = Some (s, HResizeSize (lf_capacity s))"
| "lf_step hash d s (HResizeSize capacity) =
     Some (s, if capacity < lf_max_capacity s \<and>
                 capacity * kLoadFactorNumerator div kLoadFactorDenominator < lf_set_size s
              then HResizeCas capacity else HRet True)"
| "lf_step hash d s (HResizeCas capacity) =
     Some (if lf_capacity s = capacity then s\<lparr>lf_capacity := capacity * 2\<rparr> else s, HRet True)"
| "lf_step hash d s (HRet r) = None"
| "lf_step hash d s HUndef = None"

definition lockfree_program :: "('a \<Rightarrow> size_t) \<Rightarrow> 'a \<Rightarrow> ('a, 'a lockfree, 'a hpc) program" where
  "lockfree_program hash d =
     \<lparr>p_idle = HIdle, p_start = HCapacity, p_step = (\<lambda>t. lf_step hash d),
      p_result = (\<lambda>pc. case pc of HRet r \<Rightarrow> Some r | _ \<Rightarrow> None)\<rparr>"

end
