(* ===== verification/ListInv.thy ===== *)
theory ListInv
  imports BucketList
begin

text \<open>
  The shape of the list. \<open>C\<close> is the chain of nodes from the root to the tail, in order; \<open>P\<close> is the
  set of published nodes, those that are or have been in the chain. The invariant \<open>list_inv\<close> says
  that the chain is sorted, that a published node which is not in the chain is marked, and that
  every reference of a published node leads to a published node that comes after it, also when both
  have left the chain.

  The changes a step can make to the heap are the six cases of \<open>evolves\<close>. Each keeps the invariant,
  and the facts a thread holds about the nodes it has seen survive each of them, whichever thread
  makes it: that is all the interference there is.
\<close>

section \<open>Chains and published nodes\<close>

abbreviation ref :: "'a node list \<Rightarrow> addr \<Rightarrow> addr option" where
  "ref h a \<equiv> fst (nxt (h ! a))"

abbreviation marked :: "'a node list \<Rightarrow> addr \<Rightarrow> bool" where
  "marked h a \<equiv> snd (nxt (h ! a))"

definition is_elem :: "'a node \<Rightarrow> bool" where
  "is_elem n \<longleftrightarrow> bit (key n) 0 \<and> key n \<noteq> kTailKey"

text \<open>The order of the chain: by key, with different elements under the same hash in any order.\<close>

definition precedes :: "'a node \<Rightarrow> 'a node \<Rightarrow> bool" where
  "precedes m n \<longleftrightarrow> key m < key n \<or> key m = key n \<and> is_elem m \<and> elem m \<noteq> elem n"

definition chain :: "addr \<Rightarrow> 'a node list \<Rightarrow> addr list \<Rightarrow> bool" where
  "chain root h C \<longleftrightarrow>
     C \<noteq> [] \<and> hd C = root \<and> successively (\<lambda>a b. ref h a = Some b) C \<and>
     nxt (h ! last C) = (None, False)"

definition published :: "('a \<Rightarrow> size_t) \<Rightarrow> 'a node list \<Rightarrow> addr list \<Rightarrow> addr set \<Rightarrow> addr \<Rightarrow> bool" where
  "published hash h C P a \<longleftrightarrow>
     a < length h \<and>
     (marked h a \<or> a \<in> set C) \<and>
     (marked h a \<longrightarrow> is_elem (h ! a)) \<and>
     (case ref h a of None \<Rightarrow> key (h ! a) = kTailKey
      | Some b \<Rightarrow> b \<in> P \<and> precedes (h ! a) (h ! b)) \<and>
     (is_elem (h ! a) \<longrightarrow> key (h ! a) = MakeOrdinaryKey hash (elem (h ! a)))"

definition list_inv ::
    "('a \<Rightarrow> size_t) \<Rightarrow> addr \<Rightarrow> 'a node list \<Rightarrow> addr list \<Rightarrow> addr set \<Rightarrow> bool" where
  "list_inv hash root h C P \<longleftrightarrow>
     chain root h C \<and> sorted_wrt (\<lambda>a b. precedes (h ! a) (h ! b)) C \<and> set C \<subseteq> P \<and>
     (\<forall>a \<in> P. published hash h C P a)"

text \<open>The set the list represents: the elements of the unmarked nodes of the chain.\<close>

definition elements :: "'a node list \<Rightarrow> addr list \<Rightarrow> 'a set" where
  "elements h C = (\<lambda>a. elem (h ! a)) ` {a \<in> set C. is_elem (h ! a) \<and> \<not> marked h a}"

text \<open>What a search can look for: an element under its key, or a sentinel key.\<close>

definition target :: "('a \<Rightarrow> size_t) \<Rightarrow> size_t \<Rightarrow> 'a option \<Rightarrow> bool" where
  "target hash k e \<longleftrightarrow>
     (case e of None \<Rightarrow> \<not> bit k 0 | Some x \<Rightarrow> k = MakeOrdinaryKey hash x)"

lemma target_less_tail:
  assumes "target hash k e"
  shows "k < kTailKey"
proof (cases e)
  case None
  with assms have "k \<noteq> kTailKey" by (auto simp: target_def)
  then show ?thesis by (simp add: kTailKey_def less_le)
next
  case (Some x)
  with assms show ?thesis by (simp add: target_def ordinary_less_tail)
qed

lemma lop_target: "target hash (lop_key hash x) (lop_elem x)"
  by (cases x) (simp_all add: target_def)

lemma ordinary_neq_tail [simp]: "MakeOrdinaryKey hash e \<noteq> kTailKey"
  using ordinary_less_tail [of hash e] by simp

lemma ordinary_is_elem: "key n = MakeOrdinaryKey hash e \<Longrightarrow> is_elem n"
  by (simp add: is_elem_def)

lemma Matches_elem:
  assumes "Matches n (MakeOrdinaryKey hash e) (Some e)"
  shows "is_elem n" "elem n = e"
  using assms ordinary_is_elem [of n hash e] by (auto simp: Matches_def)

lemma precedes_irrefl: "\<not> precedes n n"
  by (simp add: precedes_def)

lemma precedes_le: "precedes m n \<Longrightarrow> key m \<le> key n"
  by (auto simp: precedes_def)

lemma target_not_precedes:
  "target hash k e \<Longrightarrow> Matches m k e \<Longrightarrow> Matches n k e \<Longrightarrow> \<not> precedes m n"
  by (auto simp: target_def Matches_def precedes_def is_elem_def split: option.splits)

lemma not_AtOrPast: "\<not> AtOrPast n k e \<longleftrightarrow> key n \<le> k \<and> \<not> Matches n k e"
  by (auto simp: AtOrPast_def)

section \<open>Consequences of the invariant\<close>

lemma sorted_wrt_nthD:
  "sorted_wrt R C \<Longrightarrow> C = us @ a # vs @ b # ws \<Longrightarrow> R a b"
  by (simp add: sorted_wrt_append)

lemma list_inv_chain: "list_inv hash root h C P \<Longrightarrow> chain root h C"
  by (simp add: list_inv_def)

lemma list_inv_published: "list_inv hash root h C P \<Longrightarrow> a \<in> P \<Longrightarrow> published hash h C P a"
  by (simp add: list_inv_def)

lemma list_inv_subset: "list_inv hash root h C P \<Longrightarrow> a \<in> set C \<Longrightarrow> a \<in> P"
  by (auto simp: list_inv_def)

lemma list_inv_less: "list_inv hash root h C P \<Longrightarrow> a \<in> P \<Longrightarrow> a < length h"
  by (auto simp: list_inv_def published_def)

lemma unmarked_in_chain: "list_inv hash root h C P \<Longrightarrow> a \<in> P \<Longrightarrow> \<not> marked h a \<Longrightarrow> a \<in> set C"
  by (auto simp: list_inv_def published_def)

lemma sentinel_in_chain:
  "list_inv hash root h C P \<Longrightarrow> a \<in> P \<Longrightarrow> \<not> bit (key (h ! a)) 0 \<Longrightarrow> a \<in> set C \<and> \<not> marked h a"
  by (auto simp: list_inv_def published_def is_elem_def)

lemma ref_precedes:
  "list_inv hash root h C P \<Longrightarrow> a \<in> P \<Longrightarrow> ref h a = Some b \<Longrightarrow> b \<in> P \<and> precedes (h ! a) (h ! b)"
  by (auto simp: list_inv_def published_def split: option.splits)

lemma ref_published:
  "list_inv hash root h C P \<Longrightarrow> a \<in> P \<Longrightarrow> ref h a = Some b \<Longrightarrow> b \<in> P \<and> key (h ! a) \<le> key (h ! b)"
  using ref_precedes precedes_le by blast

text \<open>A reference that is null belongs to the tail, which every search stops at.\<close>

lemma ref_not_null:
  assumes "list_inv hash root h C P" "a \<in> P" "target hash k e" "\<not> AtOrPast (h ! a) k e"
  obtains b where "ref h a = Some b" "b \<in> P" "key (h ! a) \<le> key (h ! b)"
proof (cases "ref h a")
  case None
  with assms(1,2) have "key (h ! a) = kTailKey"
    by (auto simp: list_inv_def published_def)
  moreover have "key (h ! a) \<le> k" using assms(4) by (simp add: not_AtOrPast)
  ultimately have False using target_less_tail [OF assms(3)] by simp
  then show thesis ..
next
  case (Some b)
  with ref_published [OF assms(1,2)] that show thesis by blast
qed

lemma chain_split_unique:
  assumes "distinct C" "C = us @ a # vs" "C = us' @ a # vs'"
  shows "us = us' \<and> vs = vs'"
proof -
  have "a \<notin> set us" "a \<notin> set vs" using assms(1,2) by simp_all
  with assms(2,3) show ?thesis by (metis append_Cons_eq_iff)
qed

lemma list_inv_distinct: "list_inv hash root h C P \<Longrightarrow> distinct C"
proof -
  assume "list_inv hash root h C P"
  then have "sorted_wrt (\<lambda>a b. precedes (h ! a) (h ! b)) C" by (simp add: list_inv_def)
  then show ?thesis by (induction C) (auto simp: precedes_irrefl)
qed

lemma two_in_list:
  assumes "a \<in> set C" "b \<in> set C" "a \<noteq> b"
  shows "\<exists>us vs ws. C = us @ a # vs @ b # ws \<or> C = us @ b # vs @ a # ws"
proof -
  from assms(1) obtain us vs where C: "C = us @ a # vs" by (auto simp: in_set_conv_decomp)
  with assms(2,3) have "b \<in> set us \<or> b \<in> set vs" by auto
  then show ?thesis
  proof
    assume "b \<in> set us"
    then obtain u v where "us = u @ b # v" by (auto simp: in_set_conv_decomp)
    with C have "C = u @ b # v @ a # vs" by simp
    then show ?thesis by blast
  next
    assume "b \<in> set vs"
    then obtain u v where "vs = u @ b # v" by (auto simp: in_set_conv_decomp)
    with C have "C = us @ a # u @ b # v" by simp
    then show ?thesis by blast
  qed
qed

lemma match_unique:
  assumes inv: "list_inv hash root h C P" and t: "target hash k e"
    and a: "a \<in> set C" "Matches (h ! a) k e" and b: "b \<in> set C" "Matches (h ! b) k e"
  shows "a = b"
proof (rule ccontr)
  assume "a \<noteq> b"
  with a(1) b(1) obtain us vs ws where
    "C = us @ a # vs @ b # ws \<or> C = us @ b # vs @ a # ws"
    using two_in_list by metis
  moreover have "sorted_wrt (\<lambda>a b. precedes (h ! a) (h ! b)) C"
    using inv by (simp add: list_inv_def)
  ultimately have "precedes (h ! a) (h ! b) \<or> precedes (h ! b) (h ! a)"
    using sorted_wrt_nthD by metis
  with target_not_precedes [OF t a(2) b(2)] target_not_precedes [OF t b(2) a(2)] show False by blast
qed

lemma elements_iff:
  assumes inv: "list_inv hash root h C P"
  shows "e \<in> elements h C \<longleftrightarrow>
    (\<exists>a \<in> set C. \<not> marked h a \<and> Matches (h ! a) (MakeOrdinaryKey hash e) (Some e))"
proof
  assume "e \<in> elements h C"
  then obtain a where a: "a \<in> set C" "is_elem (h ! a)" "\<not> marked h a" "e = elem (h ! a)"
    by (auto simp: elements_def)
  with list_inv_published [OF inv list_inv_subset [OF inv a(1)]]
  show "\<exists>a \<in> set C. \<not> marked h a \<and> Matches (h ! a) (MakeOrdinaryKey hash e) (Some e)"
    by (auto simp: published_def Matches_def)
next
  assume "\<exists>a \<in> set C. \<not> marked h a \<and> Matches (h ! a) (MakeOrdinaryKey hash e) (Some e)"
  then obtain a where "a \<in> set C" "\<not> marked h a" "is_elem (h ! a)" "elem (h ! a) = e"
    by (meson Matches_elem)
  then show "e \<in> elements h C" by (auto simp: elements_def)
qed


section \<open>How the heap evolves\<close>

text \<open>
  The six kinds of change: none, an allocation, a write to an unpublished node, the linking of a
  prepared node behind \<open>p\<close>, the marking of a node of the chain, the unlinking of a marked node. The
  set argument names the unpublished nodes the change touches.
\<close>

inductive evolves ::
    "('a \<Rightarrow> size_t) \<Rightarrow> 'a node list \<Rightarrow> addr list \<Rightarrow> addr set \<Rightarrow> addr set \<Rightarrow>
     'a node list \<Rightarrow> addr list \<Rightarrow> addr set \<Rightarrow> bool"
  for hash where
  ev_same: "evolves hash h C P {} h C P"
| ev_alloc: "evolves hash h C P {} (h @ [n]) C P"
| ev_private: "a \<notin> P \<Longrightarrow> a < length h \<Longrightarrow> evolves hash h C P {a} (set_next h a r) C P"
| ev_link: "C = us @ p # c # vs \<Longrightarrow> nxt (h ! p) = (Some c, False) \<Longrightarrow>
     n \<notin> P \<Longrightarrow> n < length h \<Longrightarrow> nxt (h ! n) = (Some c, False) \<Longrightarrow>
     (\<And>x. x \<in> set (us @ [p]) \<Longrightarrow> precedes (h ! x) (h ! n)) \<Longrightarrow>
     key (h ! n) < key (h ! c) \<Longrightarrow>
     (is_elem (h ! n) \<Longrightarrow> key (h ! n) = MakeOrdinaryKey hash (elem (h ! n))) \<Longrightarrow>
     evolves hash h C P {n} (set_next h p (Some n, False)) (us @ p # n # c # vs) (insert n P)"
| ev_mark: "a \<in> set C \<Longrightarrow> nxt (h ! a) = (r, False) \<Longrightarrow> is_elem (h ! a) \<Longrightarrow>
     evolves hash h C P {} (set_next h a (r, True)) C P"
| ev_unlink: "C = us @ p # c # d # vs \<Longrightarrow> nxt (h ! p) = (Some c, False) \<Longrightarrow>
     nxt (h ! c) = (Some d, True) \<Longrightarrow>
     evolves hash h C P {} (set_next h p (Some d, False)) (us @ p # d # vs) P"

lemma length_set_next [simp]: "length (set_next h a r) = length h"
  by (simp add: set_next_def)

lemma set_next_other [simp]: "a \<noteq> b \<Longrightarrow> set_next h a r ! b = h ! b"
  by (simp add: set_next_def)

lemma set_next_same: "a < length h \<Longrightarrow> nxt (set_next h a r ! a) = r"
  by (simp add: set_next_def)

lemma set_next_const [simp]:
  "key (set_next h a r ! b) = key (h ! b)" "elem (set_next h a r ! b) = elem (h ! b)"
  by (cases "a < length h"; simp add: set_next_def nth_list_update not_less list_update_beyond)+

lemma set_next_derived [simp]:
  "is_elem (set_next h a r ! b) = is_elem (h ! b)"
  "precedes (set_next h a r ! b) n = precedes (h ! b) n" "precedes n (set_next h a r ! b) = precedes n (h ! b)"
  "Matches (set_next h a r ! b) k e = Matches (h ! b) k e"
  "AtOrPast (set_next h a r ! b) k e = AtOrPast (h ! b) k e"
  unfolding is_elem_def precedes_def AtOrPast_def Matches_def set_next_const by (rule refl)+

lemma nxt_set_next: "a < length h \<Longrightarrow> nxt (set_next h a r ! b) = (if b = a then r else nxt (h ! b))"
  by (simp add: set_next_same)

lemma precedes_trans_key:
  assumes "key m < key c" "c = x \<or> precedes c x"
  shows "precedes m x"
  using assms by (auto simp: precedes_def)

text \<open>A change of one reference of the chain.\<close>

lemma successively_change:
  assumes "successively (\<lambda>a b. ref h a = Some b) xs" "distinct xs"
    and "p \<notin> set (butlast xs)" "p < length h"
  shows "successively (\<lambda>a b. ref (set_next h p r) a = Some b) xs"
  using assms
proof (induction xs rule: induct_list012)
  case (3 x y zs)
  then have "x \<noteq> p" by auto
  with 3 show ?case by (auto split: if_splits)
qed auto

lemma chain_link:
  assumes C: "chain root h C" "C = us @ p # c # vs" and d: "distinct C"
    and p: "p < length h" and n: "n < length h" "n \<notin> set C" "nxt (h ! n) = (Some c, False)"
  shows "chain root (set_next h p (Some n, False)) (us @ p # n # c # vs)"
proof -
  let ?h = "set_next h p (Some n, False)"
  have "successively (\<lambda>a b. ref h a = Some b) (us @ p # c # vs)"
    and last: "nxt (h ! last (c # vs)) = (None, False)" and hd: "hd (us @ [p]) = root"
    using C by (simp_all add: chain_def hd_append split: if_splits)
  then have su: "successively (\<lambda>a b. ref h a = Some b) (us @ [p])"
    "successively (\<lambda>a b. ref h a = Some b) (c # vs)"
    by (simp_all add: successively_append_iff)
  have "successively (\<lambda>a b. ref ?h a = Some b) (us @ [p])"
    by (rule successively_change [OF su(1)]) (use C(2) d p in auto)
  moreover have "successively (\<lambda>a b. ref ?h a = Some b) (c # vs)"
    by (rule successively_change [OF su(2)]) (use C(2) d p in \<open>auto dest: in_set_butlastD\<close>)
  moreover have "ref ?h p = Some n" "ref ?h n = Some c"
    using p n C(2) by (auto simp: nxt_set_next)
  ultimately have "successively (\<lambda>a b. ref ?h a = Some b) ((us @ [p]) @ [n] @ (c # vs))"
    by (simp add: successively_append_iff successively_Cons del: append.simps)
  moreover have "last (c # vs) \<noteq> p" using C(2) d by (auto split: if_splits)
  ultimately show ?thesis
    using last hd p by (simp add: chain_def nxt_set_next hd_append split: if_splits)
qed


lemma chain_unlink:
  assumes C: "chain root h C" "C = us @ p # c # d # vs" and d: "distinct C"
    and p: "p < length h"
  shows "chain root (set_next h p (Some d, False)) (us @ p # d # vs)"
proof -
  let ?h = "set_next h p (Some d, False)"
  have "successively (\<lambda>a b. ref h a = Some b) (us @ p # c # d # vs)"
    and last: "nxt (h ! last (d # vs)) = (None, False)" and hd: "hd (us @ [p]) = root"
    using C by (simp_all add: chain_def hd_append split: if_splits)
  then have su: "successively (\<lambda>a b. ref h a = Some b) (us @ [p])"
    "successively (\<lambda>a b. ref h a = Some b) (d # vs)"
    by (simp_all add: successively_append_iff)
  have "successively (\<lambda>a b. ref ?h a = Some b) (us @ [p])"
    by (rule successively_change [OF su(1)]) (use C(2) d p in auto)
  moreover have "successively (\<lambda>a b. ref ?h a = Some b) (d # vs)"
    by (rule successively_change [OF su(2)]) (use C(2) d p in \<open>auto dest: in_set_butlastD\<close>)
  moreover have "ref ?h p = Some d" using p by (simp add: nxt_set_next)
  ultimately have "successively (\<lambda>a b. ref ?h a = Some b) ((us @ [p]) @ (d # vs))"
    by (simp add: successively_append_iff del: append.simps)
  moreover have "last (d # vs) \<noteq> p" using C(2) d by (auto split: if_splits)
  ultimately show ?thesis
    using last hd p by (simp add: chain_def nxt_set_next hd_append split: if_splits)
qed

lemma chain_cong:
  assumes "chain root h C" "\<And>a. a \<in> set C \<Longrightarrow> ref h' a = ref h a"
    and "\<not> marked h' (last C)"
  shows "chain root h' C"
proof -
  have "successively (\<lambda>a b. ref h' a = Some b) C \<longleftrightarrow> successively (\<lambda>a b. ref h a = Some b) C"
    by (rule successively_cong) (simp_all add: assms(2))
  moreover have "last C \<in> set C" using assms(1) by (simp add: chain_def)
  ultimately show ?thesis using assms by (auto simp: chain_def prod_eq_iff)
qed

lemma chain_last:
  assumes "list_inv hash root h C P"
  shows "last C \<in> P" "\<not> marked h (last C)" "ref h (last C) = None" "\<not> is_elem (h ! last C)"
proof -
  have C: "C \<noteq> []" "nxt (h ! last C) = (None, False)"
    using assms by (simp_all add: list_inv_def chain_def)
  then show P: "last C \<in> P" using assms by (auto simp: list_inv_def)
  show "\<not> marked h (last C)" "ref h (last C) = None" using C by simp_all
  then have "key (h ! last C) = kTailKey"
    using list_inv_published [OF assms P] by (simp add: published_def)
  then show "\<not> is_elem (h ! last C)" by (simp add: is_elem_def)
qed

text \<open>Each kind of change keeps the invariant.\<close>

lemma inv_alloc:
  assumes "list_inv hash root h C P"
  shows "list_inv hash root (h @ [n]) C P"
proof -
  have same: "(h @ [n]) ! a = h ! a" if "a \<in> P" for a
    using list_inv_less [OF assms that] by (simp add: nth_append)
  have C: "set C \<subseteq> P" using assms by (simp add: list_inv_def)
  have "chain root (h @ [n]) C"
    by (rule chain_cong [OF list_inv_chain [OF assms]])
      (use same C chain_last [OF assms] in auto)
  moreover have "sorted_wrt (\<lambda>a b. precedes ((h @ [n]) ! a) ((h @ [n]) ! b)) C"
  proof (rule sorted_wrt_mono_rel)
    show "sorted_wrt (\<lambda>a b. precedes (h ! a) (h ! b)) C" using assms by (simp add: list_inv_def)
  qed (simp add: same subsetD [OF C])
  moreover have "published hash (h @ [n]) C P a" if "a \<in> P" for a
    using list_inv_published [OF assms that] same that
    by (auto simp: published_def split: option.splits)
  ultimately show ?thesis using C by (simp add: list_inv_def)
qed

lemma inv_private:
  assumes "list_inv hash root h C P" "a \<notin> P" "a < length h"
  shows "list_inv hash root (set_next h a r) C P"
proof -
  have same: "set_next h a r ! b = h ! b" if "b \<in> P" for b
    using assms that by (metis set_next_other)
  have C: "set C \<subseteq> P" using assms by (simp add: list_inv_def)
  have "chain root (set_next h a r) C"
    by (rule chain_cong [OF list_inv_chain [OF assms(1)]])
      (use same C chain_last [OF assms(1)] in auto)
  moreover have "published hash (set_next h a r) C P b" if "b \<in> P" for b
    using list_inv_published [OF assms(1) that] same that
    by (auto simp: published_def split: option.splits)
  ultimately show ?thesis using assms C by (simp add: list_inv_def)
qed

lemma inv_mark:
  assumes inv: "list_inv hash root h C P"
    and a: "a \<in> set C" "nxt (h ! a) = (r, False)" "is_elem (h ! a)"
  shows "list_inv hash root (set_next h a (r, True)) C P"
proof -
  let ?h = "set_next h a (r, True)"
  have len: "a < length h" using list_inv_less [OF inv list_inv_subset [OF inv a(1)]] .
  have "last C \<noteq> a" using chain_last(4) [OF inv] a(3) by auto
  then have "chain root ?h C"
    by (intro chain_cong [OF list_inv_chain [OF inv]])
      (use chain_last(2) [OF inv] len a(2) in \<open>auto simp: nxt_set_next\<close>)
  moreover have "published hash ?h C P b" if "b \<in> P" for b
    using list_inv_published [OF inv that] a len
    by (auto simp: published_def nxt_set_next split: option.splits)
  ultimately show ?thesis using inv by (simp add: list_inv_def)
qed

lemma inv_link:
  assumes inv: "list_inv hash root h C P" and C: "C = us @ p # c # vs"
    and p: "nxt (h ! p) = (Some c, False)"
    and n: "n \<notin> P" "n < length h" "nxt (h ! n) = (Some c, False)"
    and before: "\<And>x. x \<in> set (us @ [p]) \<Longrightarrow> precedes (h ! x) (h ! n)"
    and after: "key (h ! n) < key (h ! c)"
    and elem: "is_elem (h ! n) \<Longrightarrow> key (h ! n) = MakeOrdinaryKey hash (elem (h ! n))"
  shows "list_inv hash root (set_next h p (Some n, False)) (us @ p # n # c # vs) (insert n P)"
proof -
  let ?h = "set_next h p (Some n, False)" and ?C = "us @ p # n # c # vs"
  have mem: "p \<in> set C" "c \<in> set C" using C by auto
  note P = list_inv_subset [OF inv mem(1)] list_inv_subset [OF inv mem(2)]
  have len: "p < length h" using list_inv_less [OF inv P(1)] .
  have sorted: "sorted_wrt (\<lambda>a b. precedes (h ! a) (h ! b)) C" and sub: "set C \<subseteq> P"
    using inv by (simp_all add: list_inv_def)
  have "chain root ?h ?C"
    by (rule chain_link [OF list_inv_chain [OF inv] C list_inv_distinct [OF inv] len n(2) _ n(3)])
      (use n(1) sub in blast)
  moreover have "precedes (h ! n) (h ! x)" if "x \<in> set (c # vs)" for x
    by (rule precedes_trans_key [OF after]) (use that sorted C in \<open>auto simp: sorted_wrt_append\<close>)
  then have "sorted_wrt (\<lambda>a b. precedes (?h ! a) (?h ! b)) ?C"
    using sorted_wrt_insert_between [of "\<lambda>a b. precedes (h ! a) (h ! b)" us p c vs n] sorted before
    by (simp add: C)
  moreover have "set ?C \<subseteq> insert n P" using sub C by auto
  moreover have "published hash ?h ?C (insert n P) b" if "b \<in> P" for b
    using list_inv_published [OF inv that] before [of p] P C p len
    by (auto simp: published_def nxt_set_next split: option.splits)
  moreover have "published hash ?h ?C (insert n P) n"
    using n P after elem len by (auto simp: published_def nxt_set_next precedes_def)
  ultimately show ?thesis by (simp add: list_inv_def)
qed

lemma inv_unlink:
  assumes inv: "list_inv hash root h C P" and C: "C = us @ p # c # d # vs"
    and p: "nxt (h ! p) = (Some c, False)" and c: "nxt (h ! c) = (Some d, True)"
  shows "list_inv hash root (set_next h p (Some d, False)) (us @ p # d # vs) P"
proof -
  let ?h = "set_next h p (Some d, False)" and ?C = "us @ p # d # vs"
  have mem: "p \<in> set C" "c \<in> set C" "d \<in> set C" using C by auto
  note P = mem [THEN list_inv_subset [OF inv]]
  have len: "p < length h" using list_inv_less [OF inv P(1)] .
  have sorted: "sorted_wrt (\<lambda>a b. precedes (h ! a) (h ! b)) C" and sub: "set C \<subseteq> P"
    using inv by (simp_all add: list_inv_def)
  have dist: "distinct C" by (rule list_inv_distinct [OF inv])
  have "chain root ?h ?C"
    by (rule chain_unlink [OF list_inv_chain [OF inv] C dist len])
  moreover have "sorted_wrt (\<lambda>a b. precedes (?h ! a) (?h ! b)) ?C"
    using sorted_wrt_drop_mid [of _ us p c "d # vs"] sorted by (simp add: C)
  moreover have "set ?C \<subseteq> P" using sub C by auto
  moreover have "precedes (h ! p) (h ! d)"
    using sorted by (auto simp: C sorted_wrt_append)
  then have "published hash ?h ?C P b" if "b \<in> P" for b
    using list_inv_published [OF inv that] P C p c len
    by (auto simp: published_def nxt_set_next split: option.splits)
  ultimately show ?thesis by (simp add: list_inv_def)
qed

lemma evolves_inv:
  assumes "evolves hash h C P w h' C' P'" "list_inv hash root h C P"
  shows "list_inv hash root h' C' P'"
  using assms
proof (induction rule: evolves.induct)
  case (ev_link C us p c vs h n P)
  show ?case by (rule inv_link [OF ev_link.prems]) (use ev_link.hyps in auto)
next
  case (ev_unlink C us p c d vs h P)
  show ?case by (rule inv_unlink [OF ev_unlink.prems]) (use ev_unlink.hyps in auto)
qed (auto intro: inv_alloc inv_private inv_mark)


section \<open>What survives every change\<close>

lemma evolves_const:
  assumes "evolves hash h C P w h' C' P'" "a < length h"
  shows "key (h' ! a) = key (h ! a) \<and> elem (h' ! a) = elem (h ! a) \<and> a < length h'"
  using assms by (induction rule: evolves.induct) (simp_all add: nth_append)

lemma evolves_derived:
  assumes "evolves hash h C P w h' C' P'" "a < length h"
  shows "Matches (h' ! a) k e = Matches (h ! a) k e" "AtOrPast (h' ! a) k e = AtOrPast (h ! a) k e"
    "is_elem (h' ! a) = is_elem (h ! a)"
  using evolves_const [OF assms]
  by (simp_all add: Matches_def AtOrPast_def is_elem_def split: option.split)

lemma evolves_published: "evolves hash h C P w h' C' P' \<Longrightarrow> a \<in> P \<Longrightarrow> a \<in> P'"
  by (induction rule: evolves.induct) auto

lemma evolves_length: "evolves hash h C P w h' C' P' \<Longrightarrow> length h \<le> length h'"
  by (induction rule: evolves.induct) auto

text \<open>A published marked node is frozen.\<close>

lemma evolves_frozen:
  assumes "evolves hash h C P w h' C' P'" "list_inv hash root h C P" "a \<in> P" "marked h a"
  shows "nxt (h' ! a) = nxt (h ! a)"
  using assms
proof (induction rule: evolves.induct)
  case (ev_alloc h C P n)
  then show ?case using list_inv_less [OF ev_alloc.prems(1,2)] by (simp add: nth_append)
next
  case (ev_private b P h C r)
  then show ?case by (metis set_next_other)
next
  case (ev_link C us p c vs h n P)
  then have "p \<noteq> a" by auto
  then show ?case by simp
next
  case (ev_mark b C h r P)
  then have "b \<noteq> a" by auto
  then show ?case by simp
next
  case (ev_unlink C us p c d vs h P)
  then have "p \<noteq> a" by auto
  then show ?case by simp
qed simp

text \<open>A published node that has left the chain does not come back.\<close>

lemma evolves_unlinked:
  assumes "evolves hash h C P w h' C' P'" "a \<in> P" "a \<notin> set C"
  shows "a \<notin> set C'"
  using assms by (induction rule: evolves.induct) auto

text \<open>An unpublished node is left alone by the others.\<close>

lemma evolves_private:
  assumes "evolves hash h C P w h' C' P'" "list_inv hash root h C P"
    and "n \<notin> P" "n < length h" "n \<notin> w"
  shows "h' ! n = h ! n \<and> n \<notin> P'"
  using assms
proof (induction rule: evolves.induct)
  case (ev_link C us p c vs h m P)
  have "p \<in> P" using ev_link.hyps(1) ev_link.prems(1) by (auto simp: list_inv_def)
  with ev_link.prems have "p \<noteq> n" by auto
  with ev_link.prems show ?case by auto
next
  case (ev_mark b C h r P)
  have "b \<in> P" using ev_mark.hyps(1) ev_mark.prems(1) by (auto simp: list_inv_def)
  with ev_mark.prems have "b \<noteq> n" by auto
  with ev_mark.prems show ?case by simp
next
  case (ev_unlink C us p c d vs h P)
  have "p \<in> P" using ev_unlink.hyps(1) ev_unlink.prems(1) by (auto simp: list_inv_def)
  with ev_unlink.prems have "p \<noteq> n" by auto
  with ev_unlink.prems show ?case by simp
qed (auto simp: nth_append)

subsection \<open>No match up to a node\<close>

text \<open>
  Nothing at or before \<open>p\<close> matches the search, as long as \<open>p\<close> is in the chain: this is what lets a
  search that has found no match insert behind \<open>p\<close>. Others can insert a match only behind \<open>p\<close>.
\<close>

definition free_upto :: "'a node list \<Rightarrow> addr list \<Rightarrow> size_t \<Rightarrow> 'a option \<Rightarrow> addr \<Rightarrow> bool" where
  "free_upto h C k e p \<longleftrightarrow>
     (\<forall>us vs. C = us @ p # vs \<longrightarrow> (\<forall>x \<in> set (us @ [p]). \<not> Matches (h ! x) k e))"

lemma free_uptoD: "free_upto h C k e p \<Longrightarrow> C = us @ p # vs \<Longrightarrow> x \<in> set (us @ [p]) \<Longrightarrow>
  \<not> Matches (h ! x) k e"
  by (auto simp: free_upto_def)

lemma free_upto_cong:
  assumes "free_upto h C k e p" "\<And>x. x \<in> set C \<Longrightarrow> Matches (h' ! x) k e = Matches (h ! x) k e"
  shows "free_upto h' C k e p"
  using assms by (auto simp: free_upto_def)

lemma split_around:
  assumes "us @ p # ws = xs @ q # ys" "p \<noteq> q"
  shows "(\<exists>zs. us = xs @ q # zs \<and> ys = zs @ p # ws) \<or> (\<exists>zs. xs = us @ p # zs \<and> ws = zs @ q # ys)"
  using assms by (auto simp: append_eq_append_conv2 append_eq_Cons_conv Cons_eq_append_conv)

lemma free_upto_link:
  assumes free: "free_upto h (us @ p # c # vs) k e q" and q: "\<not> AtOrPast (h ! q) k e"
    and n: "n \<noteq> q" "\<And>x. x \<in> set (c # vs) \<Longrightarrow> key (h ! n) < key (h ! x)"
  shows "free_upto h (us @ p # n # c # vs) k e q"
  unfolding free_upto_def
proof (intro allI impI)
  fix xs ys assume eq: "us @ p # n # c # vs = xs @ q # ys"
  then have "(us @ [p]) @ n # (c # vs) = xs @ q # ys" by simp
  from split_around [OF this n(1)] show "\<forall>x \<in> set (xs @ [q]). \<not> Matches (h ! x) k e"
  proof (elim disjE exE conjE)
    fix zs assume "us @ [p] = xs @ q # zs" "ys = zs @ n # c # vs"
    then have "us @ p # c # vs = xs @ q # (zs @ c # vs)" by (metis append.assoc append_Cons append_Nil)
    with free_uptoD [OF free this] show ?thesis by blast
  next
    fix zs assume zs: "xs = (us @ [p]) @ n # zs" "c # vs = zs @ q # ys"
    then have "us @ p # c # vs = (us @ p # zs) @ q # ys" by simp
    then have "\<forall>x \<in> set (us @ p # zs @ [q]). \<not> Matches (h ! x) k e"
      using free_uptoD [OF free, of "us @ p # zs" ys] by auto
    moreover have "key (h ! n) < key (h ! q)" using zs(2) n(2) [of q] by simp
    then have "\<not> Matches (h ! n) k e" using q by (auto simp: not_AtOrPast Matches_def)
    ultimately show ?thesis by (auto simp: zs(1))
  qed
qed

lemma free_upto_unlink:
  assumes free: "free_upto h (us @ p # c # vs) k e q" and c: "c \<noteq> q"
  shows "free_upto h (us @ p # vs) k e q"
  unfolding free_upto_def
proof (intro allI impI)
  fix xs ys assume "us @ p # vs = xs @ q # ys"
  then have eq: "(us @ [p]) @ vs = xs @ q # ys" by simp
  then obtain zs where "us @ [p] = xs @ q # zs \<and> ys = zs @ vs \<or> xs = (us @ [p]) @ zs \<and> vs = zs @ q # ys"
    by (auto simp: append_eq_append_conv2 append_eq_Cons_conv Cons_eq_append_conv)
  then show "\<forall>x \<in> set (xs @ [q]). \<not> Matches (h ! x) k e"
  proof
    assume "us @ [p] = xs @ q # zs \<and> ys = zs @ vs"
    then have "us @ p # c # vs = xs @ q # (zs @ c # vs)" by (metis append.assoc append_Cons append_Nil)
    with free_uptoD [OF free this] show ?thesis by blast
  next
    assume "xs = (us @ [p]) @ zs \<and> vs = zs @ q # ys"
    then show ?thesis using free_uptoD [OF free, of "us @ p # c # zs" ys] by auto
  qed
qed


lemma evolves_free_upto:
  assumes "evolves hash h C P w h' C' P'" "list_inv hash root h C P"
    and "q \<in> P" "\<not> AtOrPast (h ! q) k e" "free_upto h C k e q"
  shows "free_upto h' C' k e q"
  using assms
proof (induction rule: evolves.induct)
  case (ev_alloc h C P n)
  then show ?case
    by (intro free_upto_cong [OF ev_alloc.prems(4)])
      (auto simp: nth_append dest: list_inv_subset list_inv_less)
next
  case (ev_link C us p c vs h n P)
  have sorted: "sorted_wrt (\<lambda>a b. precedes (h ! a) (h ! b)) C"
    using ev_link.prems(1) by (simp add: list_inv_def)
  have "key (h ! n) < key (h ! x)" if "x \<in> set (c # vs)" for x
    using that sorted ev_link.hyps(1,7)
    by (auto simp: sorted_wrt_append dest!: precedes_le intro: less_le_trans)
  then have "free_upto h (us @ p # n # c # vs) k e q"
    using ev_link by (intro free_upto_link) auto
  then show ?case by (rule free_upto_cong) simp
next
  case (ev_unlink C us p c d vs h P)
  show ?case
  proof (cases "c = q")
    case True
    have "distinct (us @ p # c # d # vs)"
      using list_inv_distinct [OF ev_unlink.prems(1)] ev_unlink.hyps(1) by simp
    with True have "q \<notin> set (us @ p # d # vs)" by simp
    then have "us @ p # d # vs \<noteq> xs @ q # ys" for xs ys by (metis in_set_conv_decomp)
    then show ?thesis by (simp add: free_upto_def)
  next
    case False
    have "free_upto h (us @ p # c # d # vs) k e q"
      using ev_unlink.prems(4) ev_unlink.hyps(1) by simp
    then have "free_upto h (us @ p # d # vs) k e q"
      by (rule free_upto_unlink) (rule False)
    then show ?thesis by (rule free_upto_cong) simp
  qed
qed (auto intro: free_upto_cong)

text \<open>Establishing it: at a head with a smaller key, and one reference further on.\<close>

lemma free_upto_head:
  assumes inv: "list_inv hash root h C P" and p: "key (h ! p) < k"
  shows "free_upto h C k e p"
  unfolding free_upto_def
proof (intro allI impI ballI)
  fix us vs x assume C: "C = us @ p # vs" and x: "x \<in> set (us @ [p])"
  have "sorted_wrt (\<lambda>a b. precedes (h ! a) (h ! b)) C" using inv by (simp add: list_inv_def)
  then have "key (h ! x) \<le> key (h ! p)"
    using x by (auto simp: C sorted_wrt_append dest: precedes_le)
  with p show "\<not> Matches (h ! x) k e" by (auto simp: Matches_def)
qed

lemma chain_next:
  assumes "chain root h C" "C = us @ p # vs" "ref h p = Some c"
  obtains ws where "vs = c # ws"
  using assms by (cases vs) (auto simp: chain_def successively_append_iff)

lemma free_upto_next:
  assumes inv: "list_inv hash root h C P" and p: "p \<in> set C" "ref h p = Some c"
    and free: "free_upto h C k e p" and c: "\<not> Matches (h ! c) k e"
  shows "free_upto h C k e c"
  unfolding free_upto_def
proof (intro allI impI)
  fix us vs assume eq: "C = us @ c # vs"
  obtain xs ys where C: "C = xs @ p # ys" using p(1) by (auto simp: in_set_conv_decomp)
  obtain ws where "ys = c # ws"
    using chain_next [OF list_inv_chain [OF inv] C p(2)] by blast
  with C have "C = (xs @ [p]) @ c # ws" by simp
  with eq have "us = xs @ [p]" using chain_split_unique [OF list_inv_distinct [OF inv]] by blast
  moreover have "\<forall>x \<in> set (xs @ [p]). \<not> Matches (h ! x) k e" using free_uptoD [OF free C] by blast
  ultimately show "\<forall>x \<in> set (us @ [c]). \<not> Matches (h ! x) k e" using c by auto
qed

subsection \<open>Reaching a match\<close>

text \<open>
  \<open>reaches h k e a n\<close>: following references from \<open>a\<close>, through nodes that may have left the chain, the
  first match is \<open>n\<close>. A search for an element that stays in the set keeps reaching it; so a search
  that misses it has run while the element was absent at some moment.
\<close>

inductive reaches :: "'a node list \<Rightarrow> size_t \<Rightarrow> 'a option \<Rightarrow> addr \<Rightarrow> addr \<Rightarrow> bool"
  for h k e where
  reaches_here: "reaches h k e n n"
| reaches_next: "\<not> Matches (h ! a) k e \<Longrightarrow> ref h a = Some b \<Longrightarrow> reaches h k e b n \<Longrightarrow>
     reaches h k e a n"

inductive_cases reaches_elim: "reaches h k e a n"

definition hind :: "'a node list \<Rightarrow> addr list \<Rightarrow> size_t \<Rightarrow> 'a option \<Rightarrow> addr \<Rightarrow> bool" where
  "hind h C k e a \<longleftrightarrow>
     (\<exists>n \<in> set C. \<not> marked h n \<and> Matches (h ! n) k e \<and> reaches h k e a n)"

lemma reaches_key_le:
  assumes "reaches h k e a n" "list_inv hash root h C P" "a \<in> P"
  shows "key (h ! a) \<le> key (h ! n)"
  using assms
proof (induction rule: reaches.induct)
  case (reaches_next a b n)
  with ref_published [OF reaches_next.prems, of b] show ?case by auto
qed simp

text \<open>What reaching a match says at the node a search is at.\<close>

lemma hind_step:
  assumes "hind h C k e a" "\<not> Matches (h ! a) k e \<or> marked h a" "ref h a = Some b"
  shows "hind h C k e b"
proof -
  from assms(1) obtain n where n: "n \<in> set C" "\<not> marked h n" "Matches (h ! n) k e" "reaches h k e a n"
    by (auto simp: hind_def)
  from n(4) have "reaches h k e b n"
    by (rule reaches_elim) (use assms(2,3) n in auto)
  with n show ?thesis by (auto simp: hind_def)
qed

lemma hind_not_past:
  assumes "hind h C k e a" "list_inv hash root h C P" "a \<in> P" "AtOrPast (h ! a) k e"
  shows "Matches (h ! a) k e \<and> \<not> marked h a"
proof -
  from assms(1) obtain n where n: "n \<in> set C" "\<not> marked h n" "Matches (h ! n) k e" "reaches h k e a n"
    by (auto simp: hind_def)
  have "key (h ! a) \<le> k"
    using reaches_key_le [OF n(4) assms(2,3)] n(3) by (simp add: Matches_def)
  with assms(4) have "Matches (h ! a) k e" by (auto simp: AtOrPast_def)
  moreover from n(4) have "a = n" by (rule reaches_elim) (use \<open>Matches (h ! a) k e\<close> in auto)
  ultimately show ?thesis using n(2) by simp
qed

lemma reaches_chain:
  assumes "successively (\<lambda>a b. ref h a = Some b) (a # vs)" "n \<in> set (a # vs)" "Matches (h ! n) k e"
    and "\<And>x. x \<in> set (a # vs) \<Longrightarrow> Matches (h ! x) k e \<Longrightarrow> x = n"
  shows "reaches h k e a n"
  using assms
proof (induction vs arbitrary: a)
  case (Cons b vs)
  show ?case
  proof (cases "a = n")
    case False
    with Cons.prems have "reaches h k e b n" by (intro Cons.IH) auto
    with False Cons.prems show ?thesis by (auto intro: reaches_next)
  qed (auto intro: reaches_here)
qed (auto intro: reaches_here)

lemma hind_head:
  assumes inv: "list_inv hash root h C P" and t: "target hash k e"
    and a: "a \<in> set C" "key (h ! a) < k"
    and n: "n \<in> set C" "\<not> marked h n" "Matches (h ! n) k e"
  shows "hind h C k e a"
proof -
  obtain us vs where C: "C = us @ a # vs" using a(1) by (auto simp: in_set_conv_decomp)
  have "n \<notin> set us"
    using free_uptoD [OF free_upto_head [OF inv a(2)] C, of n] n(3) by auto
  with n(1) C have "n \<in> set (a # vs)" by auto
  moreover have "successively (\<lambda>a b. ref h a = Some b) (a # vs)"
    using list_inv_chain [OF inv] by (simp add: chain_def C successively_append_iff)
  ultimately have "reaches h k e a n"
    using match_unique [OF inv t _ _ n(1,3)] n(3) by (intro reaches_chain) (auto simp: C)
  with n show ?thesis by (auto simp: hind_def)
qed


lemma reaches_cong:
  assumes "reaches h k e a n" "list_inv hash root h C P" "a \<in> P"
    and same: "\<And>x. x \<in> P \<Longrightarrow> ref h' x = ref h x \<and> Matches (h' ! x) k e = Matches (h ! x) k e"
  shows "reaches h' k e a n"
  using assms(1-3)
proof (induction rule: reaches.induct)
  case (reaches_next a b n)
  have "b \<in> P" using ref_published [OF reaches_next.prems] reaches_next.hyps(2) by auto
  with reaches_next same [OF reaches_next.prems(2)] show ?case
    by (metis reaches.reaches_next)
qed (rule reaches_here)

lemma reaches_link:
  assumes "reaches h k e a n" "p < length h" "p \<noteq> m"
    and "ref h p = Some c" "ref h m = Some c" "\<not> Matches (h ! m) k e"
  shows "reaches (set_next h p (Some m, False)) k e a n"
  using assms(1)
proof (induction rule: reaches.induct)
  case (reaches_next a b n)
  let ?h = "set_next h p (Some m, False)"
  show ?case
  proof (cases "a = p")
    case True
    with reaches_next assms have "b = c" by simp
    with reaches_next.IH assms have "reaches ?h k e m n"
      by (auto simp: nxt_set_next intro: reaches.reaches_next [of ?h m k e c n])
    with True reaches_next.hyps assms show ?thesis
      by (auto simp: nxt_set_next intro: reaches.reaches_next [of ?h p k e m n])
  next
    case False
    with reaches_next assms show ?thesis
      by (auto simp: nxt_set_next intro: reaches.reaches_next [of ?h a k e b n])
  qed
qed (rule reaches_here)

lemma reaches_unlink:
  assumes "reaches h k e a n" "p < length h" "p \<noteq> c" "c \<noteq> n"
    and "ref h p = Some c" "ref h c = Some d"
  shows "reaches (set_next h p (Some d, False)) k e a n"
  using assms(1,4)
proof (induction rule: reaches.induct)
  case (reaches_next a b n)
  let ?h = "set_next h p (Some d, False)"
  show ?case
  proof (cases "a = p")
    case True
    with reaches_next assms have "b = c" by simp
    with reaches_next have "reaches ?h k e c n" by simp
    then have "reaches ?h k e d n"
      by (rule reaches_elim) (use assms reaches_next.prems in \<open>auto simp: nxt_set_next\<close>)
    with True reaches_next.hyps assms show ?thesis
      by (auto simp: nxt_set_next intro: reaches.reaches_next [of ?h p k e d n])
  next
    case False
    with reaches_next assms show ?thesis
      by (auto simp: nxt_set_next intro: reaches.reaches_next [of ?h a k e b n])
  qed
qed (rule reaches_here)

lemma evolves_hind:
  assumes ev: "evolves hash h C P w h' C' P'" and inv: "list_inv hash root h C P"
    and t: "target hash k e" and a: "a \<in> P" and hind: "hind h C k e a"
    and still: "m \<in> set C'" "\<not> marked h' m" "Matches (h' ! m) k e"
  shows "hind h' C' k e a"
proof -
  have inv': "list_inv hash root h' C' P'" by (rule evolves_inv [OF ev inv])
  obtain n where n: "n \<in> set C" "\<not> marked h n" "Matches (h ! n) k e" "reaches h k e a n"
    using hind by (auto simp: hind_def)
  have nP: "n \<in> P" and sub: "set C \<subseteq> P" using n(1) inv by (auto simp: list_inv_def)
  have match: "Matches (h' ! n) k e"
    using evolves_derived(1) [OF ev list_inv_less [OF inv nP]] n(3) by simp
  have "n \<in> set C' \<and> \<not> marked h' n \<and> reaches h' k e a n"
    using ev
  proof cases
    case ev_same
    with n show ?thesis by simp
  next
    case (ev_alloc x)
    have "reaches h' k e a n"
      by (rule reaches_cong [OF n(4) inv a])
        (use list_inv_less [OF inv] in \<open>auto simp: ev_alloc nth_append\<close>)
    with n ev_alloc list_inv_less [OF inv nP] show ?thesis by (simp add: nth_append)
  next
    case (ev_private b r)
    have same: "h' ! x = h ! x" if "x \<in> P" for x
      using that ev_private by (metis set_next_other)
    have "reaches h' k e a n"
      by (rule reaches_cong [OF n(4) inv a]) (simp add: same)
    with n ev_private(3) same [OF nP] show ?thesis by simp
  next
    case (ev_link us p c vs b)
    have mem: "p \<in> P" "p \<noteq> b" "b \<noteq> n" using ev_link sub nP by auto
    have "n \<in> set C'" "b \<in> set C'" using n(1) ev_link by auto
    with match_unique [OF inv' t _ _ _ match, of b] mem(3)
    have nb: "\<not> Matches (h' ! b) k e" by blast
    have "reaches h' k e a n" unfolding ev_link(2)
      by (rule reaches_link [OF n(4) list_inv_less [OF inv mem(1)] mem(2)])
        (use ev_link nb in auto)
    with n ev_link list_inv_less [OF inv mem(1)] \<open>n \<in> set C'\<close> show ?thesis
      by (auto simp: nxt_set_next)
  next
    case (ev_mark b r)
    have len: "b < length h" using list_inv_less [OF inv] sub ev_mark(5) by blast
    have "m = n" using match_unique [OF inv' t still(1,3) _ match] n(1) ev_mark(3) by simp
    with still(2) ev_mark(2) len have "b \<noteq> n" by (auto simp: set_next_same)
    moreover have "reaches h' k e a n"
      by (rule reaches_cong [OF n(4) inv a]) (use len ev_mark in \<open>auto simp: nxt_set_next\<close>)
    ultimately show ?thesis using n ev_mark by simp
  next
    case (ev_unlink us p c d vs)
    have mem: "p \<in> P" "c \<noteq> n" "p \<noteq> c" using ev_unlink sub n(2) list_inv_distinct [OF inv] by auto
    have "reaches h' k e a n" unfolding ev_unlink(2)
      by (rule reaches_unlink [OF n(4) list_inv_less [OF inv mem(1)] mem(3,2)])
        (use ev_unlink in auto)
    with n ev_unlink mem list_inv_less [OF inv mem(1)] show ?thesis
      by (auto simp: nxt_set_next)
  qed
  with match show ?thesis by (auto simp: hind_def)
qed

section \<open>The set a change leaves\<close>

lemma elements_cong:
  assumes "\<And>a. a \<in> set C \<Longrightarrow> marked h' a = marked h a \<and> is_elem (h' ! a) = is_elem (h ! a) \<and>
      elem (h' ! a) = elem (h ! a)"
  shows "elements h' C = elements h C"
  unfolding elements_def by (rule image_cong) (use assms in auto)

lemma elements_link:
  assumes C: "C = us @ p # c # vs" and p: "nxt (h ! p) = (Some c, False)" "p < length h"
    and n: "nxt (h ! n) = (Some c, False)" "n \<noteq> p"
  shows "elements (set_next h p (Some n, False)) (us @ p # n # c # vs) =
    (if is_elem (h ! n) then insert (elem (h ! n)) (elements h C) else elements h C)"
proof -
  let ?h = "set_next h p (Some n, False)"
  have "marked ?h x = marked h x" for x using p by (simp add: nxt_set_next)
  then have "{a \<in> set (us @ p # n # c # vs). is_elem (?h ! a) \<and> \<not> marked ?h a} =
      {a \<in> set C. is_elem (h ! a) \<and> \<not> marked h a} \<union> (if is_elem (h ! n) then {n} else {})"
    using n by (auto simp: C)
  then show ?thesis unfolding elements_def by (simp split: if_split)
qed

lemma elements_mark:
  assumes inv: "list_inv hash root h C P"
    and a: "a \<in> set C" "nxt (h ! a) = (r, False)" "is_elem (h ! a)"
  shows "elements (set_next h a (r, True)) C = elements h C - {elem (h ! a)}"
proof -
  have len: "a < length h" using list_inv_less [OF inv list_inv_subset [OF inv a(1)]] .
  have "b = a" if "b \<in> set C" "is_elem (h ! b)" "elem (h ! b) = elem (h ! a)" for b
  proof (rule match_unique [OF inv])
    let ?e = "elem (h ! a)"
    show "target hash (MakeOrdinaryKey hash ?e) (Some ?e)" by (simp add: target_def)
    show "Matches (h ! b) (MakeOrdinaryKey hash ?e) (Some ?e)" "Matches (h ! a) (MakeOrdinaryKey hash ?e) (Some ?e)"
      using list_inv_published [OF inv list_inv_subset [OF inv that(1)]]
        list_inv_published [OF inv list_inv_subset [OF inv a(1)]] that(2,3) a(3)
      by (simp_all add: published_def Matches_def)
  qed (use that a in simp_all)
  moreover have "{b \<in> set C. is_elem (set_next h a (r, True) ! b) \<and> \<not> marked (set_next h a (r, True)) b} =
      {b \<in> set C. is_elem (h ! b) \<and> \<not> marked h b} - {a}"
    using len by (auto simp: nxt_set_next)
  ultimately show ?thesis using a unfolding elements_def by auto
qed

lemma elements_unlink:
  assumes C: "C = us @ p # c # d # vs" and p: "nxt (h ! p) = (Some c, False)" "p < length h"
    and c: "nxt (h ! c) = (Some d, True)"
  shows "elements (set_next h p (Some d, False)) (us @ p # d # vs) = elements h C"
proof -
  let ?h = "set_next h p (Some d, False)"
  have "marked ?h x = marked h x" for x using p by (simp add: nxt_set_next)
  then have "{a \<in> set (us @ p # d # vs). is_elem (?h ! a) \<and> \<not> marked ?h a} =
      {a \<in> set C. is_elem (h ! a) \<and> \<not> marked h a}"
    using c by (auto simp: C)
  then show ?thesis unfolding elements_def by simp
qed

end
