(* ===== verification/Linearizability.thy ===== *)
theory Linearizability
  imports Concurrency
begin

text \<open>
  What it means for a concurrent set to be correct. The specification is the \<^emph>\<open>atomic object\<close>: a
  set on which each pending operation takes effect in one indivisible step between its call and its
  return. A program is linearizable when each of its histories is a history of the atomic object.

  An operation that leaves the set as it is (a lookup, an unsuccessful update) is allowed to take
  effect at any moment of its interval, and which moment it was may only be known later. The
  \<^emph>\<open>interval object\<close> makes that forward: it records for every pending operation whether its element
  has been absent and whether it has been present at some moment since the call, and lets a reading
  operation return what has been observed. Every history of the interval object is a history of the
  atomic object, so a forward simulation into the interval object (locale \<open>simulation\<close>) proves
  linearizability.
\<close>

section \<open>The atomic object\<close>

datatype 'a a_status = AIdle | APending "'a op" | ADone bool

record 'a atomic =
  a_set :: "'a set"
  a_status :: "tid \<Rightarrow> 'a a_status"

definition a_init :: "'a set \<Rightarrow> 'a atomic" where
  "a_init A = \<lparr>a_set = A, a_status = (\<lambda>_. AIdle)\<rparr>"

inductive atomic_step :: "'a atomic \<Rightarrow> 'a event option \<Rightarrow> 'a atomic \<Rightarrow> bool" where
  a_call: "a_status s t = AIdle \<Longrightarrow>
     atomic_step s (Some (Call t x)) (s\<lparr>a_status := (a_status s)(t := APending x)\<rparr>)"
| a_linearize: "a_status s t = APending x \<Longrightarrow> apply_op x (a_set s) = (r, A) \<Longrightarrow>
     atomic_step s None (s\<lparr>a_set := A, a_status := (a_status s)(t := ADone r)\<rparr>)"
| a_return: "a_status s t = ADone r \<Longrightarrow>
     atomic_step s (Some (Return t r)) (s\<lparr>a_status := (a_status s)(t := AIdle)\<rparr>)"

inductive atomic_run :: "'a atomic \<Rightarrow> 'a event list \<Rightarrow> 'a atomic \<Rightarrow> bool" for s where
  atomic_start: "atomic_run s [] s"
| atomic_more: "atomic_run s h s1 \<Longrightarrow> atomic_step s1 l s2 \<Longrightarrow> atomic_run s (h @ visible l) s2"

text \<open>
  Linearizability of a program from an initial shared state that represents the set \<open>A\<close>.
\<close>

definition linearizable :: "('a, 'sh, 'pc) program \<Rightarrow> 'sh \<Rightarrow> 'a set \<Rightarrow> bool" where
  "linearizable P sh A \<longleftrightarrow>
     (\<forall>h s. sys_run P (sys_init P sh) h s \<longrightarrow> (\<exists>a. atomic_run (a_init A) h a))"

section \<open>The interval object\<close>

datatype 'a i_status = IIdle | IPending "'a op" "bool set" | IDone bool

record 'a interval =
  i_set :: "'a set"
  i_status :: "tid \<Rightarrow> 'a i_status"

definition i_init :: "'a set \<Rightarrow> 'a interval" where
  "i_init A = \<lparr>i_set = A, i_status = (\<lambda>_. IIdle)\<rparr>"

text \<open>What the presence of its element says about an operation that does not change the set.\<close>

fun read_result :: "'a op \<Rightarrow> bool \<Rightarrow> bool option" where
  "read_result (Add e) present = (if present then Some False else None)"
| "read_result (Remove e) present = (if present then None else Some False)"
| "read_result (Contains e) present = Some present"

fun observe :: "'a set \<Rightarrow> 'a i_status \<Rightarrow> 'a i_status" where
  "observe A (IPending x B) = IPending x (insert (op_elem x \<in> A) B)"
| "observe A st = st"

definition updates :: "'a op \<Rightarrow> 'a set \<Rightarrow> bool" where
  "updates x A \<longleftrightarrow> read_result x (op_elem x \<in> A) = None"

inductive interval_step :: "'a interval \<Rightarrow> 'a event option \<Rightarrow> 'a interval \<Rightarrow> bool" where
  i_call: "i_status s t = IIdle \<Longrightarrow>
     interval_step s (Some (Call t x))
       (s\<lparr>i_status := (i_status s)(t := IPending x {op_elem x \<in> i_set s})\<rparr>)"
| i_update: "i_status s t = IPending x B \<Longrightarrow> updates x (i_set s) \<Longrightarrow>
     A = snd (apply_op x (i_set s)) \<Longrightarrow>
     interval_step s None
       (s\<lparr>i_set := A, i_status := (\<lambda>u. observe A (i_status s u))(t := IDone True)\<rparr>)"
| i_read: "i_status s t = IPending x B \<Longrightarrow> b \<in> B \<Longrightarrow> read_result x b = Some r \<Longrightarrow>
     interval_step s None (s\<lparr>i_status := (i_status s)(t := IDone r)\<rparr>)"
| i_return: "i_status s t = IDone r \<Longrightarrow>
     interval_step s (Some (Return t r)) (s\<lparr>i_status := (i_status s)(t := IIdle)\<rparr>)"

inductive interval_run :: "'a interval \<Rightarrow> 'a event list \<Rightarrow> 'a interval \<Rightarrow> bool" for s where
  interval_start: "interval_run s [] s"
| interval_more: "interval_run s h s1 \<Longrightarrow> interval_step s1 l s2 \<Longrightarrow>
     interval_run s (h @ visible l) s2"

lemma read_result_apply: "read_result x (op_elem x \<in> A) = Some r \<Longrightarrow> apply_op x A = (r, A)"
  by (cases x) (auto split: if_splits)

lemma updates_apply: "updates x A \<Longrightarrow> fst (apply_op x A)"
  by (cases x) (auto simp: updates_def split: if_splits)

section \<open>The interval object implements the atomic object\<close>

text \<open>
  A status of the atomic object is a possible view of a status of the interval object when a
  pending operation is either still pending or has already returned something it has observed.
\<close>

fun view :: "'a i_status \<Rightarrow> 'a a_status \<Rightarrow> bool" where
  "view IIdle st \<longleftrightarrow> st = AIdle"
| "view (IPending x B) st \<longleftrightarrow>
     st = APending x \<or> (\<exists>b \<in> B. \<exists>r. read_result x b = Some r \<and> st = ADone r)"
| "view (IDone r) st \<longleftrightarrow> st = ADone r"

lemma view_updD:
  assumes "\<forall>u. view ((f(t := v)) u) (g u)"
  shows "view v (g t)" "u \<noteq> t \<Longrightarrow> view (f u) (g u)"
  using assms [rule_format, of t] assms [rule_format, of u] by simp_all

lemma atomic_silent:
  "atomic_run s h s1 \<Longrightarrow> atomic_step s1 None s2 \<Longrightarrow> atomic_run s h s2"
  using atomic_more [of s h s1 None s2] by simp

text \<open>Pending reading operations of finitely many threads can all be linearized at one moment.\<close>

lemma linearize_readers:
  assumes "finite L"
    and "atomic_run s h \<lparr>a_set = A, a_status = st\<rparr>"
    and "\<And>u. u \<in> L \<Longrightarrow> \<exists>x. st u = APending x \<and> read_result x (op_elem x \<in> A) = Some (f u)"
  shows "atomic_run s h \<lparr>a_set = A, a_status = (\<lambda>u. if u \<in> L then ADone (f u) else st u)\<rparr>"
  using assms
proof (induction L)
  case (insert u L)
  let ?st = "\<lambda>v. if v \<in> L then ADone (f v) else st v"
  from insert obtain x where x: "st u = APending x" "read_result x (op_elem x \<in> A) = Some (f u)"
    by blast
  have run: "atomic_run s h \<lparr>a_set = A, a_status = ?st\<rparr>"
    using insert by blast
  have "atomic_step \<lparr>a_set = A, a_status = ?st\<rparr> None
      \<lparr>a_set = A, a_status = ?st(u := ADone (f u))\<rparr>"
    using a_linearize [of "\<lparr>a_set = A, a_status = ?st\<rparr>" u x "f u" A] x insert.hyps
      read_result_apply [OF x(2)] by simp
  moreover have "?st(u := ADone (f u)) = (\<lambda>v. if v \<in> insert u L then ADone (f v) else st v)"
    by auto
  ultimately show ?case using atomic_silent [OF run] by simp
qed simp

definition busy :: "'a interval \<Rightarrow> tid set" where
  "busy i = {t. i_status i t \<noteq> IIdle}"

lemma observe_IIdle [simp]: "observe A st = IIdle \<longleftrightarrow> st = IIdle"
  by (cases st) auto

lemma interval_step_busy: "interval_step i l i' \<Longrightarrow> \<exists>t. busy i' \<subseteq> insert t (busy i)"
  by (induction rule: interval_step.induct) (auto simp: busy_def split: if_splits)

lemma finite_busy: "interval_run (i_init A) h i \<Longrightarrow> finite (busy i)"
proof (induction rule: interval_run.induct)
  case interval_start
  then show ?case by (simp add: busy_def i_init_def)
next
  case (interval_more h s1 l s2)
  then show ?case by (metis interval_step_busy finite_insert finite_subset)
qed


text \<open>
  An update by \<open>t\<close>: the readers whose view has already returned something not observed before the
  update have it from the set after the update, and are linearized right after \<open>t\<close>.
\<close>

lemma update_views:
  assumes IH: "\<And>st. \<forall>u. view (i_status i u) (st u) \<Longrightarrow>
      atomic_run s h \<lparr>a_set = i_set i, a_status = st\<rparr>"
    and fin: "finite (busy i)"
    and t: "i_status i t = IPending x B" and upd: "updates x (i_set i)"
    and A: "A = snd (apply_op x (i_set i))"
    and v: "\<forall>u. view (((\<lambda>u. observe A (i_status i u))(t := IDone True)) u) (st u)"
  shows "atomic_run s h \<lparr>a_set = A, a_status = st\<rparr>"
proof -
  define late where "late = {u. u \<noteq> t \<and> \<not> view (i_status i u) (st u)}"
  have late: "\<exists>y B r. i_status i u = IPending y B \<and> read_result y (op_elem y \<in> A) = Some r \<and>
      st u = ADone r" if "u \<in> late" for u
  proof -
    from that view_updD(2) [OF v] have "view (observe A (i_status i u)) (st u)"
      "\<not> view (i_status i u) (st u)" by (auto simp: late_def)
    then show ?thesis by (cases "i_status i u") auto
  qed
  have "late \<subseteq> busy i" using late by (force simp: busy_def)
  with fin have "finite late" by (rule rev_finite_subset)
  define opn where "opn u = (case i_status i u of IPending y _ \<Rightarrow> y | _ \<Rightarrow> x)" for u
  define res where "res u = (case st u of ADone r \<Rightarrow> r | _ \<Rightarrow> False)" for u
  define st0 where "st0 = (\<lambda>u. if u \<in> late then APending (opn u) else st u)"
  have "atomic_run s h \<lparr>a_set = i_set i, a_status = st0(t := APending x)\<rparr>"
  proof (rule IH, rule allI)
    fix u
    show "view (i_status i u) ((st0(t := APending x)) u)"
    proof (cases "u = t")
      case False
      then show ?thesis
        using late [of u] by (cases "u \<in> late") (auto simp: st0_def opn_def late_def)
    qed (simp add: t)
  qed
  moreover have "apply_op x (i_set i) = (True, A)"
    using updates_apply [OF upd] A by (simp add: prod_eq_iff)
  ultimately have run: "atomic_run s h \<lparr>a_set = A, a_status = st0(t := ADone True)\<rparr>"
    using a_linearize [of "\<lparr>a_set = i_set i, a_status = st0(t := APending x)\<rparr>" t x True A]
    by (auto intro: atomic_silent)
  have "t \<notin> late" by (simp add: late_def)
  then have "atomic_run s h
      \<lparr>a_set = A, a_status = (\<lambda>u. if u \<in> late then ADone (res u) else (st0(t := ADone True)) u)\<rparr>"
    by (intro linearize_readers [OF \<open>finite late\<close> run])
      (use late in \<open>force simp: st0_def opn_def res_def\<close>)
  moreover have "(\<lambda>u. if u \<in> late then ADone (res u) else (st0(t := ADone True)) u) = st"
  proof
    fix u
    have "st t = ADone True" using v [rule_format, of t] by simp
    then show "(if u \<in> late then ADone (res u) else (st0(t := ADone True)) u) = st u"
      using late [of u] by (auto simp: st0_def res_def)
  qed
  ultimately show ?thesis by simp
qed

lemma call_view:
  assumes IH: "\<And>st. \<forall>u. view (i_status i u) (st u) \<Longrightarrow>
      atomic_run s h \<lparr>a_set = i_set i, a_status = st\<rparr>"
    and t: "i_status i t = IIdle"
    and v: "\<forall>u. view (((i_status i)(t := IPending x {op_elem x \<in> i_set i})) u) (st u)"
  shows "atomic_run s (h @ [Call t x]) \<lparr>a_set = i_set i, a_status = st\<rparr>"
proof -
  have "\<forall>u. view (i_status i u) ((st(t := AIdle)) u)"
    using view_updD(2) [OF v] t by simp
  note run = IH [OF this]
  have "atomic_step \<lparr>a_set = i_set i, a_status = st(t := AIdle)\<rparr> (Some (Call t x))
      \<lparr>a_set = i_set i, a_status = st(t := APending x)\<rparr>"
    using a_call [of "\<lparr>a_set = i_set i, a_status = st(t := AIdle)\<rparr>" t x] by simp
  from atomic_more [OF run this] have called:
    "atomic_run s (h @ [Call t x]) \<lparr>a_set = i_set i, a_status = st(t := APending x)\<rparr>" by simp
  from view_updD(1) [OF v] consider "st t = APending x"
    | r where "st t = ADone r" "read_result x (op_elem x \<in> i_set i) = Some r" by auto
  then show ?thesis
  proof cases
    case 1
    with called show ?thesis by (metis fun_upd_triv)
  next
    case 2
    then have "atomic_step \<lparr>a_set = i_set i, a_status = st(t := APending x)\<rparr> None
        \<lparr>a_set = i_set i, a_status = st\<rparr>"
      using a_linearize [of "\<lparr>a_set = i_set i, a_status = st(t := APending x)\<rparr>" t x r "i_set i"]
        read_result_apply [OF 2(2)] by (simp add: fun_upd_idem)
    with called show ?thesis by (rule atomic_silent)
  qed
qed

lemma interval_views:
  assumes "interval_run (i_init A) h i" "\<forall>u. view (i_status i u) (st u)"
  shows "atomic_run (a_init A) h \<lparr>a_set = i_set i, a_status = st\<rparr>"
  using assms
proof (induction arbitrary: st rule: interval_run.induct)
  case interval_start
  then have "st = (\<lambda>_. AIdle)" by (auto simp: i_init_def)
  then show ?case using atomic_start [of "a_init A"] by (simp add: a_init_def i_init_def)
next
  case (interval_more h i l i')
  note IH = interval_more.IH and fin = finite_busy [OF interval_more.hyps(1)]
  from interval_more.hyps(2) show ?case
  proof cases
    case (i_call t x)
    with call_view [OF IH i_call(3)] interval_more.prems show ?thesis by simp
  next
    case (i_update t x B A')
    with update_views [OF IH fin i_update(3-5)] interval_more.prems show ?thesis by simp
  next
    case (i_read t x B b r)
    with interval_more.prems have v: "\<forall>u. view (((i_status i)(t := IDone r)) u) (st u)" by simp
    have "\<forall>u. view (i_status i u) (st u)"
    proof
      fix u show "view (i_status i u) (st u)"
        using view_updD(1) [OF v] view_updD(2) [OF v, of u] i_read by (cases "u = t") auto
    qed
    from IH [OF this] i_read show ?thesis by simp
  next
    case (i_return t r)
    with interval_more.prems have v: "\<forall>u. view (((i_status i)(t := IIdle)) u) (st u)" by simp
    have "\<forall>u. view (i_status i u) ((st(t := ADone r)) u)"
      using view_updD(2) [OF v] i_return by simp
    note run = IH [OF this]
    have "st t = AIdle" using view_updD(1) [OF v] by simp
    then have "atomic_step \<lparr>a_set = i_set i, a_status = st(t := ADone r)\<rparr> (Some (Return t r))
        \<lparr>a_set = i_set i, a_status = st\<rparr>"
      using a_return [of "\<lparr>a_set = i_set i, a_status = st(t := ADone r)\<rparr>" t r]
      by (simp add: fun_upd_idem)
    from atomic_more [OF run this] i_return show ?thesis by simp
  qed
qed

text \<open>Every history of the interval object is a history of the atomic object.\<close>

lemma interval_implements_atomic:
  assumes "interval_run (i_init A) h i"
  shows "\<exists>a. atomic_run (a_init A) h a"
proof -
  define st where
    "st u = (case i_status i u of IIdle \<Rightarrow> AIdle | IPending x _ \<Rightarrow> APending x | IDone r \<Rightarrow> ADone r)"
    for u
  have "\<forall>u. view (i_status i u) (st u)" by (simp add: st_def split: i_status.split)
  with interval_views [OF assms] show ?thesis by blast
qed

section \<open>The proof principle\<close>

lemma interval_run_trans:
  assumes "interval_run i1 h i2" "interval_run i2 h' i3"
  shows "interval_run i1 (h @ h') i3"
  using assms(2)
proof induction
  case interval_start
  with assms(1) show ?case by simp
next
  case (interval_more h' i3 l i4)
  then show ?case using interval_run.interval_more [of i1 "h @ h'" i3 l i4] by simp
qed

lemma interval_one: "interval_step i l i' \<Longrightarrow> interval_run i (visible l) i'"
  using interval_more [OF interval_start] by simp

text \<open>
  The step of one thread, seen from the set and its own status: nothing happens, the set is updated,
  or the operation returns something it has observed. In between, every pending operation has
  observed the set as it is (\<open>current\<close>).
\<close>

inductive acts ::
    "'a set \<Rightarrow> 'a i_status \<Rightarrow> 'a set \<Rightarrow> 'a i_status \<Rightarrow> bool" where
  act_quiet: "acts A st A st"
| act_update: "updates x A \<Longrightarrow> A' = snd (apply_op x A) \<Longrightarrow> acts A (IPending x B) A' (IDone True)"
| act_read: "b \<in> B \<Longrightarrow> read_result x b = Some r \<Longrightarrow> acts A (IPending x B) A (IDone r)"

definition current :: "'a set \<Rightarrow> 'a i_status \<Rightarrow> bool" where
  "current A st \<longleftrightarrow> (\<forall>x B. st = IPending x B \<longrightarrow> (op_elem x \<in> A) \<in> B)"

lemma current_observe [simp]: "current A (observe A st)"
  by (cases st) (auto simp: current_def)

lemma current_simps [simp]:
  "current A IIdle" "current A (IDone r)" "current A (IPending x B) \<longleftrightarrow> (op_elem x \<in> A) \<in> B"
  by (auto simp: current_def)

lemma observe_current: "current A st \<Longrightarrow> observe A st = st"
  by (cases st) (auto simp: insert_absorb)

lemma acts_current: "acts A st A' st' \<Longrightarrow> current A st \<Longrightarrow> current A' st'"
  by (induction rule: acts.induct) auto

lemma acts_run:
  assumes "acts (i_set i) (i_status i t) A' st'" "\<And>u. current (i_set i) (i_status i u)"
  shows "interval_run i [] (i\<lparr>i_set := A', i_status := (\<lambda>u. observe A' (i_status i u))(t := st')\<rparr>)"
  using assms(1)
proof cases
  case act_quiet
  have "(\<lambda>u. observe A' (i_status i u))(t := st') = i_status i"
    using assms(2) act_quiet by (auto simp: observe_current)
  with act_quiet show ?thesis using interval_start [of i] by simp
next
  case (act_update x B)
  with interval_one [OF i_update [of i t x B A']] show ?thesis by simp
next
  case (act_read b B x r)
  have "(\<lambda>u. observe A' (i_status i u))(t := st') = (i_status i)(t := IDone r)"
    using assms(2) act_read by (auto simp: observe_current)
  with act_read interval_one [OF i_read [of i t x B b r]] show ?thesis by simp
qed

text \<open>
  A forward simulation from a program to the interval object: a relation that holds at the start
  and that every step of the program keeps, with steps of the interval object that have the same
  visible event.
\<close>

locale simulation =
  fixes P :: "('a, 'sh, 'pc) program" and start :: "'sh \<Rightarrow> bool"
    and sim :: "('sh, 'pc) sys \<Rightarrow> 'a interval \<Rightarrow> bool"
  assumes sim_init: "start sh \<Longrightarrow> sim (sys_init P sh) (i_init {})"
    and sim_step: "sim s i \<Longrightarrow> sys_step P s l s' \<Longrightarrow> \<exists>i'. interval_run i (visible l) i' \<and> sim s' i'"
begin

lemma sim_run:
  assumes "sys_run P (sys_init P sh) h s" "start sh"
  shows "\<exists>i. interval_run (i_init {}) h i \<and> sim s i"
  using assms(1)
proof (induction rule: sys_run.induct)
  case run_start
  then show ?case using sim_init [OF assms(2)] interval_start by blast
next
  case (run_step h s1 l s2)
  then show ?case by (meson interval_run_trans sim_step)
qed

lemma sim_linearizable: "start sh \<Longrightarrow> linearizable P sh {}"
  unfolding linearizable_def using sim_run interval_implements_atomic by blast

lemma sim_reachable: "start sh \<Longrightarrow> sys_run P (sys_init P sh) h s \<Longrightarrow> \<exists>i. sim s i"
  using sim_run by blast

end

end
