(* ===== verification/ListSteps.thy ===== *)
theory ListSteps
  imports ListInv Linearizability
begin

text \<open>
  What a thread inside an operation of the list knows at each program counter (\<open>l_ok\<close>), that this
  knowledge survives the steps of other threads (\<open>l_ok_stable\<close>), and that each of its own steps
  changes the heap in one of the ways of \<open>evolves\<close> and leads to the next program counter's
  knowledge (\<open>step_evolves\<close>, \<open>step_ok\<close>).
\<close>

section \<open>What a thread knows\<close>

text \<open>The purpose of a call: an operation of the set, or the sentinel of a bucket index.\<close>

type_synonym 'a task = "'a op + size_t"

primrec task_of :: "'a lop \<Rightarrow> 'a task" where
  "task_of (LAdd e) = Inl (Add e)"
| "task_of (LRemove e) = Inl (Remove e)"
| "task_of (LSentinel i) = Inr i"

definition node_ok ::
    "('a \<Rightarrow> size_t) \<Rightarrow> 'a node list \<Rightarrow> addr set \<Rightarrow> 'a lop \<Rightarrow> addr \<Rightarrow> bool" where
  "node_ok hash h P x n \<longleftrightarrow>
     n < length h \<and> n \<notin> P \<and> \<not> marked h n \<and> Matches (h ! n) (lop_key hash x) (lop_elem x)"

definition call_ok :: "('a \<Rightarrow> size_t) \<Rightarrow> 'a node list \<Rightarrow> addr set \<Rightarrow> 'a call \<Rightarrow> bool" where
  "call_ok hash h P c \<longleftrightarrow>
     c_head c \<in> P \<and> \<not> bit (key (h ! c_head c)) 0 \<and> key (h ! c_head c) < lop_key hash (c_op c) \<and>
     (\<forall>n \<in> set_option (c_node c). node_ok hash h P (c_op c) n) \<and>
     (\<forall>e. c_op c = LRemove e \<longrightarrow> c_node c = None)"

definition pred_ok ::
    "('a \<Rightarrow> size_t) \<Rightarrow> 'a node list \<Rightarrow> addr list \<Rightarrow> addr set \<Rightarrow> 'a lop \<Rightarrow> addr \<Rightarrow> bool" where
  "pred_ok hash h C P x p \<longleftrightarrow>
     p \<in> P \<and> \<not> AtOrPast (h ! p) (lop_key hash x) (lop_elem x) \<and>
     free_upto h C (lop_key hash x) (lop_elem x) p"

definition cur_ok ::
    "('a \<Rightarrow> size_t) \<Rightarrow> 'a node list \<Rightarrow> addr list \<Rightarrow> addr set \<Rightarrow> 'a lop \<Rightarrow> addr \<Rightarrow> bool" where
  "cur_ok hash h C P x a \<longleftrightarrow>
     a \<in> P \<and> (\<not> AtOrPast (h ! a) (lop_key hash x) (lop_elem x) \<longrightarrow>
               free_upto h C (lop_key hash x) (lop_elem x) a)"

definition res_ok :: "'a node list \<Rightarrow> addr set \<Rightarrow> 'a task \<Rightarrow> lres \<Rightarrow> bool" where
  "res_ok h P x r \<longleftrightarrow>
     (case x of Inl y \<Rightarrow> \<exists>b. r = RBool b
      | Inr i \<Rightarrow> \<exists>a. r = RSentinel a \<and> a \<in> P \<and> key (h ! a) = MakeSentinelKey i)"

fun l_ok :: "('a \<Rightarrow> size_t) \<Rightarrow> 'a node list \<Rightarrow> addr list \<Rightarrow> addr set \<Rightarrow> 'a task \<Rightarrow> 'a lpc \<Rightarrow> bool" where
  "l_ok hash h C P x (LFind c) \<longleftrightarrow> task_of (c_op c) = x \<and> call_ok hash h P c"
| "l_ok hash h C P x (LScan c p a) \<longleftrightarrow> task_of (c_op c) = x \<and> call_ok hash h P c \<and>
     pred_ok hash h C P (c_op c) p \<and> cur_ok hash h C P (c_op c) a"
| "l_ok hash h C P x (LUnlink c p a r) \<longleftrightarrow> task_of (c_op c) = x \<and> call_ok hash h P c \<and>
     pred_ok hash h C P (c_op c) p \<and> a \<in> P \<and> nxt (h ! a) = (r, True)"
| "l_ok hash h C P x (LRetire c p a r) \<longleftrightarrow> task_of (c_op c) = x \<and> call_ok hash h P c \<and>
     pred_ok hash h C P (c_op c) p \<and> a \<in> P \<and> a \<notin> set C \<and> nxt (h ! a) = (r, True) \<and>
     (\<exists>b. r = Some b \<and> cur_ok hash h C P (c_op c) b)"
| "l_ok hash h C P x (LInsert c p a n) \<longleftrightarrow> task_of (c_op c) = x \<and> call_ok hash h P c \<and>
     pred_ok hash h C P (c_op c) p \<and> a \<in> P \<and> lop_key hash (c_op c) < key (h ! a) \<and>
     c_node c = Some n \<and> nxt (h ! n) = (Some a, False) \<and> (\<forall>e. c_op c \<noteq> LRemove e)"
| "l_ok hash h C P x (LSucc c p a) \<longleftrightarrow> task_of (c_op c) = x \<and> call_ok hash h P c \<and>
     p \<in> P \<and> a \<in> P \<and> (\<exists>e. c_op c = LRemove e) \<and>
     Matches (h ! a) (lop_key hash (c_op c)) (lop_elem (c_op c))"
| "l_ok hash h C P x (LMark c p a r) \<longleftrightarrow> task_of (c_op c) = x \<and> call_ok hash h P c \<and>
     p \<in> P \<and> a \<in> P \<and> (\<exists>e. c_op c = LRemove e) \<and>
     Matches (h ! a) (lop_key hash (c_op c)) (lop_elem (c_op c))"
| "l_ok hash h C P x (LDetach p a r) \<longleftrightarrow> (\<exists>e. x = Inl (Remove e)) \<and>
     p \<in> P \<and> a \<in> P \<and> nxt (h ! a) = (r, True)"
| "l_ok hash h C P x (LDispose a) \<longleftrightarrow> (\<exists>e. x = Inl (Remove e)) \<and> a \<in> P \<and> a \<notin> set C"
| "l_ok hash h C P x (LLook e a) \<longleftrightarrow> x = Inl (Contains e) \<and> a \<in> P"
| "l_ok hash h C P x (LRet r) \<longleftrightarrow> res_ok h P x r"
| "l_ok hash h C P x LUndef \<longleftrightarrow> False"

text \<open>The unpublished node a thread owns, and the node it has unlinked and not yet retired.\<close>

fun l_call :: "'a lpc \<Rightarrow> 'a call option" where
  "l_call (LFind c) = Some c"
| "l_call (LScan c p a) = Some c"
| "l_call (LUnlink c p a r) = Some c"
| "l_call (LRetire c p a r) = Some c"
| "l_call (LInsert c p a n) = Some c"
| "l_call (LSucc c p a) = Some c"
| "l_call (LMark c p a r) = Some c"
| "l_call pc = None"

definition owned :: "'a lpc \<Rightarrow> addr set" where
  "owned pc = (case l_call pc of None \<Rightarrow> {} | Some c \<Rightarrow> set_option (c_node c))"

fun pending :: "'a lpc \<Rightarrow> addr set" where
  "pending (LRetire c p a r) = {a}"
| "pending (LDispose a) = {a}"
| "pending pc = {}"

section \<open>Stability\<close>

lemma node_ok_stable:
  assumes "evolves hash h C P w h' C' P'" "list_inv hash root h C P" "node_ok hash h P x n" "n \<notin> w"
  shows "node_ok hash h' P' x n"
  using assms evolves_private [OF assms(1,2), of n] evolves_const [OF assms(1), of n]
  by (auto simp: node_ok_def)

lemma call_ok_stable:
  assumes ev: "evolves hash h C P w h' C' P'" and inv: "list_inv hash root h C P"
    and "call_ok hash h P c" "set_option (c_node c) \<inter> w = {}"
  shows "call_ok hash h' P' c"
  using assms evolves_const [OF ev list_inv_less [OF inv], of "c_head c"]
    evolves_published [OF ev, of "c_head c"] node_ok_stable [OF ev inv]
  by (auto simp: call_ok_def)

lemma pred_ok_stable:
  assumes ev: "evolves hash h C P w h' C' P'" and inv: "list_inv hash root h C P"
    and "pred_ok hash h C P x p"
  shows "pred_ok hash h' C' P' x p"
  using assms(3) evolves_derived(2) [OF ev list_inv_less [OF inv], of p]
    evolves_published [OF ev, of p] evolves_free_upto [OF ev inv, of p]
  by (auto simp: pred_ok_def)

lemma cur_ok_stable:
  assumes ev: "evolves hash h C P w h' C' P'" and inv: "list_inv hash root h C P"
    and "cur_ok hash h C P x a"
  shows "cur_ok hash h' C' P' x a"
  using assms(3) evolves_derived(2) [OF ev list_inv_less [OF inv], of a]
    evolves_published [OF ev, of a] evolves_free_upto [OF ev inv, of a]
  by (auto simp: cur_ok_def)

lemma marked_stable:
  assumes ev: "evolves hash h C P w h' C' P'" and inv: "list_inv hash root h C P"
    and "a \<in> P" "nxt (h ! a) = (r, True)"
  shows "nxt (h' ! a) = (r, True)"
  using evolves_frozen [OF ev inv assms(3)] assms(4) by simp

lemmas ok_stable = call_ok_stable pred_ok_stable cur_ok_stable marked_stable

lemma l_ok_stable:
  assumes ev: "evolves hash h C P w h' C' P'" and inv: "list_inv hash root h C P"
    and ok: "l_ok hash h C P x pc" and w: "owned pc \<inter> w = {}"
  shows "l_ok hash h' C' P' x pc"
proof -
  have pub: "a \<in> P'" if "a \<in> P" for a using evolves_published [OF ev that] .
  have const: "key (h' ! a) = key (h ! a)" "Matches (h' ! a) k e = Matches (h ! a) k e"
    if "a \<in> P" for a k e
    using evolves_const [OF ev list_inv_less [OF inv that]]
      evolves_derived(1) [OF ev list_inv_less [OF inv that]] by simp_all
  have node: "nxt (h' ! n) = nxt (h ! n)" if "call_ok hash h P c" "c_node c = Some n" "n \<notin> w" for c n
    using that evolves_private [OF ev inv, of n] by (auto simp: call_ok_def node_ok_def)
  note stable = call_ok_stable [OF ev inv] pred_ok_stable [OF ev inv] cur_ok_stable [OF ev inv]
    marked_stable [OF ev inv] evolves_unlinked [OF ev]
  show ?thesis
  proof (cases pc)
    case (LInsert c p a n)
    with ok w stable pub const node [of c n] show ?thesis by (auto simp: owned_def)
  next
    case (LRet r)
    with ok pub const show ?thesis by (auto simp: res_ok_def split: sum.splits)
  qed (use ok w stable pub const in \<open>auto simp: owned_def\<close>)
qed

end
