(* ===== verification/Ledger.thy ===== *)
theory Ledger
  imports BucketList Concurrency
begin

text \<open>
  Accounting for nodes. Every node of a finite stock is either booked, once, in a list (the nodes
  deleted on the spot, the nodes handed to \<open>Guard::Retire\<close>) or held by exactly one thread. A step of
  a thread takes a new node into the stock and its own hands, gives one away, or books it.
\<close>

definition balanced :: "addr set \<Rightarrow> addr list \<Rightarrow> (tid \<Rightarrow> addr set) \<Rightarrow> bool" where
  "balanced stock book held \<longleftrightarrow>
     distinct book \<and> stock = set book \<union> (\<Union>t. held t) \<and>
     (\<forall>t. held t \<inter> set book = {}) \<and> (\<forall>t u. t \<noteq> u \<longrightarrow> held t \<inter> held u = {})"

inductive transfer ::
    "addr set \<Rightarrow> addr list \<Rightarrow> addr set \<Rightarrow> addr set \<Rightarrow> addr list \<Rightarrow> addr set \<Rightarrow> bool" where
  tr_keep: "transfer stock book mine stock book mine"
| tr_take: "a \<notin> stock \<Longrightarrow> transfer stock book {} (insert a stock) book {a}"
| tr_give: "transfer stock book {a} (stock - {a}) book {}"
| tr_book: "transfer stock book {a} stock (book @ [a]) {}"

lemma balanced_held:
  assumes "balanced stock book held" "a \<in> held t"
  shows "a \<in> stock" "a \<notin> set book" "u \<noteq> t \<Longrightarrow> a \<notin> held u"
  using assms unfolding balanced_def by (blast, blast, blast)

lemma balanced_transfer:
  assumes "transfer stock book mine stock' book' mine'" "balanced stock book held" "held t = mine"
  shows "balanced stock' book' (held(t := mine'))"
  using assms
proof cases
  case tr_keep
  with assms show ?thesis by (simp add: fun_upd_idem)
next
  case (tr_take a)
  then have "stock = set book \<union> (\<Union>u \<in> UNIV - {t}. held u)"
    using assms(2,3) by (auto simp: balanced_def)
  with tr_take assms show ?thesis by (auto simp: balanced_def split: if_splits)
next
  case (tr_give a)
  have *: "a \<notin> set book" "\<And>u. u \<noteq> t \<Longrightarrow> a \<notin> held u"
    using balanced_held [OF assms(2), of a t] assms(3) tr_give by auto
  have "stock = set book \<union> held t \<union> (\<Union>u \<in> UNIV - {t}. held u)"
    using assms(2) by (auto simp: balanced_def)
  with tr_give assms * have "stock' = set book \<union> (\<Union>u. (held(t := {})) u)" by auto
  with tr_give assms * show ?thesis by (auto simp: balanced_def split: if_splits)
next
  case (tr_book a)
  have *: "a \<notin> set book" "\<And>u. u \<noteq> t \<Longrightarrow> a \<notin> held u"
    using balanced_held [OF assms(2), of a t] assms(3) tr_book by auto
  have "stock = set book \<union> held t \<union> (\<Union>u \<in> UNIV - {t}. held u)"
    using assms(2) by (auto simp: balanced_def)
  with tr_book assms * have "stock' = set book' \<union> (\<Union>u. (held(t := {})) u)" by auto
  with tr_book assms * show ?thesis by (auto simp: balanced_def split: if_splits)
qed

text \<open>Once no thread holds anything, the book is the stock, each node once.\<close>

lemma balanced_closed:
  assumes "balanced stock book held" "\<And>t. held t = {}"
  shows "distinct book \<and> set book = stock"
  using assms by (auto simp: balanced_def)

text \<open>Every node of the stock is booked or held, once.\<close>

lemma count_distinct: "distinct xs \<Longrightarrow> count_list xs a = (if a \<in> set xs then 1 else 0)"
  by (induction xs) auto

lemma balanced_count:
  assumes "balanced stock book held"
  shows "count_list book a + card {t. a \<in> held t} = (if a \<in> stock then 1 else 0)"
proof -
  have count: "count_list book a = (if a \<in> set book then 1 else 0)"
    using assms by (simp add: balanced_def count_distinct)
  show ?thesis
  proof (cases "\<exists>t. a \<in> held t")
    case True
    then obtain t where t: "a \<in> held t" ..
    with balanced_held [OF assms t] have "{u. a \<in> held u} = {t}" by auto
    with balanced_held(1,2) [OF assms t] count show ?thesis by simp
  next
    case False
    with assms count show ?thesis by (auto simp: balanced_def)
  qed
qed

lemma balanced_init: "balanced {} [] (\<lambda>_. {})"
  by (simp add: balanced_def)

end
