(* ===== verification/ListCorrect.thy ===== *)
theory ListCorrect
  imports ListSteps Ledger
begin

text \<open>
  Every step of an operation of the list is correct (\<open>l_step_correct\<close>): it makes one of the changes
  of \<open>evolves\<close>, leads to a program counter whose assertion holds, keeps the books on nodes balanced,
  and acts on the set as one step of the interval object.
\<close>

section \<open>The observation of a pending operation\<close>

text \<open>
  Where a search is. While the element it looks for has been present all along, the search reaches
  the element's node from there.
\<close>

fun scan_pos :: "'a lpc \<Rightarrow> addr option" where
  "scan_pos (LScan c p a) = Some a"
| "scan_pos (LUnlink c p a r) = Some a"
| "scan_pos (LRetire c p a r) = Some a"
| "scan_pos (LLook e a) = Some a"
| "scan_pos pc = None"

definition pending_at ::
    "('a \<Rightarrow> size_t) \<Rightarrow> 'a node list \<Rightarrow> addr list \<Rightarrow> 'a op \<Rightarrow> addr option \<Rightarrow> 'a i_status \<Rightarrow> bool" where
  "pending_at hash h C y pos st \<longleftrightarrow>
     (\<exists>B. st = IPending y B \<and> (op_elem y \<in> elements h C) \<in> B \<and>
        (\<forall>a. pos = Some a \<longrightarrow> False \<notin> B \<longrightarrow>
           hind h C (MakeOrdinaryKey hash (op_elem y)) (Some (op_elem y)) a))"

definition list_status ::
    "('a \<Rightarrow> size_t) \<Rightarrow> 'a node list \<Rightarrow> addr list \<Rightarrow> 'a op \<Rightarrow> 'a lpc \<Rightarrow> 'a i_status \<Rightarrow> bool" where
  "list_status hash h C y pc st =
     (case pc of
        LDetach p a r \<Rightarrow> st = IDone True
      | LDispose a \<Rightarrow> st = IDone True
      | LRet r \<Rightarrow> (\<exists>b. r = RBool b \<and> st = IDone b)
      | _ \<Rightarrow> pending_at hash h C y (scan_pos pc) st)"

definition is_search :: "'a lpc \<Rightarrow> bool" where
  "is_search pc = (case pc of LDetach p a r \<Rightarrow> False | LDispose a \<Rightarrow> False | LRet r \<Rightarrow> False | _ \<Rightarrow> True)"

lemma list_status_search:
  "is_search pc \<Longrightarrow> list_status hash h C y pc st = pending_at hash h C y (scan_pos pc) st"
  by (cases pc) (simp_all add: is_search_def list_status_def)

lemma list_status_current: "list_status hash h C y pc st \<Longrightarrow> current (elements h C) st"
  by (cases pc) (auto simp: list_status_def pending_at_def)

lemma op_target: "target hash (MakeOrdinaryKey hash e) (Some e)"
  by (simp add: target_def)

lemma pending_at_stable:
  assumes ev: "evolves hash h C P w h' C' P'" and inv: "list_inv hash root h C P"
    and at: "pending_at hash h C y pos st" and pos: "set_option pos \<subseteq> P"
  shows "pending_at hash h' C' y pos (observe (elements h' C') st)"
proof -
  let ?e = "op_elem y"
  from at obtain B where B: "st = IPending y B"
    "\<And>a. pos = Some a \<Longrightarrow> False \<notin> B \<Longrightarrow> hind h C (MakeOrdinaryKey hash ?e) (Some ?e) a"
    by (auto simp: pending_at_def)
  have "hind h' C' (MakeOrdinaryKey hash ?e) (Some ?e) a"
    if a: "pos = Some a" "False \<notin> insert (?e \<in> elements h' C') B" for a
  proof -
    from a(2) have "?e \<in> elements h' C'" by blast
    then obtain m where "m \<in> set C'" "\<not> marked h' m" "Matches (h' ! m) (MakeOrdinaryKey hash ?e) (Some ?e)"
      using elements_iff [OF evolves_inv [OF ev inv]] by blast
    then show ?thesis
      using evolves_hind [OF ev inv op_target] B(2) a pos by auto
  qed
  with B(1) show ?thesis by (auto simp: pending_at_def)
qed

lemma scan_pos_published: "l_ok hash h C P x pc \<Longrightarrow> set_option (scan_pos pc) \<subseteq> P"
  by (cases pc) (auto simp: cur_ok_def)

text \<open>The steps of the other threads.\<close>

lemma list_status_stable:
  assumes "evolves hash h C P w h' C' P'" "list_inv hash root h C P" "l_ok hash h C P x pc"
    and "list_status hash h C y pc st"
  shows "list_status hash h' C' y pc (observe (elements h' C') st)"
proof (cases "is_search pc")
  case True
  with assms(4) have "pending_at hash h C y (scan_pos pc) st" by (simp add: list_status_search)
  from pending_at_stable [OF assms(1,2) this scan_pos_published [OF assms(3)]] True
  show ?thesis by (simp add: list_status_search)
next
  case False
  then consider p a r where "pc = LDetach p a r" | a where "pc = LDispose a" | r where "pc = LRet r"
    by (auto simp: is_search_def split: lpc.splits)
  then show ?thesis using assms(4) by cases (fastforce simp: list_status_def)+
qed

section \<open>What a step does\<close>

definition list_step ::
    "('a \<Rightarrow> size_t) \<Rightarrow> 'a task \<Rightarrow> addr list \<Rightarrow> addr set \<Rightarrow> 'a lists \<Rightarrow> 'a lpc \<Rightarrow>
     addr list \<Rightarrow> addr set \<Rightarrow> 'a lists \<Rightarrow> 'a lpc \<Rightarrow> bool" where
  "list_step hash x C P s pc C' P' s' pc' \<longleftrightarrow>
     (\<exists>w. w \<subseteq> owned pc \<and> evolves hash (heap s) C P w (heap s') C' P') \<and>
     l_ok hash (heap s') C' P' x pc' \<and>
     transfer ({..<length (heap s)} - P) (deleted s) (owned pc)
       ({..<length (heap s')} - P') (deleted s') (owned pc') \<and>
     transfer (P - set C) (retired s) (pending pc) (P' - set C') (retired s') (pending pc')"

definition list_acts ::
    "('a \<Rightarrow> size_t) \<Rightarrow> 'a task \<Rightarrow> addr list \<Rightarrow> 'a node list \<Rightarrow> 'a lpc \<Rightarrow> addr list \<Rightarrow> 'a node list \<Rightarrow> 'a lpc \<Rightarrow> bool"
    where
  "list_acts hash x C h pc C' h' pc' \<longleftrightarrow>
     (case x of
        Inr i \<Rightarrow> elements h' C' = elements h C
      | Inl y \<Rightarrow> (\<forall>st. list_status hash h C y pc st \<longrightarrow>
          (\<exists>st'. acts (elements h C) st (elements h' C') st' \<and> list_status hash h' C' y pc' st')))"

definition correct_step ::
    "('a \<Rightarrow> size_t) \<Rightarrow> 'a task \<Rightarrow> addr list \<Rightarrow> addr set \<Rightarrow> 'a lists \<Rightarrow> 'a lpc \<Rightarrow> 'a lists \<times> 'a lpc \<Rightarrow> bool"
    where
  "correct_step hash x C P s pc r \<longleftrightarrow>
     (\<exists>C' P'. list_step hash x C P s pc C' P' (fst r) (snd r) \<and>
        list_acts hash x C (heap s) pc C' (heap (fst r)) (snd r))"

lemma correct_stepI:
  "list_step hash x C P s pc C' P' s' pc' \<Longrightarrow> list_acts hash x C (heap s) pc C' (heap s') pc' \<Longrightarrow>
   correct_step hash x C P s pc (s', pc')"
  by (auto simp: correct_step_def)

text \<open>Steps that only read.\<close>

lemma step_reads:
  assumes "l_ok hash (heap s) C P x pc'" "owned pc' = owned pc" "pending pc' = pending pc"
  shows "list_step hash x C P s pc C P s pc'"
  using assms ev_same [of hash "heap s" C P] by (auto simp: list_step_def intro: tr_keep)

text \<open>Steps of a search that stay pending on the same set.\<close>

lemma acts_search:
  assumes "is_search pc" "is_search pc'" "elements h' C' = elements h C"
    and "\<And>y a. x = Inl y \<Longrightarrow> scan_pos pc' = Some a \<Longrightarrow> op_elem y \<in> elements h C \<Longrightarrow>
      (\<And>b. scan_pos pc = Some b \<Longrightarrow>
        hind h C (MakeOrdinaryKey hash (op_elem y)) (Some (op_elem y)) b) \<Longrightarrow>
      hind h' C' (MakeOrdinaryKey hash (op_elem y)) (Some (op_elem y)) a"
  shows "list_acts hash x C h pc C' h' pc'"
proof (cases x)
  case (Inl y)
  have "acts (elements h C) st (elements h' C') st \<and> list_status hash h' C' y pc' st"
    if "list_status hash h C y pc st" for st
  proof -
    from that obtain B where "st = IPending y B" "(op_elem y \<in> elements h C) \<in> B"
      "\<And>b. scan_pos pc = Some b \<Longrightarrow> False \<notin> B \<Longrightarrow>
         hind h C (MakeOrdinaryKey hash (op_elem y)) (Some (op_elem y)) b"
      by (auto simp: list_status_search [OF assms(1)] pending_at_def)
    moreover from this(2) have "False \<notin> B \<Longrightarrow> op_elem y \<in> elements h C" by metis
    ultimately show ?thesis
      using assms(3) assms(4) [OF Inl]
      by (auto simp: list_status_search [OF assms(2)] pending_at_def intro: act_quiet)
  qed
  then show ?thesis by (auto simp: list_acts_def Inl)
next
  case (Inr i)
  with assms(3) show ?thesis by (simp add: list_acts_def)
qed

text \<open>Steps after the update, and the return of what has been observed.\<close>

lemma acts_done:
  assumes "\<not> is_search pc" "elements h' C' = elements h C"
    and "\<And>y st. list_status hash h C y pc st \<Longrightarrow> list_status hash h' C' y pc' st"
  shows "list_acts hash x C h pc C' h' pc'"
  unfolding list_acts_def assms(2) using assms(3) by (auto split: sum.split intro: act_quiet)

lemma acts_read:
  assumes "is_search pc" "x = Inl y" "elements h' C' = elements h C"
    and "\<And>B. (op_elem y \<in> elements h C) \<in> B \<Longrightarrow>
      (\<And>b. scan_pos pc = Some b \<Longrightarrow> False \<notin> B \<Longrightarrow>
        hind h C (MakeOrdinaryKey hash (op_elem y)) (Some (op_elem y)) b) \<Longrightarrow>
      \<exists>b \<in> B. read_result y b = Some r"
  shows "list_acts hash x C h pc C' h' (LRet (RBool r))"
proof -
  have "\<exists>st'. acts (elements h C) st (elements h' C') st' \<and>
      list_status hash h' C' y (LRet (RBool r)) st'"
    if "list_status hash h C y pc st" for st
  proof -
    from that obtain B where B: "st = IPending y B" "(op_elem y \<in> elements h C) \<in> B"
      "\<And>b. scan_pos pc = Some b \<Longrightarrow> False \<notin> B \<Longrightarrow>
         hind h C (MakeOrdinaryKey hash (op_elem y)) (Some (op_elem y)) b"
      by (auto simp: list_status_search [OF assms(1)] pending_at_def)
    from assms(4) [OF B(2,3)] obtain b where "b \<in> B" "read_result y b = Some r" by blast
    with B(1) act_read [of b B y r] assms(3) show ?thesis by (auto simp: list_status_def)
  qed
  with assms(2) show ?thesis by (auto simp: list_acts_def)
qed

lemma acts_update:
  assumes "is_search pc" "x = Inl y" "updates y (elements h C)"
    and "elements h' C' = snd (apply_op y (elements h C))"
    and "list_status hash h' C' y pc' (IDone True)"
  shows "list_acts hash x C h pc C' h' pc'"
  using assms act_update [OF assms(3,4)]
  by (auto simp: list_acts_def list_status_search [OF assms(1)] pending_at_def)

section \<open>The steps, one by one\<close>

lemma task_key:
  "task_of z = Inl y \<Longrightarrow> lop_key hash z = MakeOrdinaryKey hash (op_elem y) \<and> lop_elem z = Some (op_elem y)"
  by (cases z) auto

lemma present_hind:
  assumes "list_inv hash root h C P" "e \<in> elements h C" "a \<in> set C" "key (h ! a) < MakeOrdinaryKey hash e"
  shows "hind h C (MakeOrdinaryKey hash e) (Some e) a"
  using elements_iff [OF assms(1)] hind_head [OF assms(1) op_target assms(3,4)] assms(2) by blast

lemma call_head:
  assumes "list_inv hash root h C P" "call_ok hash h P c"
  shows "c_head c \<in> set C" "\<not> marked h (c_head c)" "c_head c \<in> P"
    "\<not> AtOrPast (h ! c_head c) (lop_key hash (c_op c)) (lop_elem (c_op c))"
  using assms sentinel_in_chain [OF assms(1), of "c_head c"]
  by (auto simp: call_ok_def AtOrPast_def Matches_def)

lemma cur_okI:
  assumes "list_inv hash root h C P" "p \<in> set C" "ref h p = Some a"
    and "free_upto h C (lop_key hash x) (lop_elem x) p"
  shows "cur_ok hash h C P x a"
  using assms free_upto_next [OF assms] ref_published [OF assms(1) list_inv_subset [OF assms(1,2)] assms(3)]
  by (auto simp: cur_ok_def AtOrPast_def)

lemma find_step:
  assumes inv: "list_inv hash root (heap s) C P" and ok: "l_ok hash (heap s) C P x (LFind c)"
  shows "correct_step hash x C P s (LFind c) (l_step hash d s (LFind c))"
proof -
  let ?h = "heap s" and ?a = "c_head c"
  from ok have call: "call_ok hash ?h P c" and x: "task_of (c_op c) = x" by simp_all
  note head = call_head [OF inv call]
  obtain b where b: "ref ?h ?a = Some b" "b \<in> P"
    using ref_not_null [OF inv head(3) lop_target head(4)] by blast
  have free: "free_upto ?h C (lop_key hash (c_op c)) (lop_elem (c_op c)) ?a"
    using free_upto_head [OF inv] call by (simp add: call_ok_def)
  have "l_step hash d s (LFind c) = (s, LScan c ?a b)"
    using b list_inv_less [OF inv head(3)] by (simp add: goto_def)
  moreover have "list_step hash x C P s (LFind c) C P s (LScan c ?a b)"
    using x call head free cur_okI [OF inv head(1) b(1) free]
    by (intro step_reads) (simp_all add: pred_ok_def owned_def)
  moreover have "list_acts hash x C ?h (LFind c) C ?h (LScan c ?a b)"
  proof (rule acts_search)
    fix y a assume "x = Inl y" "scan_pos (LScan c ?a b) = Some a" and e: "op_elem y \<in> elements ?h C"
    then have "a = b" "lop_key hash (c_op c) = MakeOrdinaryKey hash (op_elem y)"
      "lop_elem (c_op c) = Some (op_elem y)"
      using x task_key [of "c_op c" y hash] by auto
    with present_hind [OF inv e head(1)] call head(4) b(1)
    show "hind ?h C (MakeOrdinaryKey hash (op_elem y)) (Some (op_elem y)) a"
      by (auto simp: call_ok_def AtOrPast_def intro: hind_step [where a = ?a])
  qed (simp_all add: is_search_def)
  ultimately show ?thesis by (simp add: correct_stepI)
qed

text \<open>The steps on the private node of a call.\<close>

lemma heap_delete_node [simp]: "heap (delete_node r s) = heap s" "retired (delete_node r s) = retired s"
  by (simp_all add: delete_node_def split: option.split)

lemma step_deletes:
  assumes "l_call pc = Some c" "l_ok hash (heap s) C P x pc'" "owned pc' = {}"
    and "pending pc' = {}" "pending pc = {}"
  shows "list_step hash x C P s pc C P (delete_node (c_node c) s) pc'"
proof (cases "c_node c")
  case None
  with step_reads [OF assms(2), of pc] assms show ?thesis
    by (simp add: delete_node_def owned_def)
next
  case (Some n)
  with assms ev_same [of hash "heap s" C P] show ?thesis
    by (auto simp: list_step_def delete_node_def owned_def intro: tr_keep tr_book)
qed

lemma l_ok_prepare:
  assumes inv: "list_inv hash root (heap s) C P"
    and ok: "l_ok hash (heap s) C P x (LScan c p a)" "\<not> marked (heap s) a"
    and a: "AtOrPast (heap s ! a) (lop_key hash (c_op c)) (lop_elem (c_op c))"
      "\<not> Matches (heap s ! a) (lop_key hash (c_op c)) (lop_elem (c_op c))"
    and op: "\<forall>e. c_op c \<noteq> LRemove e"
    and s': "prepare_node hash d c a s = (n, s')"
  shows "list_step hash x C P s (LScan c p a) C P s' (LInsert (c\<lparr>c_node := Some n\<rparr>) p a n) \<and>
    elements (heap s') C = elements (heap s) C"
proof (cases "c_node c")
  case None
  let ?n = "\<lparr>elem = (case lop_elem (c_op c) of None \<Rightarrow> d | Some e \<Rightarrow> e),
             key = lop_key hash (c_op c), nxt = (Some a, False)\<rparr>"
  from None s' have n: "n = length (heap s)" "s' = s\<lparr>heap := heap s @ [?n]\<rparr>"
    by (simp_all add: prepare_node_def)
  have ev: "evolves hash (heap s) C P {} (heap s') C P" unfolding n by (simp add: ev_alloc)
  have "node_ok hash (heap s') P (c_op c) n"
    using list_inv_less [OF inv] by (auto simp: node_ok_def n Matches_def split: option.split)
  moreover have "l_ok hash (heap s') C P x (LScan c p a)"
    using l_ok_stable [OF ev inv ok(1)] by simp
  moreover have "key (heap s' ! a) = key (heap s ! a)" "nxt (heap s' ! n) = (Some a, False)"
    using ok(1) list_inv_less [OF inv, of a] by (simp_all add: n cur_ok_def nth_append)
  ultimately have "l_ok hash (heap s') C P x (LInsert (c\<lparr>c_node := Some n\<rparr>) p a n)"
    using a op ok(1) by (auto simp: AtOrPast_def call_ok_def cur_ok_def)
  moreover have "{..<length (heap s')} - P = insert n ({..<length (heap s)} - P)"
    using list_inv_less [OF inv, of n] by (auto simp: n)
  moreover have "elements (heap s') C = elements (heap s) C"
    using list_inv_less [OF inv list_inv_subset [OF inv]]
    by (intro elements_cong) (simp add: n nth_append)
  ultimately show ?thesis using ev n None
    by (auto simp: list_step_def owned_def intro: tr_keep tr_take)
next
  case (Some m)
  with s' have n: "n = m" "s' = s\<lparr>heap := set_next (heap s) m (Some a, False)\<rparr>"
    by (auto simp: prepare_node_def)
  from ok(1) Some have node: "node_ok hash (heap s) P (c_op c) m" by (simp add: call_ok_def)
  then have ev: "evolves hash (heap s) C P {m} (heap s') C P"
    unfolding n by (simp add: ev_private node_ok_def)
  have "a \<in> P" using ok(1) by (simp add: cur_ok_def)
  have "pred_ok hash (heap s') C P (c_op c) p" "node_ok hash (heap s') P (c_op c) m"
    using ok(1) pred_ok_stable [OF ev inv] node by (simp_all add: n node_ok_def set_next_same)
  moreover have "key (heap s' ! b) = key (heap s ! b)" for b by (simp add: n)
  ultimately have "l_ok hash (heap s') C P x (LInsert (c\<lparr>c_node := Some n\<rparr>) p a n)"
    using a op ok(1) node \<open>a \<in> P\<close> Some
    by (auto simp: AtOrPast_def call_ok_def n set_next_same node_ok_def)
  moreover have "elements (heap s') C = elements (heap s) C"
    using node list_inv_subset [OF inv] by (intro elements_cong) (auto simp: n node_ok_def nxt_set_next)
  ultimately show ?thesis using ev n Some
    by (auto simp: list_step_def owned_def intro: tr_keep)
qed

lemma found_step:
  assumes inv: "list_inv hash root (heap s) C P" and ok: "l_ok hash (heap s) C P x (LScan c p a)"
    and a: "\<not> marked (heap s) a" "AtOrPast (heap s ! a) (lop_key hash (c_op c)) (lop_elem (c_op c))"
  shows "correct_step hash x C P s (LScan c p a) (found hash d c p a s)"
proof (cases "Matches (heap s ! a) (lop_key hash (c_op c)) (lop_elem (c_op c))")
  case hit: True
  have P: "a \<in> P" "p \<in> P" and x: "task_of (c_op c) = x" using ok by (auto simp: cur_ok_def pred_ok_def)
  have present: "op_elem y \<in> elements (heap s) C" if "x = Inl y" for y
    using elements_iff [OF inv] unmarked_in_chain [OF inv P(1) a(1)] a(1) hit
      task_key [of "c_op c" y hash] that x by auto
  show ?thesis
  proof (cases "c_op c")
    case (LAdd e)
    with x have y: "x = Inl (Add e)" by simp
    have "list_acts hash x C (heap s) (LScan c p a) C (heap s) (LRet (RBool False))"
      using present [OF y] by (intro acts_read [OF _ y]) (auto simp: is_search_def)
    with LAdd hit y show ?thesis
      by (auto simp: found_def res_ok_def owned_def intro!: correct_stepI [where P' = P] step_deletes)
  next
    case (LRemove e)
    have "list_acts hash x C (heap s) (LScan c p a) C (heap s) (LSucc c p a)"
      by (intro acts_search) (simp_all add: is_search_def)
    with LRemove hit ok P show ?thesis
      by (auto simp: found_def owned_def intro!: correct_stepI [where P' = P] step_reads)
  next
    case (LSentinel i)
    with x have y: "x = Inr i" by simp
    with LSentinel hit P show ?thesis
      by (auto simp: found_def res_ok_def owned_def list_acts_def Matches_def
          intro!: correct_stepI [where P' = P] step_deletes)
  qed
next
  case miss: False
  show ?thesis
  proof (cases "\<exists>e. c_op c = LRemove e")
    case True
    then obtain e where e: "c_op c = LRemove e" by blast
    with ok have y: "x = Inl (Remove e)" and "c_node c = None" by (auto simp: call_ok_def)
    have "list_acts hash x C (heap s) (LScan c p a) C (heap s) (LRet (RBool False))"
    proof (rule acts_read [OF _ y])
      fix B
      assume hind: "\<And>b. scan_pos (LScan c p a) = Some b \<Longrightarrow> False \<notin> B \<Longrightarrow>
        hind (heap s) C (MakeOrdinaryKey hash (op_elem (Remove e))) (Some (op_elem (Remove e))) b"
      have "False \<in> B"
        using hind_not_past [OF _ inv] hind [of a] ok e miss a by (fastforce simp: cur_ok_def)
      then show "\<exists>b\<in>B. read_result (Remove e) b = Some False" by force
    qed (simp_all add: is_search_def)
    with e y miss \<open>c_node c = None\<close> show ?thesis
      by (auto simp: found_def owned_def res_ok_def intro!: correct_stepI [where P' = P] step_reads)
  next
    case False
    obtain n s' where n: "prepare_node hash d c a s = (n, s')" by fastforce
    have *: "found hash d c p a s = (s', LInsert (c\<lparr>c_node := Some n\<rparr>) p a n)"
      using False miss n by (cases "c_op c") (simp_all add: found_def)
    from l_ok_prepare [OF inv ok a miss _ n] False
    have step: "list_step hash x C P s (LScan c p a) C P s' (LInsert (c\<lparr>c_node := Some n\<rparr>) p a n)"
      "elements (heap s') C = elements (heap s) C" by simp_all
    have "list_acts hash x C (heap s) (LScan c p a) C (heap s') (LInsert (c\<lparr>c_node := Some n\<rparr>) p a n)"
      using step(2) by (intro acts_search) (simp_all add: is_search_def)
    with step(1) show ?thesis unfolding * by (rule correct_stepI)
  qed
qed

lemma scan_step:
  assumes inv: "list_inv hash root (heap s) C P" and ok: "l_ok hash (heap s) C P x (LScan c p a)"
  shows "correct_step hash x C P s (LScan c p a) (l_step hash d s (LScan c p a))"
proof -
  let ?h = "heap s"
  have P: "a \<in> P" and len: "a < length ?h" and x: "task_of (c_op c) = x"
    using ok list_inv_less [OF inv] by (auto simp: cur_ok_def)
  obtain succ m where r: "nxt (?h ! a) = (succ, m)" by fastforce
  show ?thesis
  proof (cases m)
    case True
    have "list_acts hash x C ?h (LScan c p a) C ?h (LUnlink c p a succ)"
      by (intro acts_search) (simp_all add: is_search_def)
    with True r len ok P show ?thesis
      by (auto simp: owned_def intro!: correct_stepI [where P' = P] step_reads)
  next
    case False
    show ?thesis
    proof (cases "AtOrPast (?h ! a) (lop_key hash (c_op c)) (lop_elem (c_op c))")
      case True
      with found_step [OF inv ok] r False len show ?thesis by simp
    next
      case before: False
      obtain b where b: "ref ?h a = Some b" "b \<in> P"
        using ref_not_null [OF inv P lop_target before] by blast
      have C: "a \<in> set C" using unmarked_in_chain [OF inv P] r False by simp
      have step: "l_step hash d s (LScan c p a) = (s, LScan c a b)"
        using r b before False len by (auto simp: goto_def)
      have "list_step hash x C P s (LScan c p a) C P s (LScan c a b)"
        using ok before cur_okI [OF inv C b(1)]
        by (intro step_reads) (auto simp: owned_def pred_ok_def cur_ok_def)
      moreover have "list_acts hash x C ?h (LScan c p a) C ?h (LScan c a b)"
      proof (rule acts_search)
        fix y e assume y: "x = Inl y" "scan_pos (LScan c a b) = Some e"
          and hind: "\<And>b. scan_pos (LScan c p a) = Some b \<Longrightarrow>
            hind ?h C (MakeOrdinaryKey hash (op_elem y)) (Some (op_elem y)) b"
        from y x before task_key [of "c_op c" y hash]
        have "\<not> Matches (?h ! a) (MakeOrdinaryKey hash (op_elem y)) (Some (op_elem y))"
          by (auto simp: AtOrPast_def)
        with hind [of a] b(1) y(2)
        show "hind ?h C (MakeOrdinaryKey hash (op_elem y)) (Some (op_elem y)) e"
          by (auto intro: hind_step [where a = a])
      qed (simp_all add: is_search_def)
      ultimately show ?thesis unfolding step by (rule correct_stepI)
    qed
  qed
qed

text \<open>Physical removal: a reference that still leads to a marked node belongs to the chain.\<close>

lemma unlinks:
  assumes inv: "list_inv hash root h C P" and P: "p \<in> P"
    and p: "nxt (h ! p) = (Some a, False)" and a: "nxt (h ! a) = (r, True)"
  obtains us b vs where "C = us @ p # a # b # vs" "r = Some b"
    "evolves hash h C P {} (set_next h p (r, False)) (us @ p # b # vs) P"
    "elements (set_next h p (r, False)) (us @ p # b # vs) = elements h C"
    "P - set (us @ p # b # vs) = insert a (P - set C)" "a \<notin> P - set C"
    "a \<notin> set (us @ p # b # vs)" "p \<noteq> a"
proof -
  have "p \<in> set C" using unmarked_in_chain [OF inv P] p by simp
  then obtain us ws where "C = us @ p # ws" by (auto simp: in_set_conv_decomp)
  with chain_next [OF list_inv_chain [OF inv] this] p obtain vs where C: "C = us @ p # a # vs" by auto
  have aP: "a \<in> P" "a \<in> set C" using C list_inv_subset [OF inv, of a] by auto
  have "is_elem (h ! a)" using list_inv_published [OF inv aP(1)] a by (simp add: published_def)
  then have "key (h ! a) \<noteq> kTailKey" by (simp add: is_elem_def)
  with list_inv_published [OF inv aP(1)] a obtain b where b: "r = Some b"
    by (auto simp: published_def split: option.splits)
  have "C = (us @ [p]) @ a # vs" using C by simp
  from chain_next [OF list_inv_chain [OF inv] this, of b] a b obtain ws where
    C': "C = us @ p # a # b # ws" using C by auto
  have dist: "distinct C" by (rule list_inv_distinct [OF inv])
  show ?thesis
  proof (rule that [OF C' b])
    show "evolves hash h C P {} (set_next h p (r, False)) (us @ p # b # ws) P"
      unfolding b by (rule ev_unlink [OF C' p]) (simp add: a b)
    show "elements (set_next h p (r, False)) (us @ p # b # ws) = elements h C"
      unfolding b by (rule elements_unlink [OF C' p list_inv_less [OF inv P]]) (simp add: a b)
    show "P - set (us @ p # b # ws) = insert a (P - set C)" "a \<notin> P - set C"
      "a \<notin> set (us @ p # b # ws)" "p \<noteq> a"
      using dist aP unfolding C' by auto
  qed
qed

lemma cas_next_cases:
  obtains "nxt (h ! a) = (e, em)" "cas_next h a e em p m = (True, set_next h a (p, m))"
  | h' where "cas_next h a e em p m = (False, h')"
  by (cases "nxt (h ! a) = (e, em)") (simp_all add: cas_next_def mref_cas_def)

lemma l_ok_retry:
  assumes "call_ok hash h P c" "task_of (c_op c) = x"
  shows "l_ok hash h C P x (retry c)"
  using assms by (simp add: retry_def)

lemma retry_step:
  assumes "l_call pc = Some c" "pending pc = {}" "is_search pc" "l_ok hash (heap s) C P x (retry c)"
  shows "correct_step hash x C P s pc (s, retry c)"
proof (rule correct_stepI)
  show "list_step hash x C P s pc C P s (retry c)"
    using assms by (intro step_reads) (auto simp: retry_def owned_def)
  show "list_acts hash x C (heap s) pc C (heap s) (retry c)"
    using assms(3) by (intro acts_search) (simp_all add: is_search_def retry_def)
qed

lemma unlink_step:
  assumes inv: "list_inv hash root (heap s) C P" and ok: "l_ok hash (heap s) C P x (LUnlink c p a r)"
  shows "correct_step hash x C P s (LUnlink c p a r) (l_step hash d s (LUnlink c p a r))"
proof -
  let ?h = "heap s"
  have P: "p \<in> P" "a \<in> P" and a: "nxt (?h ! a) = (r, True)" and call: "call_ok hash ?h P c"
    and x: "task_of (c_op c) = x" and pred: "pred_ok hash ?h C P (c_op c) p"
    using ok by (auto simp: pred_ok_def)
  have len: "p < length ?h" using list_inv_less [OF inv P(1)] .
  show ?thesis
  proof (rule cas_next_cases [of ?h p "Some a" False r False])
    assume cas: "nxt (?h ! p) = (Some a, False)"
      "cas_next ?h p (Some a) False r False = (True, set_next ?h p (r, False))"
    from unlinks [OF inv P(1) cas(1) a] obtain us b vs where
      C: "C = us @ p # a # b # vs" "r = Some b" and
      ev: "evolves hash ?h C P {} (set_next ?h p (r, False)) (us @ p # b # vs) P" and
      el: "elements (set_next ?h p (r, False)) (us @ p # b # vs) = elements ?h C" and
      rest: "P - set (us @ p # b # vs) = insert a (P - set C)" "a \<notin> P - set C"
      "a \<notin> set (us @ p # b # vs)" "p \<noteq> a" .
    let ?h' = "set_next ?h p (r, False)" and ?C' = "us @ p # b # vs"
    have inv': "list_inv hash root ?h' ?C' P" by (rule evolves_inv [OF ev inv])
    have pred': "pred_ok hash ?h' ?C' P (c_op c) p" by (rule pred_ok_stable [OF ev inv pred])
    have "cur_ok hash ?h' ?C' P (c_op c) b"
      using pred' len by (intro cur_okI [OF inv', of p]) (auto simp: pred_ok_def nxt_set_next C)
    then have ok': "l_ok hash ?h' ?C' P x (LRetire c p a r)"
      using x P a rest C(2) pred' call_ok_stable [OF ev inv call] by simp
    have "list_step hash x C P s (LUnlink c p a r) ?C' P (s\<lparr>heap := ?h'\<rparr>) (LRetire c p a r)"
      unfolding list_step_def rest(1)
      using ev ok' tr_take [OF rest(2), of "retired s"]
      by (auto simp: owned_def intro: tr_keep)
    moreover have "list_acts hash x C ?h (LUnlink c p a r) ?C' ?h' (LRetire c p a r)"
    proof (rule acts_search)
      fix y q assume y: "scan_pos (LRetire c p a r) = Some q" "op_elem y \<in> elements ?h C"
        and hind: "\<And>b. scan_pos (LUnlink c p a r) = Some b \<Longrightarrow>
          hind ?h C (MakeOrdinaryKey hash (op_elem y)) (Some (op_elem y)) b"
      from y(2) have "op_elem y \<in> elements ?h' ?C'" by (simp only: el)
      then show "hind ?h' ?C' (MakeOrdinaryKey hash (op_elem y)) (Some (op_elem y)) q"
        using evolves_hind [OF ev inv op_target P(2) hind] y(1) elements_iff [OF inv'] by auto
    qed (simp_all add: is_search_def el)
    ultimately show ?thesis using cas(2) len by (auto intro: correct_stepI)
  next
    fix h' assume "cas_next ?h p (Some a) False r False = (False, h')"
    then show ?thesis
      using retry_step [of "LUnlink c p a r" c hash s C P x] l_ok_retry [OF call x] len
      by (simp add: is_search_def)
  qed
qed

lemma retire_step:
  assumes inv: "list_inv hash root (heap s) C P" and ok: "l_ok hash (heap s) C P x (LRetire c p a r)"
  shows "correct_step hash x C P s (LRetire c p a r) (l_step hash d s (LRetire c p a r))"
proof -
  from ok obtain b where r: "r = Some b" "cur_ok hash (heap s) C P (c_op c) b" by auto
  let ?s = "s\<lparr>retired := retired s @ [a]\<rparr>"
  have step: "l_step hash d s (LRetire c p a r) = (?s, LScan c p b)" by (simp add: r goto_def)
  have "list_step hash x C P s (LRetire c p a r) C P ?s (LScan c p b)"
    using ok r ev_same [of hash "heap s" C P] tr_book [of _ "retired s" a]
    by (auto simp: list_step_def owned_def intro: tr_keep)
  moreover have "list_acts hash x C (heap s) (LRetire c p a r) C (heap ?s) (LScan c p b)"
    using ok r by (intro acts_search) (auto simp: is_search_def intro: hind_step [where a = a])
  ultimately show ?thesis unfolding step by (rule correct_stepI)
qed

text \<open>Linking: nothing before the window matches, so the new node fits in between.\<close>

lemma before_new:
  assumes inv: "list_inv hash root h C P" and pred: "pred_ok hash h C P z p"
    and C: "C = us @ p # vs" and xs: "x \<in> set (us @ [p])"
    and n: "Matches (h ! n) (lop_key hash z) (lop_elem z)"
  shows "precedes (h ! x) (h ! n)"
proof -
  let ?k = "lop_key hash z"
  have nm: "\<not> Matches (h ! x) ?k (lop_elem z)"
    using pred free_uptoD [OF _ C xs, of h "lop_key hash z" "lop_elem z"] by (simp add: pred_ok_def)
  have "sorted_wrt (\<lambda>a b. precedes (h ! a) (h ! b)) C" using inv by (simp add: list_inv_def)
  then have "key (h ! x) \<le> key (h ! p)" using xs by (auto simp: C sorted_wrt_append dest: precedes_le)
  moreover have "key (h ! p) \<le> ?k" using pred by (simp add: pred_ok_def not_AtOrPast)
  ultimately have le: "key (h ! x) \<le> ?k" by simp
  have kn: "key (h ! n) = ?k" using n by (simp add: Matches_def)
  show ?thesis
  proof (cases "key (h ! x) = ?k")
    case True
    with nm obtain e where e: "lop_elem z = Some e" "elem (h ! x) \<noteq> e"
      by (auto simp: Matches_def split: option.splits)
    then have "?k = MakeOrdinaryKey hash e" by (cases z) auto
    with True e n kn show ?thesis
      by (auto simp: precedes_def Matches_def intro: ordinary_is_elem)
  next
    case False
    with le kn show ?thesis by (simp add: precedes_def)
  qed
qed

lemma links:
  assumes inv: "list_inv hash root h C P" and pred: "pred_ok hash h C P z p"
    and p: "nxt (h ! p) = (Some a, False)" and node: "node_ok hash h P z n"
    and n: "nxt (h ! n) = (Some a, False)" and after: "lop_key hash z < key (h ! a)"
  obtains us vs where "C = us @ p # a # vs"
    "evolves hash h C P {n} (set_next h p (Some n, False)) (us @ p # n # a # vs) (insert n P)"
    "elements (set_next h p (Some n, False)) (us @ p # n # a # vs) =
      (if is_elem (h ! n) then insert (elem (h ! n)) (elements h C) else elements h C)"
proof -
  have P: "p \<in> P" using pred by (simp add: pred_ok_def)
  have "p \<in> set C" using unmarked_in_chain [OF inv P] p by simp
  then obtain us ws where "C = us @ p # ws" by (auto simp: in_set_conv_decomp)
  with chain_next [OF list_inv_chain [OF inv] this] p obtain vs where C: "C = us @ p # a # vs" by auto
  from node have m: "n < length h" "n \<notin> P" "Matches (h ! n) (lop_key hash z) (lop_elem z)"
    by (simp_all add: node_ok_def)
  have ord: "key (h ! n) = MakeOrdinaryKey hash (elem (h ! n))" if "is_elem (h ! n)"
    using that m(3) by (cases z) (auto simp: Matches_def is_elem_def)
  show ?thesis
  proof (rule that [OF C])
    show "evolves hash h C P {n} (set_next h p (Some n, False)) (us @ p # n # a # vs) (insert n P)"
      using m after by (intro ev_link [OF C p _ _ n]) (auto simp: Matches_def ord intro: before_new [OF inv pred C])
    show "elements (set_next h p (Some n, False)) (us @ p # n # a # vs) =
      (if is_elem (h ! n) then insert (elem (h ! n)) (elements h C) else elements h C)"
      using m P by (intro elements_link [OF C p list_inv_less [OF inv P] n]) auto
  qed
qed

lemma absent_before_link:
  assumes ev: "evolves hash h C P w h' C' P'" and inv: "list_inv hash root h C P"
    and C': "set C' = insert n (set C)" and n: "n \<notin> P" "n < length h"
      "Matches (h ! n) (MakeOrdinaryKey hash e) (Some e)"
  shows "e \<notin> elements h C"
proof
  assume "e \<in> elements h C"
  then obtain m where m: "m \<in> set C" "Matches (h ! m) (MakeOrdinaryKey hash e) (Some e)"
    using elements_iff [OF inv] by blast
  have "m = n"
    using match_unique [OF evolves_inv [OF ev inv] op_target, of m e n] m n C'
      evolves_derived(1) [OF ev] list_inv_less [OF inv list_inv_subset [OF inv m(1)]] by auto
  with n(1) list_inv_subset [OF inv m(1)] show False by simp
qed

lemma insert_step:
  assumes inv: "list_inv hash root (heap s) C P" and ok: "l_ok hash (heap s) C P x (LInsert c p a n)"
  shows "correct_step hash x C P s (LInsert c p a n) (l_step hash d s (LInsert c p a n))"
proof -
  let ?h = "heap s"
  have call: "call_ok hash ?h P c" and pred: "pred_ok hash ?h C P (c_op c) p" and aP: "a \<in> P"
    and x: "task_of (c_op c) = x" and after: "lop_key hash (c_op c) < key (?h ! a)"
    and cn: "c_node c = Some n" and n: "nxt (?h ! n) = (Some a, False)"
    and noremove: "\<And>e. c_op c \<noteq> LRemove e" using ok by auto
  have node: "node_ok hash ?h P (c_op c) n" using call cn by (simp add: call_ok_def)
  then have m: "n < length ?h" "n \<notin> P" "Matches (?h ! n) (lop_key hash (c_op c)) (lop_elem (c_op c))"
    by (simp_all add: node_ok_def)
  have len: "p < length ?h" using pred list_inv_less [OF inv] by (simp add: pred_ok_def)
  show ?thesis
  proof (rule cas_next_cases [of ?h p "Some a" False "Some n" False])
    let ?h' = "set_next ?h p (Some n, False)"
    assume cas: "nxt (?h ! p) = (Some a, False)"
      "cas_next ?h p (Some a) False (Some n) False = (True, ?h')"
    from links [OF inv pred cas(1) node n after] obtain us vs where
      C: "C = us @ p # a # vs" and
      ev: "evolves hash ?h C P {n} ?h' (us @ p # n # a # vs) (insert n P)" and
      el: "elements ?h' (us @ p # n # a # vs) =
        (if is_elem (?h ! n) then insert (elem (?h ! n)) (elements ?h C) else elements ?h C)" .
    let ?C' = "us @ p # n # a # vs" and ?r = "case c_op c of LSentinel i \<Rightarrow> RSentinel n | _ \<Rightarrow> RBool True"
    have res: "res_ok ?h' (insert n P) x ?r"
      using x m noremove by (auto simp: res_ok_def Matches_def split: lop.split)
    have stock: "{..<length ?h'} - insert n P = {..<length ?h} - P - {n}" by auto
    have unlinked: "insert n P - set ?C' = P - set C" using m(2) by (auto simp: C)
    have "list_step hash x C P s (LInsert c p a n) ?C' (insert n P) (s\<lparr>heap := ?h'\<rparr>) (LRet ?r)"
      unfolding list_step_def unlinked using ev res cn
      by (auto simp: owned_def stock simp del: length_set_next intro: tr_give tr_keep)
    moreover have "list_acts hash x C ?h (LInsert c p a n) ?C' ?h' (LRet ?r)"
    proof (cases "c_op c")
      case (LAdd e)
      with x have y: "x = Inl (Add e)" by simp
      from LAdd m(3) have n': "is_elem (?h ! n)" "elem (?h ! n) = e"
        by (auto dest: Matches_elem)
      have "e \<notin> elements ?h C"
        using absent_before_link [OF ev inv _ m(2,1)] m(3) LAdd by (auto simp: C)
      then show ?thesis using el n' LAdd
        by (intro acts_update [OF _ y]) (auto simp: is_search_def updates_def list_status_def)
    next
      case (LSentinel i)
      with m(3) have "\<not> is_elem (?h ! n)" by (simp add: Matches_def is_elem_def)
      with LSentinel x el show ?thesis by (auto simp: list_acts_def)
    qed (use noremove in blast)
    ultimately show ?thesis using cas(2) len by (auto intro: correct_stepI)
  next
    fix h' assume "cas_next ?h p (Some a) False (Some n) False = (False, h')"
    then show ?thesis
      using retry_step [of "LInsert c p a n" c hash s C P x] l_ok_retry [OF call x] len
      by (simp add: is_search_def)
  qed
qed

lemma succ_step:
  assumes inv: "list_inv hash root (heap s) C P" and ok: "l_ok hash (heap s) C P x (LSucc c p a)"
  shows "correct_step hash x C P s (LSucc c p a) (l_step hash d s (LSucc c p a))"
proof -
  let ?pc = "LMark c p a (ref (heap s) a)"
  have "list_step hash x C P s (LSucc c p a) C P s ?pc"
    using ok by (intro step_reads) (auto simp: owned_def)
  moreover have "list_acts hash x C (heap s) (LSucc c p a) C (heap s) ?pc"
    by (intro acts_search) (simp_all add: is_search_def)
  moreover have "a < length (heap s)" using ok list_inv_less [OF inv] by auto
  ultimately show ?thesis by (auto intro: correct_stepI)
qed

lemma mark_step:
  assumes inv: "list_inv hash root (heap s) C P" and ok: "l_ok hash (heap s) C P x (LMark c p a r)"
  shows "correct_step hash x C P s (LMark c p a r) (l_step hash d s (LMark c p a r))"
proof -
  let ?h = "heap s"
  from ok obtain e where c: "c_op c = LRemove e" "c_node c = None" by (auto simp: call_ok_def)
  have y: "x = Inl (Remove e)" and P: "p \<in> P" "a \<in> P" and call: "call_ok hash ?h P c"
    and x: "task_of (c_op c) = x" and m: "Matches (?h ! a) (MakeOrdinaryKey hash e) (Some e)"
    using ok c by auto
  have len: "a < length ?h" using list_inv_less [OF inv P(2)] .
  note el = Matches_elem [OF m]
  show ?thesis
  proof (cases "nxt (?h ! a) = (r, False)")
    case True
    have C: "a \<in> set C" using unmarked_in_chain [OF inv P(2)] True by simp
    let ?h' = "set_next ?h a (r, True)"
    have here: "e \<in> elements ?h C" unfolding elements_iff [OF inv] using C True m by force
    have ev: "evolves hash ?h C P {} ?h' C P" by (rule ev_mark [OF C True el(1)])
    have elems: "elements ?h' C = elements ?h C - {e}"
      using elements_mark [OF inv C True el(1)] el(2) by simp
    have step: "l_step hash d s (LMark c p a r) = (s\<lparr>heap := ?h'\<rparr>, LDetach p a r)"
      using True len by (simp add: mref_attempt_mark_def mref_cas_def)
    have "list_step hash x C P s (LMark c p a r) C P (s\<lparr>heap := ?h'\<rparr>) (LDetach p a r)"
      using ev P c y len by (auto simp: list_step_def owned_def set_next_same intro: tr_keep)
    moreover have "list_acts hash x C ?h (LMark c p a r) C ?h' (LDetach p a r)"
      using here
      by (intro acts_update [OF _ y]) (auto simp: is_search_def updates_def list_status_def elems)
    ultimately show ?thesis unfolding step by (auto intro: correct_stepI)
  next
    case False
    then have "l_step hash d s (LMark c p a r) = (s, retry c)"
      using len by (simp add: mref_attempt_mark_def mref_cas_def)
    then show ?thesis
      using retry_step [of "LMark c p a r" c hash s C P x] l_ok_retry [OF call x]
      by (simp add: is_search_def)
  qed
qed

lemma detach_step:
  assumes inv: "list_inv hash root (heap s) C P" and ok: "l_ok hash (heap s) C P x (LDetach p a r)"
  shows "correct_step hash x C P s (LDetach p a r) (l_step hash d s (LDetach p a r))"
proof -
  let ?h = "heap s"
  from ok obtain e where y: "x = Inl (Remove e)" by auto
  have P: "p \<in> P" "a \<in> P" and a: "nxt (?h ! a) = (r, True)" using ok by auto
  have len: "p < length ?h" using list_inv_less [OF inv P(1)] .
  show ?thesis
  proof (rule cas_next_cases [of ?h p "Some a" False r False])
    assume cas: "nxt (?h ! p) = (Some a, False)"
      "cas_next ?h p (Some a) False r False = (True, set_next ?h p (r, False))"
    let ?h' = "set_next ?h p (r, False)"
    from unlinks [OF inv P(1) cas(1) a] obtain us b vs where
      ev: "evolves hash ?h C P {} ?h' (us @ p # b # vs) P" and
      el: "elements ?h' (us @ p # b # vs) = elements ?h C" and
      rest: "P - set (us @ p # b # vs) = insert a (P - set C)" "a \<notin> P - set C"
      "a \<notin> set (us @ p # b # vs)" "p \<noteq> a" .
    have "list_step hash x C P s (LDetach p a r) (us @ p # b # vs) P (s\<lparr>heap := ?h'\<rparr>) (LDispose a)"
      unfolding list_step_def rest(1) using ev y P rest(3) tr_take [OF rest(2), of "retired s"]
      by (auto simp: owned_def intro: tr_keep)
    moreover have "list_acts hash x C ?h (LDetach p a r) (us @ p # b # vs) ?h' (LDispose a)"
      by (rule acts_done) (simp_all add: is_search_def list_status_def el)
    ultimately show ?thesis using cas(2) len by (auto intro: correct_stepI)
  next
    fix h' assume "cas_next ?h p (Some a) False r False = (False, h')"
    moreover have "list_step hash x C P s (LDetach p a r) C P s (LRet (RBool True))"
      using y by (intro step_reads) (auto simp: owned_def res_ok_def)
    moreover have "list_acts hash x C ?h (LDetach p a r) C ?h (LRet (RBool True))"
      by (rule acts_done) (auto simp: is_search_def list_status_def)
    ultimately show ?thesis using len by (auto intro: correct_stepI)
  qed
qed

lemma dispose_step:
  assumes ok: "l_ok hash (heap s) C P x (LDispose a)"
  shows "correct_step hash x C P s (LDispose a) (l_step hash d s (LDispose a))"
proof -
  let ?s = "s\<lparr>retired := retired s @ [a]\<rparr>"
  have "list_step hash x C P s (LDispose a) C P ?s (LRet (RBool True))"
    using ok ev_same [of hash "heap s" C P] tr_book [of _ "retired s" a]
    by (auto simp: list_step_def owned_def res_ok_def intro: tr_keep)
  moreover have "list_acts hash x C (heap s) (LDispose a) C (heap ?s) (LRet (RBool True))"
    by (rule acts_done) (auto simp: is_search_def list_status_def)
  ultimately show ?thesis by (auto intro: correct_stepI)
qed

lemma look_step:
  assumes inv: "list_inv hash root (heap s) C P" and ok: "l_ok hash (heap s) C P x (LLook e a)"
  shows "correct_step hash x C P s (LLook e a) (l_step hash d s (LLook e a))"
proof -
  let ?h = "heap s" and ?k = "MakeOrdinaryKey hash e"
  have y: "x = Inl (Contains e)" and P: "a \<in> P" using ok by simp_all
  have len: "a < length ?h" using list_inv_less [OF inv P] .
  show ?thesis
  proof (cases "AtOrPast (?h ! a) ?k (Some e)")
    case True
    let ?b = "Matches (?h ! a) ?k (Some e) \<and> \<not> marked ?h a"
    have "list_acts hash x C ?h (LLook e a) C ?h (LRet (RBool ?b))"
    proof (rule acts_read [OF _ y])
      fix B assume B: "(op_elem (Contains e) \<in> elements ?h C) \<in> B"
        and hind: "\<And>b. scan_pos (LLook e a) = Some b \<Longrightarrow> False \<notin> B \<Longrightarrow>
          hind ?h C (MakeOrdinaryKey hash (op_elem (Contains e))) (Some (op_elem (Contains e))) b"
      have "?b \<in> B"
      proof (cases ?b)
        case b: True
        then have "e \<in> elements ?h C"
          using elements_iff [OF inv] unmarked_in_chain [OF inv P] by blast
        with B b show ?thesis by simp
      next
        case b: False
        then have "False \<in> B" using hind_not_past [OF _ inv P True] hind by fastforce
        with b show ?thesis by (simp only: b)
      qed
      then show "\<exists>b\<in>B. read_result (Contains e) b = Some ?b" by simp
    qed (simp_all add: is_search_def)
    moreover have "list_step hash x C P s (LLook e a) C P s (LRet (RBool ?b))"
      using y by (intro step_reads) (simp_all add: owned_def res_ok_def)
    moreover have "l_step hash d s (LLook e a) = (s, LRet (RBool ?b))"
      using True len by (simp add: Let_def)
    ultimately show ?thesis by (simp only: correct_stepI)
  next
    case False
    obtain b where b: "ref ?h a = Some b" "b \<in> P"
      using ref_not_null [OF inv P op_target False] by blast
    have "list_step hash x C P s (LLook e a) C P s (LLook e b)"
      using y b by (intro step_reads) (simp_all add: owned_def)
    moreover have "list_acts hash x C ?h (LLook e a) C ?h (LLook e b)"
    proof (rule acts_search)
      fix z q assume "x = Inl z" "scan_pos (LLook e b) = Some q" and
        hind: "\<And>b. scan_pos (LLook e a) = Some b \<Longrightarrow>
          hind ?h C (MakeOrdinaryKey hash (op_elem z)) (Some (op_elem z)) b"
      then have "op_elem z = e" "q = b" using y by auto
      with hind_step [OF hind, of a b] b False
      show "hind ?h C (MakeOrdinaryKey hash (op_elem z)) (Some (op_elem z)) q"
        by (auto simp: AtOrPast_def)
    qed (simp_all add: is_search_def)
    ultimately show ?thesis using b len False by (auto simp: goto_def intro: correct_stepI)
  qed
qed

lemma ret_step:
  assumes "l_ok hash (heap s) C P x (LRet r)"
  shows "correct_step hash x C P s (LRet r) (s, LRet r)"
proof -
  have "list_step hash x C P s (LRet r) C P s (LRet r)"
    using assms by (intro step_reads) simp_all
  moreover have "list_acts hash x C (heap s) (LRet r) C (heap s) (LRet r)"
    by (rule acts_done) (simp_all add: is_search_def)
  ultimately show ?thesis by (rule correct_stepI)
qed

text \<open>All of them together.\<close>

lemma l_step_correct:
  assumes "list_inv hash root (heap s) C P" "l_ok hash (heap s) C P x pc"
  shows "correct_step hash x C P s pc (l_step hash d s pc)"
  using assms
  by (cases pc)
    (simp_all only: find_step scan_step unlink_step retire_step insert_step succ_step mark_step
      detach_step dispose_step look_step, simp_all add: ret_step)

end
