(* ===== verification/SizeCount.thy ===== *)
theory SizeCount
  imports Linearizability
begin

text \<open>
  The counter \<open>set_size_\<close> of a concurrent set is updated after the set itself. At every moment it is
  off the number of elements by the weights of the successful updates it does not count yet, in
  wrapping arithmetic.
\<close>

primrec weight :: "'a op \<Rightarrow> size_t" where
  "weight (Add e) = 1"
| "weight (Remove e) = - 1"
| "weight (Contains e) = 0"

definition sum_all :: "(tid \<Rightarrow> size_t) \<Rightarrow> size_t" where
  "sum_all f = (\<Sum>t | f t \<noteq> 0. f t)"

definition counted :: "size_t \<Rightarrow> (tid \<Rightarrow> size_t) \<Rightarrow> 'a set \<Rightarrow> bool" where
  "counted sz f A \<longleftrightarrow> finite {t. f t \<noteq> 0} \<and> sz + sum_all f = of_nat (card A)"

lemma sum_all_superset: "finite S \<Longrightarrow> {t. f t \<noteq> 0} \<subseteq> S \<Longrightarrow> sum_all f = sum f S"
  unfolding sum_all_def by (rule sum.mono_neutral_left) auto

lemma sum_all_upd:
  assumes "finite {t. f t \<noteq> 0}"
  shows "finite {u. (f(t := v)) u \<noteq> 0} \<and> sum_all (f(t := v)) = sum_all f - f t + v"
proof -
  let ?S = "insert t {u. f u \<noteq> 0}"
  have fin: "finite ?S" using assms by simp
  have sub: "{u. (f(t := v)) u \<noteq> 0} \<subseteq> ?S" by auto
  have "sum_all (f(t := v)) = sum (f(t := v)) ?S" by (rule sum_all_superset [OF fin sub])
  also have "\<dots> = v + sum (f(t := v)) (?S - {t})" using fin by (subst sum.remove [of _ t]) auto
  also have "sum (f(t := v)) (?S - {t}) = sum f (?S - {t})" by (rule sum.cong) auto
  also have "\<dots> = sum f ?S - f t" using fin by (subst sum.remove [of ?S t]) auto
  also have "sum f ?S = sum_all f" by (rule sum_all_superset [OF fin, symmetric]) auto
  finally have "sum_all (f(t := v)) = v + (sum_all f - f t)" .
  moreover have "finite {u. (f(t := v)) u \<noteq> 0}" by (rule finite_subset [OF sub fin])
  ultimately show ?thesis by (simp only: algebra_simps)
qed

lemma counted_step:
  assumes "counted sz f A" "sz' + v - of_nat (card A') = sz + f t - of_nat (card A)"
  shows "counted sz' (f(t := v)) A'"
proof -
  have all: "sz + sum_all f = of_nat (card A)" and fin: "finite {u. f u \<noteq> 0}"
    using assms(1) by (simp_all add: counted_def)
  have "sz' + sum_all (f(t := v)) = (sz' + v - of_nat (card A')) + sum_all f - f t + of_nat (card A')"
    using sum_all_upd [OF fin, of t v] by (simp add: algebra_simps del: fun_upd_apply)
  also have "\<dots> = of_nat (card A')" unfolding assms(2) all [symmetric] by simp
  finally show ?thesis using sum_all_upd [OF fin, of t v] by (simp add: counted_def del: fun_upd_apply)
qed

lemma observe_IDone [simp]: "observe A st = IDone b \<longleftrightarrow> st = IDone b"
  by (cases st) auto

lemma updates_weight:
  assumes "updates x A" "finite A"
  shows "of_nat (card (snd (apply_op x A))) = of_nat (card A) + weight x"
proof (cases x)
  case (Add e)
  with assms have "e \<notin> A" by (simp add: updates_def split: if_splits)
  with Add assms(2) show ?thesis by simp
next
  case (Remove e)
  with assms have "e \<in> A" by (simp add: updates_def split: if_splits)
  from of_nat_card_remove [OF assms(2) this]
  show ?thesis by (simp only: Remove apply_op.simps snd_conv weight.simps diff_conv_add_uminus)
next
  case (Contains e)
  with assms show ?thesis by simp
qed

lemma read_weight: "read_result x b = Some True \<Longrightarrow> weight x = 0"
  by (cases x) (simp_all split: if_splits)

end
