(* ===== verification/LockFreeCorrect.thy ===== *)
theory LockFreeCorrect
  imports HashSetLockFree ListCorrect SizeCount
begin

text \<open>
  The lock-free set is linearizable. The invariant of the shared state is the list's, with a table
  whose entries are the published sentinels of their buckets; a thread's program counter carries
  what it knows (\<open>h_ok\<close>) and how far its operation is in the interval object (\<open>h_status\<close>); the
  books say who holds each node and which successful updates \<open>set_size_\<close> does not count yet.
\<close>

section \<open>The invariant\<close>

definition root :: addr where
  "root = 1"

definition table_ok :: "'a lockfree \<Rightarrow> addr set \<Rightarrow> bool" where
  "table_ok s P \<longleftrightarrow>
     valid_capacity (lf_max_capacity s) \<and> valid_capacity (lf_capacity s) \<and>
     lf_capacity s \<le> lf_max_capacity s \<and>
     length (lf_buckets s) = unat (lf_max_capacity s) \<and>
     lf_buckets s ! 0 = Some root \<and>
     (\<forall>i < length (lf_buckets s). \<forall>a \<in> set_option (lf_buckets s ! i).
        a \<in> P \<and> key (heap (lf_list s) ! a) = MakeSentinelKey (of_nat i))"

fun frames_ok :: "('a \<Rightarrow> size_t) \<Rightarrow> 'a op \<Rightarrow> size_t \<Rightarrow> size_t \<Rightarrow> size_t list \<Rightarrow> bool" where
  "frames_ok hash x m i [] \<longleftrightarrow> (\<exists>c. valid_capacity c \<and> i = hash (op_elem x) mod c)"
| "frames_ok hash x m i (j # js) \<longleftrightarrow>
     i = GetParentIndex j \<and> j \<noteq> 0 \<and> j < m \<and> frames_ok hash x m j js"

fun h_ok ::
    "('a \<Rightarrow> size_t) \<Rightarrow> size_t \<Rightarrow> 'a node list \<Rightarrow> addr list \<Rightarrow> addr set \<Rightarrow> 'a hpc \<Rightarrow> bool" where
  "h_ok hash m h C P (HBucket x i js) \<longleftrightarrow> i < m \<and> frames_ok hash x m i js"
| "h_ok hash m h C P (HSentinel x i js pc) \<longleftrightarrow>
     i \<noteq> 0 \<and> i < m \<and> frames_ok hash x m i js \<and> l_ok hash h C P (Inr i) pc"
| "h_ok hash m h C P (HList x pc) \<longleftrightarrow> l_ok hash h C P (Inl x) pc"
| "h_ok hash m h C P (HResizeCas c) \<longleftrightarrow> c < m"
| "h_ok hash m h C P HUndef \<longleftrightarrow> False"
| "h_ok hash m h C P pc \<longleftrightarrow> True"

fun h_status ::
    "('a \<Rightarrow> size_t) \<Rightarrow> 'a node list \<Rightarrow> addr list \<Rightarrow> 'a hpc \<Rightarrow> 'a i_status \<Rightarrow> bool" where
  "h_status hash h C HIdle st \<longleftrightarrow> st = IIdle"
| "h_status hash h C (HCapacity x) st \<longleftrightarrow> pending_at hash h C x None st"
| "h_status hash h C (HBucket x i js) st \<longleftrightarrow> pending_at hash h C x None st"
| "h_status hash h C (HSentinel x i js pc) st \<longleftrightarrow> pending_at hash h C x None st"
| "h_status hash h C (HList x pc) st \<longleftrightarrow> list_status hash h C x pc st"
| "h_status hash h C HResizeCap st \<longleftrightarrow> st = IDone True"
| "h_status hash h C (HResizeSize c) st \<longleftrightarrow> st = IDone True"
| "h_status hash h C (HResizeCas c) st \<longleftrightarrow> st = IDone True"
| "h_status hash h C (HRet r) st \<longleftrightarrow> st = IDone r"
| "h_status hash h C HUndef st \<longleftrightarrow> False"

fun list_pc :: "'a hpc \<Rightarrow> 'a lpc option" where
  "list_pc (HSentinel x i js pc) = Some pc"
| "list_pc (HList x pc) = Some pc"
| "list_pc pc = None"

definition h_owned :: "'a hpc \<Rightarrow> addr set" where
  "h_owned pc = (case list_pc pc of None \<Rightarrow> {} | Some p \<Rightarrow> owned p)"

definition h_pending :: "'a hpc \<Rightarrow> addr set" where
  "h_pending pc = (case list_pc pc of None \<Rightarrow> {} | Some p \<Rightarrow> pending p)"

text \<open>The successful updates \<open>set_size_\<close> does not count yet.\<close>

definition due :: "'a hpc \<Rightarrow> 'a i_status \<Rightarrow> size_t" where
  "due pc st = (case pc of HList x p \<Rightarrow> if st = IDone True then weight x else 0 | _ \<Rightarrow> 0)"

text \<open>The relation between a state of the program and a state of the interval object.\<close>

definition lf_sim_at ::
    "('a \<Rightarrow> size_t) \<Rightarrow> addr list \<Rightarrow> addr set \<Rightarrow> ('a lockfree, 'a hpc) sys \<Rightarrow> 'a interval \<Rightarrow> bool" where
  "lf_sim_at hash C P s i \<longleftrightarrow>
     (let l = lf_list (shared s); h = heap l in
        list_inv hash root h C P \<and> table_ok (shared s) P \<and> i_set i = elements h C \<and>
        balanced ({..<length h} - P) (deleted l) (\<lambda>t. h_owned (pcs s t)) \<and>
        balanced (P - set C) (retired l) (\<lambda>t. h_pending (pcs s t)) \<and>
        (\<forall>t. h_ok hash (lf_max_capacity (shared s)) h C P (pcs s t) \<and>
             h_status hash h C (pcs s t) (i_status i t)) \<and>
        counted (lf_set_size (shared s)) (\<lambda>t. due (pcs s t) (i_status i t)) (i_set i))"

definition lf_sim :: "('a \<Rightarrow> size_t) \<Rightarrow> ('a lockfree, 'a hpc) sys \<Rightarrow> 'a interval \<Rightarrow> bool" where
  "lf_sim hash s i \<longleftrightarrow> (\<exists>C P. lf_sim_at hash C P s i)"

section \<open>Counting\<close>

lemma due_observe [simp]: "due pc (observe A st) = due pc st"
  by (simp add: due_def split: hpc.split)

lemma acts_due:
  assumes "acts A st A' st'" "finite A" "\<And>z B. st = IPending z B \<Longrightarrow> z = x"
  shows "due (HList x pc') st' - of_nat (card A') = due (HList x pc) st - of_nat (card A)"
  using assms(1)
proof cases
  case act_quiet
  then show ?thesis by (simp add: due_def)
next
  case (act_update y B)
  with assms(3) have "y = x" by blast
  with act_update updates_weight [OF _ assms(2)] show ?thesis by (simp add: due_def)
next
  case (act_read b B y r)
  with assms(3) have "y = x" by blast
  with act_read read_weight show ?thesis by (cases r) (auto simp: due_def)
qed

section \<open>The step of one thread and all the others\<close>

definition h_move ::
    "('a \<Rightarrow> size_t) \<Rightarrow> addr list \<Rightarrow> addr set \<Rightarrow> 'a lockfree \<Rightarrow> 'a hpc \<Rightarrow>
     addr list \<Rightarrow> addr set \<Rightarrow> 'a lockfree \<Rightarrow> 'a hpc \<Rightarrow> bool" where
  "h_move hash C P sh pc C' P' sh' pc' \<longleftrightarrow>
     (let l = lf_list sh; l' = lf_list sh' in
        (\<exists>w. w \<subseteq> h_owned pc \<and> evolves hash (heap l) C P w (heap l') C' P') \<and>
        table_ok sh' P' \<and> lf_max_capacity sh' = lf_max_capacity sh \<and>
        h_ok hash (lf_max_capacity sh) (heap l') C' P' pc' \<and>
        transfer ({..<length (heap l)} - P) (deleted l) (h_owned pc)
          ({..<length (heap l')} - P') (deleted l') (h_owned pc') \<and>
        transfer (P - set C) (retired l) (h_pending pc) (P' - set C') (retired l') (h_pending pc'))"

definition h_acts ::
    "('a \<Rightarrow> size_t) \<Rightarrow> addr list \<Rightarrow> 'a lockfree \<Rightarrow> 'a hpc \<Rightarrow>
     addr list \<Rightarrow> 'a lockfree \<Rightarrow> 'a hpc \<Rightarrow> bool" where
  "h_acts hash C sh pc C' sh' pc' \<longleftrightarrow>
     (let A = elements (heap (lf_list sh)) C; A' = elements (heap (lf_list sh')) C' in
        \<forall>st. h_status hash (heap (lf_list sh)) C pc st \<longrightarrow>
          (\<exists>st'. acts A st A' st' \<and> h_status hash (heap (lf_list sh')) C' pc' st' \<and>
             lf_set_size sh' + due pc' st' - of_nat (card A') =
             lf_set_size sh + due pc st - of_nat (card A)))"

lemma h_ok_stable:
  assumes ev: "evolves hash h C P w h' C' P'" and inv: "list_inv hash root h C P"
    and ok: "h_ok hash m h C P pc" and w: "h_owned pc \<inter> w = {}"
  shows "h_ok hash m h' C' P' pc"
  using ok w l_ok_stable [OF ev inv]
  by (cases "(hash, m, h, C, P, pc)" rule: h_ok.cases) (auto simp: h_owned_def)

lemma h_status_stable:
  assumes "evolves hash h C P w h' C' P'" "list_inv hash root h C P" "h_ok hash m h C P pc"
    and "h_status hash h C pc st"
  shows "h_status hash h' C' pc (observe (elements h' C') st)"
  using assms(3,4) pending_at_stable [OF assms(1,2), of _ None st]
    list_status_stable [OF assms(1,2)]
  by (cases pc) auto

lemma h_status_current: "h_status hash h C pc st \<Longrightarrow> current (elements h C) st"
  by (cases pc) (auto simp: list_status_current pending_at_def)

lemma lf_sim_thread:
  assumes sim: "lf_sim_at hash C P s i"
    and move: "h_move hash C P (shared s) (pcs s t) C' P' sh' pc'"
    and acts: "h_acts hash C (shared s) (pcs s t) C' sh' pc'"
  shows "\<exists>i'. interval_run i [] i' \<and>
    lf_sim_at hash C' P' (s\<lparr>shared := sh', pcs := (pcs s)(t := pc')\<rparr>) i'"
proof -
  let ?l = "lf_list (shared s)" and ?l' = "lf_list sh'"
  let ?A = "elements (heap ?l) C" and ?A' = "elements (heap ?l') C'"
  from sim have inv: "list_inv hash root (heap ?l) C P" and A: "i_set i = ?A"
    and owned: "balanced ({..<length (heap ?l)} - P) (deleted ?l) (\<lambda>t. h_owned (pcs s t))"
    and pend: "balanced (P - set C) (retired ?l) (\<lambda>t. h_pending (pcs s t))"
    and ok: "\<And>u. h_ok hash (lf_max_capacity (shared s)) (heap ?l) C P (pcs s u)"
    and status: "\<And>u. h_status hash (heap ?l) C (pcs s u) (i_status i u)"
    and cnt0: "counted (lf_set_size (shared s)) (\<lambda>u. due (pcs s u) (i_status i u)) (i_set i)"
    unfolding lf_sim_at_def Let_def by blast+
  note cnt = cnt0 [unfolded A]
  from move obtain w where w: "w \<subseteq> h_owned (pcs s t)"
    and ev: "evolves hash (heap ?l) C P w (heap ?l') C' P'"
    by (auto simp: h_move_def Let_def)
  from acts status [of t] obtain st' where st': "acts ?A (i_status i t) ?A' st'"
      "h_status hash (heap ?l') C' pc' st'"
      "lf_set_size sh' + due pc' st' - of_nat (card ?A') =
       lf_set_size (shared s) + due (pcs s t) (i_status i t) - of_nat (card ?A)"
    unfolding h_acts_def Let_def by blast
  let ?i = "i\<lparr>i_set := ?A', i_status := (\<lambda>u. observe ?A' (i_status i u))(t := st')\<rparr>"
  let ?s = "s\<lparr>shared := sh', pcs := (pcs s)(t := pc')\<rparr>"
  have run: "interval_run i [] ?i"
    by (rule acts_run) (use st'(1) A h_status_current [OF status] in auto)
  have disj: "h_owned (pcs s u) \<inter> w = {}" if "u \<noteq> t" for u
    using w balanced_held(3) [OF owned] that by blast
  have oks: "h_ok hash (lf_max_capacity sh') (heap ?l') C' P' (pcs ?s u)" for u
    using move h_ok_stable [OF ev inv ok disj] by (auto simp: h_move_def Let_def)
  have stats: "h_status hash (heap ?l') C' (pcs ?s u) (i_status ?i u)" for u
    using h_status_stable [OF ev inv ok status] st'(2) by auto
  have pcs: "(\<lambda>u. f (pcs ?s u)) = (\<lambda>u. f (pcs s u))(t := f pc')" for f :: "'a hpc \<Rightarrow> addr set"
    by (rule ext) simp
  have dues: "(\<lambda>u. due (pcs ?s u) (i_status ?i u)) =
      (\<lambda>u. due (pcs s u) (i_status i u))(t := due pc' st')" by (rule ext) simp
  have owned': "balanced ({..<length (heap ?l')} - P') (deleted ?l') (\<lambda>u. h_owned (pcs ?s u))"
    unfolding pcs by (rule balanced_transfer [OF _ owned refl])
      (use move in \<open>simp add: h_move_def Let_def\<close>)
  have pend': "balanced (P' - set C') (retired ?l') (\<lambda>u. h_pending (pcs ?s u))"
    unfolding pcs by (rule balanced_transfer [OF _ pend refl])
      (use move in \<open>simp add: h_move_def Let_def\<close>)
  have cnt': "counted (lf_set_size sh') (\<lambda>u. due (pcs ?s u) (i_status ?i u)) ?A'"
    unfolding dues by (rule counted_step [OF cnt st'(3)])
  have "lf_sim_at hash C' P' ?s ?i"
    using evolves_inv [OF ev inv] move oks stats owned' pend' cnt'
    by (simp add: lf_sim_at_def Let_def h_move_def)
  with run show ?thesis by blast
qed

text \<open>Calls and returns.\<close>

lemma lf_sim_relabel:
  assumes sim: "lf_sim_at hash C P s i"
    and ok: "h_ok hash (lf_max_capacity (shared s)) (heap (lf_list (shared s))) C P pc'"
      "h_status hash (heap (lf_list (shared s))) C pc' st'"
    and held: "h_owned pc' = h_owned (pcs s t)" "h_pending pc' = h_pending (pcs s t)"
    and due: "due pc' st' = due (pcs s t) (i_status i t)"
  shows "lf_sim_at hash C P (s\<lparr>pcs := (pcs s)(t := pc')\<rparr>) (i\<lparr>i_status := (i_status i)(t := st')\<rparr>)"
proof -
  have "(\<lambda>u. h_owned (((pcs s)(t := pc')) u)) = (\<lambda>u. h_owned (pcs s u))"
    "(\<lambda>u. h_pending (((pcs s)(t := pc')) u)) = (\<lambda>u. h_pending (pcs s u))"
    "(\<lambda>u. due (((pcs s)(t := pc')) u) (((i_status i)(t := st')) u)) = (\<lambda>u. due (pcs s u) (i_status i u))"
    using held due by (auto simp: fun_eq_iff)
  with sim ok show ?thesis by (auto simp: lf_sim_at_def Let_def)
qed

lemma lf_sim_call:
  assumes sim: "lf_sim_at hash C P s i" and pc: "pcs s t = HIdle"
  shows "\<exists>i'. interval_run i [Call t x] i' \<and>
    lf_sim_at hash C P (s\<lparr>pcs := (pcs s)(t := HCapacity x)\<rparr>) i'"
proof -
  let ?st = "IPending x {op_elem x \<in> i_set i}"
  have st: "i_status i t = IIdle" and A: "i_set i = elements (heap (lf_list (shared s))) C"
    using sim pc unfolding lf_sim_at_def Let_def by (metis h_status.simps(1), blast)
  have "interval_run i [Call t x] (i\<lparr>i_status := (i_status i)(t := ?st)\<rparr>)"
    using interval_one [OF i_call [OF st]] by simp
  moreover have "lf_sim_at hash C P (s\<lparr>pcs := (pcs s)(t := HCapacity x)\<rparr>)
      (i\<lparr>i_status := (i_status i)(t := ?st)\<rparr>)"
    by (rule lf_sim_relabel [OF sim])
      (simp_all add: pc A pending_at_def h_owned_def h_pending_def due_def)
  ultimately show ?thesis by blast
qed

lemma lf_sim_return:
  assumes sim: "lf_sim_at hash C P s i" and pc: "pcs s t = HRet r"
  shows "\<exists>i'. interval_run i [Return t r] i' \<and>
    lf_sim_at hash C P (s\<lparr>pcs := (pcs s)(t := HIdle)\<rparr>) i'"
proof -
  have st: "i_status i t = IDone r"
    using sim pc unfolding lf_sim_at_def Let_def by (metis h_status.simps(9))
  have "interval_run i [Return t r] (i\<lparr>i_status := (i_status i)(t := IIdle)\<rparr>)"
    using interval_one [OF i_return [OF st]] by simp
  moreover have "lf_sim_at hash C P (s\<lparr>pcs := (pcs s)(t := HIdle)\<rparr>)
      (i\<lparr>i_status := (i_status i)(t := IIdle)\<rparr>)"
    by (rule lf_sim_relabel [OF sim])
      (simp_all add: pc h_owned_def h_pending_def due_def)
  ultimately show ?thesis by blast
qed

section \<open>Every step\<close>

lemma valid_less_max: "valid_capacity m \<Longrightarrow> i < m \<Longrightarrow> i < kMaxBuckets"
proof -
  assume "valid_capacity m" "i < m"
  then obtain k where k: "k \<le> 62" "unat i < 2 ^ k"
    by (auto simp: word_less_nat_alt valid_capacity_def)
  then have "(2::nat) ^ k \<le> 2 ^ 62" by (intro power_increasing) simp_all
  with k(2) show "i < kMaxBuckets" by (simp add: word_less_nat_alt kMaxBuckets_eq)
qed

lemma list_status_start:
  assumes inv: "list_inv hash root h C P" and at: "pending_at hash h C x None st"
    and a: "a \<in> P" "\<not> bit (key (h ! a)) 0" "key (h ! a) < MakeOrdinaryKey hash (op_elem x)"
  shows "list_status hash h C x (l_start x a) st"
proof (cases x)
  case (Contains e)
  from at obtain B where B: "st = IPending x B" "(e \<in> elements h C) \<in> B"
    using Contains by (auto simp: pending_at_def)
  have "hind h C (MakeOrdinaryKey hash e) (Some e) a" if "False \<notin> B"
  proof -
    have "e \<in> elements h C" using B(2) that by metis
    then show ?thesis
      using present_hind [OF inv] sentinel_in_chain [OF inv a(1,2)] a(3) Contains by simp
  qed
  with B Contains show ?thesis by (auto simp: l_start_def list_status_def pending_at_def)
qed (use at in \<open>simp_all add: l_start_def l_find_def list_status_def\<close>)

lemma bucket_found_ok:
  assumes inv: "list_inv hash root (heap l) C P" and m: "valid_capacity m" "i < m"
    and a: "a \<in> P" "key (heap l ! a) = MakeSentinelKey i" and fr: "frames_ok hash x m i js"
  shows "h_ok hash m (heap l) C P (bucket_found x js a l)" "h_owned (bucket_found x js a l) = {}"
    "h_pending (bucket_found x js a l) = {}"
    "pending_at hash (heap l) C x None st \<Longrightarrow> h_status hash (heap l) C (bucket_found x js a l) st"
    "pending_at hash (heap l) C x None st \<Longrightarrow> due (bucket_found x js a l) st = 0"
proof -
  have len: "a < length (heap l)" by (rule list_inv_less [OF inv a(1)])
  have "h_ok hash m (heap l) C P (bucket_found x js a l) \<and> h_owned (bucket_found x js a l) = {} \<and>
    h_pending (bucket_found x js a l) = {} \<and>
    (pending_at hash (heap l) C x None st \<longrightarrow>
      h_status hash (heap l) C (bucket_found x js a l) st \<and> due (bucket_found x js a l) st = 0)"
  proof (cases js)
    case Nil
    with fr a(2) have less: "key (heap l ! a) < MakeOrdinaryKey hash (op_elem x)"
      by (auto simp: bucket_before_element)
    have "h_ok hash m (heap l) C P (bucket_found x js a l)" "h_owned (bucket_found x js a l) = {}"
      "h_pending (bucket_found x js a l) = {}"
      using Nil a less
      by (cases x; simp add: bucket_found_def l_start_def l_find_def call_ok_def h_owned_def owned_def h_pending_def)+
    with Nil list_status_start [OF inv _ a(1) _ less] a(2) show ?thesis
      by (auto simp: bucket_found_def due_def pending_at_def)
  next
    case (Cons j js')
    with fr have j: "j \<noteq> 0" "j < m" "i = GetParentIndex j" "frames_ok hash x m j js'" by auto
    have less: "MakeSentinelKey i < MakeSentinelKey j"
      using parent_before [OF j(1) valid_less_max [OF m(1) j(2)]] j(3) by simp
    then have "SentinelFor l a j = l_find (LSentinel j) a"
      using len a(2) by (auto simp: SentinelFor_def Let_def)
    with Cons j a less show ?thesis
      by (simp add: bucket_found_def l_find_def call_ok_def h_owned_def owned_def h_pending_def due_def)
  qed
  then show "h_ok hash m (heap l) C P (bucket_found x js a l)" "h_owned (bucket_found x js a l) = {}"
    "h_pending (bucket_found x js a l) = {}"
    "pending_at hash (heap l) C x None st \<Longrightarrow> h_status hash (heap l) C (bucket_found x js a l) st"
    "pending_at hash (heap l) C x None st \<Longrightarrow> due (bucket_found x js a l) st = 0"
    by blast+
qed

text \<open>Steps that leave the list alone.\<close>

definition lf_goes :: "('a \<Rightarrow> size_t) \<Rightarrow> addr list \<Rightarrow> addr set \<Rightarrow> 'a lockfree \<Rightarrow> 'a hpc \<Rightarrow> 'a lockfree \<times> 'a hpc \<Rightarrow> bool"
  where
  "lf_goes hash C P s pc r \<longleftrightarrow>
     (\<exists>C' P'. h_move hash C P s pc C' P' (fst r) (snd r) \<and> h_acts hash C s pc C' (fst r) (snd r))"

lemma lf_goesI:
  "h_move hash C P s pc C' P' s' pc' \<Longrightarrow> h_acts hash C s pc C' s' pc' \<Longrightarrow> lf_goes hash C P s pc (s', pc')"
  by (auto simp: lf_goes_def)

lemma lf_goes_table:
  assumes "lf_list s' = lf_list s" "table_ok s' P" "lf_max_capacity s' = lf_max_capacity s"
    and "h_ok hash (lf_max_capacity s) (heap (lf_list s)) C P pc'"
    and "h_owned pc = {}" "h_owned pc' = {}" "h_pending pc = {}" "h_pending pc' = {}"
    and "\<And>st. h_status hash (heap (lf_list s)) C pc st \<Longrightarrow>
      h_status hash (heap (lf_list s)) C pc' st \<and>
      lf_set_size s' + due pc' st = lf_set_size s + due pc st"
  shows "lf_goes hash C P s pc (s', pc')"
proof (rule lf_goesI)
  show "h_move hash C P s pc C P s' pc'"
    using assms ev_same [of hash "heap (lf_list s)" C P]
    by (auto simp: h_move_def Let_def intro: tr_keep)
  show "h_acts hash C s pc C s' pc'"
    using assms act_quiet by (fastforce simp: h_acts_def Let_def)
qed

lemma table_entry:
  assumes "table_ok s P" "i < lf_max_capacity s" "lf_buckets s ! unat i = Some a"
  shows "a \<in> P" "key (heap (lf_list s) ! a) = MakeSentinelKey i"
proof -
  have "unat i < length (lf_buckets s)" using assms(1,2) by (simp add: table_ok_def word_less_nat_alt)
  with assms(1,3) have "a \<in> P \<and> key (heap (lf_list s) ! a) = MakeSentinelKey (of_nat (unat i))"
    unfolding table_ok_def by (metis option.set_intros)
  then show "a \<in> P" "key (heap (lf_list s) ! a) = MakeSentinelKey i" by simp_all
qed

lemma frames_mod:
  assumes "table_ok s P"
  shows "hash (op_elem x) mod lf_capacity s < lf_max_capacity s"
    "frames_ok hash x (lf_max_capacity s) (hash (op_elem x) mod lf_capacity s) []" "lf_capacity s \<noteq> 0"
proof -
  have c: "valid_capacity (lf_capacity s)" "lf_capacity s \<le> lf_max_capacity s"
    using assms by (simp_all add: table_ok_def)
  then show ne: "lf_capacity s \<noteq> 0" by (auto simp: valid_capacity_def)
  have "hash (op_elem x) mod lf_capacity s < lf_capacity s"
    using ne by (simp add: word_mod_less_divisor word_neq_0_conv)
  with c(2) show "hash (op_elem x) mod lf_capacity s < lf_max_capacity s" by simp
  show "frames_ok hash x (lf_max_capacity s) (hash (op_elem x) mod lf_capacity s) []"
    using c(1) by auto
qed

text \<open>Steps inside the list.\<close>

definition running :: "'a lpc \<Rightarrow> bool" where
  "running pc = (case pc of LRet r \<Rightarrow> False | LUndef \<Rightarrow> False | _ \<Rightarrow> True)"

lemma lf_step_running:
  assumes "running pc" "l_step hash d (lf_list s) pc = (l, pc')"
  shows "lf_step hash d s (HSentinel x i js pc) = Some (s\<lparr>lf_list := l\<rparr>, HSentinel x i js pc')"
    "lf_step hash d s (HList x pc) = Some (s\<lparr>lf_list := l\<rparr>, HList x pc')"
  using assms by (cases pc; simp add: running_def)+

lemma table_ok_list:
  assumes "table_ok s P" "evolves hash (heap (lf_list s)) C P w (heap l) C' P'"
    and "list_inv hash root (heap (lf_list s)) C P"
  shows "table_ok (s\<lparr>lf_list := l\<rparr>) P'"
  using assms(1) evolves_const [OF assms(2) list_inv_less [OF assms(3)]] evolves_published [OF assms(2)]
  by (auto simp: table_ok_def)

lemma list_moves:
  assumes "list_step hash x C P (lf_list s) pc C' P' l pc'"
    and "table_ok s P" "list_inv hash root (heap (lf_list s)) C P"
    and "list_pc hpc = Some pc" "list_pc hpc' = Some pc'"
    and "h_ok hash (lf_max_capacity s) (heap l) C' P' hpc'"
  shows "h_move hash C P s hpc C' P' (s\<lparr>lf_list := l\<rparr>) hpc'"
  using assms(1,4-6) table_ok_list [OF assms(2) _ assms(3)]
  by (fastforce simp: list_step_def h_move_def Let_def h_owned_def h_pending_def)

lemma sentinel_running:
  assumes tab: "table_ok s P" and inv: "list_inv hash root (heap (lf_list s)) C P"
    and ok: "h_ok hash (lf_max_capacity s) (heap (lf_list s)) C P (HSentinel x i js pc)"
    and l: "l_step hash d (lf_list s) pc = (l, pc')"
  shows "lf_goes hash C P s (HSentinel x i js pc) (s\<lparr>lf_list := l\<rparr>, HSentinel x i js pc')"
proof -
  from ok have "l_ok hash (heap (lf_list s)) C P (Inr i) pc" by simp
  from l_step_correct [OF inv this, of d] obtain C' P' where
    st: "list_step hash (Inr i) C P (lf_list s) pc C' P' l pc'" and
    ac: "list_acts hash (Inr i) C (heap (lf_list s)) pc C' (heap l) pc'"
    unfolding correct_step_def l by auto
  from ac have el: "elements (heap l) C' = elements (heap (lf_list s)) C" by (simp add: list_acts_def)
  have "h_move hash C P s (HSentinel x i js pc) C' P' (s\<lparr>lf_list := l\<rparr>) (HSentinel x i js pc')"
    by (rule list_moves [OF st tab inv]) (use st ok in \<open>auto simp: list_step_def\<close>)
  moreover have "h_acts hash C s (HSentinel x i js pc) C' (s\<lparr>lf_list := l\<rparr>) (HSentinel x i js pc')"
    by (auto simp: h_acts_def Let_def el due_def pending_at_def intro!: act_quiet exI)
  ultimately show ?thesis by (rule lf_goesI)
qed

lemma list_status_op: "list_status hash h C x pc (IPending z B) \<Longrightarrow> z = x"
  by (cases pc) (auto simp: list_status_def pending_at_def)

lemma finite_elements [simp]: "finite (elements h C)"
  by (simp add: elements_def)

lemma list_running:
  assumes tab: "table_ok s P" and inv: "list_inv hash root (heap (lf_list s)) C P"
    and ok: "h_ok hash (lf_max_capacity s) (heap (lf_list s)) C P (HList x pc)"
    and l: "l_step hash d (lf_list s) pc = (l, pc')"
  shows "lf_goes hash C P s (HList x pc) (s\<lparr>lf_list := l\<rparr>, HList x pc')"
proof -
  from ok have "l_ok hash (heap (lf_list s)) C P (Inl x) pc" by simp
  from l_step_correct [OF inv this, of d] obtain C' P' where
    st: "list_step hash (Inl x) C P (lf_list s) pc C' P' l pc'" and
    ac: "list_acts hash (Inl x) C (heap (lf_list s)) pc C' (heap l) pc'"
    unfolding correct_step_def l by auto
  have "h_move hash C P s (HList x pc) C' P' (s\<lparr>lf_list := l\<rparr>) (HList x pc')"
    by (rule list_moves [OF st tab inv]) (use st ok in \<open>auto simp: list_step_def\<close>)
  moreover have "h_acts hash C s (HList x pc) C' (s\<lparr>lf_list := l\<rparr>) (HList x pc')"
    unfolding h_acts_def Let_def
  proof (intro allI impI)
    fix st assume status: "h_status hash (heap (lf_list s)) C (HList x pc) st"
    with ac obtain st' where st': "acts (elements (heap (lf_list s)) C) st (elements (heap l) C') st'"
      "list_status hash (heap l) C' x pc' st'"
      by (auto simp: list_acts_def)
    have "z = x" if "st = IPending z B" for z B
      using status that list_status_op by auto
    from acts_due [OF st'(1) _ this, where pc = pc and pc' = pc'] st'
    show "\<exists>st'. acts (elements (heap (lf_list s)) C) st
        (elements (heap (lf_list (s\<lparr>lf_list := l\<rparr>))) C') st' \<and>
      h_status hash (heap (lf_list (s\<lparr>lf_list := l\<rparr>))) C' (HList x pc') st' \<and>
      lf_set_size (s\<lparr>lf_list := l\<rparr>) + due (HList x pc') st' -
        of_nat (card (elements (heap (lf_list (s\<lparr>lf_list := l\<rparr>))) C')) =
      lf_set_size s + due (HList x pc) st - of_nat (card (elements (heap (lf_list s)) C))"
      by (intro exI [of _ st']) (simp add: add_diff_eq [symmetric] del: add_diff_eq)
  qed
  ultimately show ?thesis by (rule lf_goesI)
qed

lemma list_returns:
  assumes tab: "table_ok s P" and inv: "list_inv hash root (heap (lf_list s)) C P"
  shows "lf_goes hash C P s (HList x (LRet (RBool b))) (list_done s x b)"
  using tab
  by (cases x; cases b)
    (auto simp: list_done_def list_status_def due_def h_owned_def owned_def h_pending_def
      table_ok_def intro!: lf_goes_table)

lemma publish_ok:
  assumes "table_ok s P" "i < lf_max_capacity s" "i \<noteq> 0" "a \<in> P"
    "key (heap (lf_list s) ! a) = MakeSentinelKey i"
  shows "table_ok (publish_bucket s i a) P"
  using assms by (auto simp: table_ok_def publish_bucket_def nth_list_update nth_list_update_neq unat_gt_0 word_less_nat_alt)

lemma grow_ok:
  assumes "table_ok s P" "lf_capacity s < lf_max_capacity s"
  shows "table_ok (s\<lparr>lf_capacity := lf_capacity s * 2\<rparr>) P"
proof -
  from assms obtain j k where jk: "j \<le> 62" "k \<le> 62"
    "unat (lf_max_capacity s) = 2 ^ j" "unat (lf_capacity s) = 2 ^ k"
    by (auto simp: table_ok_def valid_capacity_def)
  then have "(2::nat) ^ k < 2 ^ j" using assms(2) by (simp add: word_less_nat_alt)
  then have "k < j" by simp
  then have le: "(2::nat) ^ Suc k \<le> 2 ^ j" by (intro power_increasing) simp_all
  have "(2::nat) ^ Suc k < 2 ^ 64" using \<open>k < j\<close> jk(1) by (intro power_strict_increasing) simp_all
  then have c: "unat (lf_capacity s * 2) = 2 ^ Suc k"
    using jk(4) by (simp add: unat_word_ariths mult.commute)
  then have "lf_capacity s * 2 \<le> lf_max_capacity s" using le jk(3) by (simp add: word_le_nat_alt)
  moreover have "valid_capacity (lf_capacity s * 2)"
    unfolding valid_capacity_def c using \<open>k < j\<close> jk(1) by (intro exI [of _ "Suc k"]) simp
  ultimately show ?thesis using assms(1) by (simp add: table_ok_def)
qed

lemma lf_step_goes:
  assumes tab: "table_ok s P" and inv: "list_inv hash root (heap (lf_list s)) C P"
    and ok: "h_ok hash (lf_max_capacity s) (heap (lf_list s)) C P pc"
    and step: "lf_step hash d s pc = Some r"
  shows "lf_goes hash C P s pc r"
proof (cases pc)
  case (HCapacity x)
  with step tab frames_mod(1,2) [OF tab, where x = x and hash = hash] frames_mod(3) [OF tab] show ?thesis
    by (auto simp: h_owned_def h_pending_def due_def intro!: lf_goes_table)
next
  case (HBucket x i js)
  with ok have i: "i < lf_max_capacity s" "frames_ok hash x (lf_max_capacity s) i js" by simp_all
  have len: "unat i < length (lf_buckets s)" using tab i(1) by (simp add: table_ok_def word_less_nat_alt)
  have m: "valid_capacity (lf_max_capacity s)" using tab by (simp add: table_ok_def)
  show ?thesis
  proof (cases "lf_buckets s ! unat i")
    case None
    then have ne: "i \<noteq> 0" using tab by (auto simp: table_ok_def)
    with HBucket None step i len tab order_less_trans [OF parent_less [OF ne] i(1)] show ?thesis
      by (auto simp: get_bucket_def h_owned_def h_pending_def due_def intro!: lf_goes_table)
  next
    case (Some a)
    note a = table_entry [OF tab i(1) Some]
    note found = bucket_found_ok [OF inv m i(1) a i(2)]
    have "r = (s, bucket_found x js a (lf_list s))"
      using step HBucket Some len i(1) by (simp add: get_bucket_def)
    with HBucket tab found show ?thesis
      by (auto simp: h_owned_def h_pending_def due_def intro!: lf_goes_table)
  qed
next
  case (HSentinel x i js p)
  with ok have i: "i \<noteq> 0" "i < lf_max_capacity s" "frames_ok hash x (lf_max_capacity s) i js"
    and p: "l_ok hash (heap (lf_list s)) C P (Inr i) p" by simp_all
  have m: "valid_capacity (lf_max_capacity s)" using tab by (simp add: table_ok_def)
  show ?thesis
  proof (cases "running p")
    case True
    obtain l p' where l: "l_step hash d (lf_list s) p = (l, p')" by fastforce
    have "r = (s\<lparr>lf_list := l\<rparr>, HSentinel x i js p')"
      using step [unfolded HSentinel lf_step_running(1) [OF True l]] by simp
    with sentinel_running [OF tab inv ok [unfolded HSentinel] l] HSentinel show ?thesis by simp
  next
    case False
    with p obtain a where a: "p = LRet (RSentinel a)" "a \<in> P" "key (heap (lf_list s) ! a) = MakeSentinelKey i"
      by (cases p) (auto simp: running_def res_ok_def)
    note found = bucket_found_ok [OF inv m i(2) a(2,3) i(3)]
    have "r = (publish_bucket s i a, bucket_found x js a (lf_list s))"
      using step HSentinel a(1) by simp
    moreover have "lf_goes hash C P s pc (publish_bucket s i a, bucket_found x js a (lf_list s))"
      using HSentinel a(1) found publish_ok [OF tab i(2,1) a(2,3)]
      by (intro lf_goes_table) (auto simp: publish_bucket_def h_owned_def h_pending_def owned_def due_def)
    ultimately show ?thesis by simp
  qed
next
  case (HList x p)
  show ?thesis
  proof (cases "running p")
    case True
    obtain l p' where l: "l_step hash d (lf_list s) p = (l, p')" by fastforce
    have "r = (s\<lparr>lf_list := l\<rparr>, HList x p')"
      using step [unfolded HList lf_step_running(2) [OF True l]] by simp
    with list_running [OF tab inv ok [unfolded HList] l] HList show ?thesis by simp
  next
    case False
    with ok HList obtain b where "p = LRet (RBool b)"
      by (cases p) (auto simp: running_def res_ok_def)
    with step HList have "r = list_done s x b" by simp
    with list_returns [OF tab inv] HList \<open>p = LRet (RBool b)\<close> show ?thesis by simp
  qed
next
  case (HResizeCas c)
  show ?thesis
  proof (cases "lf_capacity s = c")
    case True
    with ok HResizeCas have "lf_capacity s < lf_max_capacity s" by simp
    from grow_ok [OF tab this] True HResizeCas step show ?thesis
      by (auto simp: h_owned_def h_pending_def due_def intro!: lf_goes_table)
  next
    case False
    with tab HResizeCas step show ?thesis
      by (auto simp: h_owned_def h_pending_def due_def intro!: lf_goes_table)
  qed
next
  case (HResizeSize c)
  then show ?thesis
    using tab step
    by (cases "c < lf_max_capacity s \<and>
        c * kLoadFactorNumerator div kLoadFactorDenominator < lf_set_size s")
      (auto simp: h_owned_def h_pending_def due_def intro!: lf_goes_table)
qed (use tab step in \<open>auto simp: h_owned_def h_pending_def due_def intro!: lf_goes_table\<close>)

section \<open>Construction\<close>

lemma construct_cases:
  assumes "construct_lockfree d ic mc = Inr s"
  shows "valid_capacity ic" "valid_capacity mc" "2 \<le> ic" "ic \<le> mc" "lf_capacity s = ic"
    "lf_max_capacity s = mc" "lf_list s = fst (MakeRoot d)" "lf_set_size s = 0"
    "lf_buckets s = (replicate (unat mc) None)[0 := Some root]"
proof -
  from assms have r: "2 \<le> ic" "\<not> not_pow2 ic" "\<not> not_pow2 mc" "ic \<le> mc" "mc \<le> kMaxBuckets"
    and s: "s = \<lparr>lf_list = fst (MakeRoot d), lf_buckets = (replicate (unat mc) None)[0 := Some root],
       lf_max_capacity = mc, lf_capacity = ic, lf_set_size = 0\<rparr>"
    by (auto simp: construct_lockfree_def MakeRoot_def root_def not_less split: if_splits)
  have valid: "valid_capacity c" if c: "c \<noteq> 0" "\<not> not_pow2 c" "c \<le> kMaxBuckets" for c
  proof -
    from c obtain k where k: "unat c = 2 ^ k" by (auto simp: not_pow2_iff)
    have "unat c \<le> 2 ^ 62" using c(3) by (simp add: word_le_nat_alt kMaxBuckets_eq)
    with k have "k \<le> 62" using power_le_imp_le_exp [of "2::nat" k 62] by simp
    with k show ?thesis by (auto simp: valid_capacity_def)
  qed
  from s show "lf_capacity s = ic" "lf_max_capacity s = mc" "lf_list s = fst (MakeRoot d)" "lf_set_size s = 0"
    "lf_buckets s = (replicate (unat mc) None)[0 := Some root]" by simp_all
  show "2 \<le> ic" "ic \<le> mc" by (fact r)+
  have "ic \<noteq> 0" using r(1) by auto
  then show "valid_capacity ic" using valid r by (meson order_trans)
  have "mc \<noteq> 0" using r(1,4) by auto
  then show "valid_capacity mc" using valid r by blast
qed

lemma MakeRoot_inv:
  "list_inv hash root (heap (fst (MakeRoot d))) [root, 0] {root, 0}"
  "elements (heap (fst (MakeRoot d))) [root, 0] = {}"
proof -
  have neg: "(0::size_t) < - 1" by (simp add: word_gt_0)
  show "list_inv hash root (heap (fst (MakeRoot d))) [root, 0] {root, 0}"
    using neg by (simp add: MakeRoot_def root_def list_inv_def chain_def precedes_def published_def
        is_elem_def kTailKey_def)
  have "\<not> is_elem (heap (fst (MakeRoot d)) ! root)" "\<not> is_elem (heap (fst (MakeRoot d)) ! 0)"
    by (simp_all add: MakeRoot_def root_def is_elem_def)
  then have "{a \<in> set [root, 0]. is_elem (heap (fst (MakeRoot d)) ! a) \<and>
      \<not> marked (heap (fst (MakeRoot d))) a} = {}" unfolding list.set by blast
  then show "elements (heap (fst (MakeRoot d))) [root, 0] = {}" by (simp only: elements_def image_empty)
qed

definition lf_start :: "'a \<Rightarrow> 'a lockfree \<Rightarrow> bool" where
  "lf_start d s \<longleftrightarrow> (\<exists>ic mc. construct_lockfree d ic mc = Inr s)"

lemma lf_sim_at_init:
  assumes "lf_start d s"
  shows "lf_sim_at hash [root, 0] {root, 0} (sys_init (lockfree_program hash d) s) (i_init {})"
proof -
  from assms obtain ic mc where s: "construct_lockfree d ic mc = Inr s" by (auto simp: lf_start_def)
  note c = construct_cases [OF s]
  note init = MakeRoot_inv(1) [of hash d, folded c(7)] MakeRoot_inv(2) [of d, folded c(7)]
  have len: "length (heap (lf_list s)) = 2" and l: "deleted (lf_list s) = []" "retired (lf_list s) = []"
    and k: "key (heap (lf_list s) ! root) = 0"
    by (simp_all add: c(7) MakeRoot_def root_def)
  have pos: "0 < unat mc" using c(2) by (auto simp: valid_capacity_def)
  have tab: "table_ok s {root, 0}"
    unfolding table_ok_def c(5,6,9)
    using c(1,2,4) pos k by (auto simp: nth_list_update)
  have stock: "{..<2} - {root, 0} = {}" "{root, 0} - set [root, 0] = {}"
    by (auto simp: root_def)
  have held: "h_owned HIdle = {}" "h_pending HIdle = {}"
    by (simp_all add: h_owned_def h_pending_def)
  have "counted (0 :: size_t) (\<lambda>t. due HIdle IIdle) ({} :: 'a set)"
    by (simp add: counted_def due_def sum_all_def)
  then show ?thesis
    unfolding lf_sim_at_def Let_def
    using init tab balanced_init
    by (simp add: sys_init_def lockfree_program_def i_init_def len l stock held c(8))
qed

lemma lf_sim_init:
  "lf_start d s \<Longrightarrow> lf_sim hash (sys_init (lockfree_program hash d) s) (i_init {})"
  unfolding lf_sim_def by (intro exI) (rule lf_sim_at_init)

lemma lf_sim_step:
  assumes sim: "lf_sim hash s i" and step: "sys_step (lockfree_program hash d) s l s'"
  shows "\<exists>i'. interval_run i (visible l) i' \<and> lf_sim hash s' i'"
proof -
  from sim obtain C P where at: "lf_sim_at hash C P s i" by (auto simp: lf_sim_def)
  from step show ?thesis
  proof cases
    case (step_call t x)
    then have pc: "pcs s t = HIdle" by (simp add: lockfree_program_def)
    show ?thesis
      using lf_sim_call [OF at pc, of x] step_call
      by (auto simp: lf_sim_def lockfree_program_def)
  next
    case (step_internal t sh pc)
    then have st: "lf_step hash d (shared s) (pcs s t) = Some (sh, pc)" by (simp add: lockfree_program_def)
    have "table_ok (shared s) P" "list_inv hash root (heap (lf_list (shared s))) C P"
      "h_ok hash (lf_max_capacity (shared s)) (heap (lf_list (shared s))) C P (pcs s t)"
      using at unfolding lf_sim_at_def Let_def by blast+
    from lf_step_goes [OF this st] obtain C' P' where
      "h_move hash C P (shared s) (pcs s t) C' P' sh pc" "h_acts hash C (shared s) (pcs s t) C' sh pc"
      by (auto simp: lf_goes_def)
    from lf_sim_thread [OF at this] step_internal show ?thesis by (auto simp: lf_sim_def)
  next
    case (step_return t r)
    then have "pcs s t = HRet r" by (simp add: lockfree_program_def split: hpc.splits)
    from lf_sim_return [OF at this] step_return show ?thesis
      by (auto simp: lf_sim_def lockfree_program_def)
  qed
qed

interpretation lf: simulation "lockfree_program hash d" "lf_start d" "lf_sim hash" for hash d
  by unfold_locales (fact lf_sim_init, fact lf_sim_step)

end
