(* ===== verification/LockFreeProps.thy ===== *)
theory LockFreeProps
  imports LockFreeCorrect
begin

text \<open>
  The properties of the lock-free set without its reclaimer, each over every reachable state of the
  program: it is linearizable, keeps its list in order and every node in exactly one place, and counts
  its elements; its table leads every search to a place before the element, at every capacity. Also what
  the next step of a thread touches, for the properties of the set over its reclaimer.
\<close>

section \<open>What the invariant says of a reachable state\<close>

lemma lf_reach:
  assumes "construct_lockfree d ic mc = Inr s0"
    and "sys_run (lockfree_program hash d) (sys_init (lockfree_program hash d) s0) h s"
  obtains i C P where "interval_run (i_init {}) h i" "lf_sim_at hash C P s i"
  using lf.sim_run [OF assms(2)] assms(1) by (auto simp: lf_start_def lf_sim_def)

lemma lf_sim_atD:
  assumes "lf_sim_at hash C P s i"
  shows "list_inv hash root (heap (lf_list (shared s))) C P" "table_ok (shared s) P"
    "i_set i = elements (heap (lf_list (shared s))) C"
    "balanced ({..<length (heap (lf_list (shared s)))} - P) (deleted (lf_list (shared s))) (\<lambda>t. h_owned (pcs s t))"
    "balanced (P - set C) (retired (lf_list (shared s))) (\<lambda>t. h_pending (pcs s t))"
    "h_ok hash (lf_max_capacity (shared s)) (heap (lf_list (shared s))) C P (pcs s t)"
    "h_status hash (heap (lf_list (shared s))) C (pcs s t) (i_status i t)"
    "counted (lf_set_size (shared s)) (\<lambda>t. due (pcs s t) (i_status i t)) (i_set i)"
  using assms unfolding lf_sim_at_def Let_def by blast+

lemma lf_step_not_idle: "lf_step hash d s pc = Some (s', pc') \<Longrightarrow> pc' \<noteq> HIdle"
  by (cases pc)
    (auto simp: get_bucket_def bucket_found_def list_done_def
      split: if_splits option.splits list.splits lpc.splits lres.splits op.splits prod.splits)

lemma Destroy_suffix:
  assumes "successively (\<lambda>a b. ref h a = Some b) (a # vs)" "ref h (last (a # vs)) = None"
    and "set (a # vs) \<subseteq> {..<length h}" "length (a # vs) \<le> fuel"
  shows "Destroy fuel h (Some a) = Some (a # vs)"
  using assms
proof (induction vs arbitrary: a fuel)
  case Nil
  then show ?case by (cases fuel) auto
next
  case (Cons b vs)
  then obtain f where "fuel = Suc f" by (cases fuel) auto
  with Cons.IH [of b f] Cons.prems show ?case by simp
qed

text \<open>The destructor deletes exactly the chain.\<close>

lemma destroys_chain:
  assumes inv: "list_inv hash root (heap (lf_list s)) C P" and tab: "table_ok s P"
  shows "destroy_lockfree (length (heap (lf_list s))) s = Some C"
proof -
  let ?h = "heap (lf_list s)"
  have sub: "set C \<subseteq> {..<length ?h}" using list_inv_less [OF inv list_inv_subset [OF inv]] by auto
  have "card (set C) \<le> card {..<length ?h}" by (rule card_mono) (use sub in auto)
  then have len: "length C \<le> length ?h"
    using list_inv_distinct [OF inv] by (simp add: distinct_card)
  from list_inv_chain [OF inv] obtain vs where C: "C = root # vs"
    by (cases C) (auto simp: chain_def)
  have "Destroy (length ?h) ?h (Some root) = Some C" unfolding C
    using list_inv_chain [OF inv] len sub unfolding C
    by (intro Destroy_suffix) (auto simp: chain_def)
  then show ?thesis using tab by (simp add: destroy_lockfree_def table_ok_def)
qed

lemma owned_node:
  assumes "l_ok hash h C P x pc" "n \<in> owned pc"
  shows "n < length h \<and> n \<notin> P \<and> \<not> marked h n"
  using assms by (cases pc) (auto simp: owned_def call_ok_def node_ok_def)

lemma h_owned_node:
  assumes "h_ok hash m h C P pc" "n \<in> h_owned pc"
  shows "n < length h \<and> n \<notin> P \<and> \<not> marked h n"
  using assms owned_node by (cases pc) (fastforce simp: h_owned_def)+

text \<open>
  The nodes whose fields the next step of a program counter reads or writes, that it links into the
  list, or that it hands to the reclaimer.
\<close>

fun touches :: "'a lpc \<Rightarrow> addr set" where
  "touches (LFind c) = {c_head c}"
| "touches (LScan c p a) = insert a (set_option (c_node c))"
| "touches (LUnlink c p a r) = insert p (set_option r)"
| "touches (LRetire c p a r) = insert a (set_option r)"
| "touches (LInsert c p a n) = {p, n}"
| "touches (LSucc c p a) = {a}"
| "touches (LMark c p a r) = {a}"
| "touches (LDetach p a r) = insert p (set_option r)"
| "touches (LDispose a) = {a}"
| "touches (LRet (RSentinel a)) = {a}"
| "touches (LLook e a) = {a}"
| "touches pc = {}"

lemma touches_live:
  assumes inv: "list_inv hash root h C P" and ok: "l_ok hash h C P x pc"
  shows "touches pc \<subseteq> P \<union> owned pc"
proof -
  have succ: "set_option r \<subseteq> P" if "a \<in> P" "nxt (h ! a) = (r, True)" for a r
    using ref_published [OF inv that(1)] that(2) by (cases r) auto
  show ?thesis
  proof (cases pc)
    case (LRet r)
    with ok show ?thesis by (cases r) (auto simp: res_ok_def split: sum.splits)
  qed (use ok succ in \<open>fastforce simp: call_ok_def pred_ok_def cur_ok_def owned_def\<close>)+
qed

lemma h_touches_live:
  assumes "list_inv hash root h C P" "h_ok hash m h C P hpc" "list_pc hpc = Some pc"
  shows "touches pc \<subseteq> P \<union> h_owned hpc"
  using assms touches_live by (cases hpc) (fastforce simp: h_owned_def)+

text \<open>A bucket whose sentinel is found is read too: the next step begins at its sentinel.\<close>

fun h_touches :: "'a lockfree \<Rightarrow> 'a hpc \<Rightarrow> addr set" where
  "h_touches s (HBucket x i js) = set_option (lf_buckets s ! unat i)"
| "h_touches s (HSentinel x i js pc) = touches pc"
| "h_touches s (HList x pc) = touches pc"
| "h_touches s pc = {}"

lemma h_touches_ok:
  assumes inv: "list_inv hash root (heap (lf_list s)) C P" and tab: "table_ok s P"
    and ok: "h_ok hash (lf_max_capacity s) (heap (lf_list s)) C P pc"
  shows "h_touches s pc \<subseteq> P \<union> h_owned pc" "pc \<noteq> HUndef" "list_pc pc \<noteq> Some LUndef"
proof -
  show "h_touches s pc \<subseteq> P \<union> h_owned pc"
  proof (cases pc)
    case (HBucket x i js)
    with table_entry [OF tab] ok show ?thesis by auto
  qed (use h_touches_live [OF inv ok] in auto)
  show "pc \<noteq> HUndef" "list_pc pc \<noteq> Some LUndef" using ok by (cases pc; auto)+
qed

text \<open>The depth of the recursion of \<open>GetBucketList\<close>.\<close>

lemma parent_half:
  assumes "i \<noteq> 0"
  shows "2 * unat (GetParentIndex i) < unat i"
proof -
  obtain m where m: "bit i m" "m < 64" "GetParentIndex i = take_bit m i" "unat i < 2 ^ Suc m"
    using assms by (rule parent_bits)
  have b: "bit (unat i) m" using m(1) by (simp add: bit_unsigned_iff)
  have t: "unat (GetParentIndex i) = take_bit m (unat i)"
    using m(2,3) by (simp add: unsigned_take_bit_eq)
  have "odd (drop_bit m (unat i))" using b by (simp add: bit_iff_odd drop_bit_eq_div)
  then have "0 < drop_bit m (unat i)" by (simp add: odd_pos)
  then have "2 ^ m \<le> drop_bit m (unat i) * 2 ^ m" by simp
  then have "2 ^ m + take_bit m (unat i) \<le> unat i"
    using bits_ident [of m "unat i"] unfolding push_bit_eq_mult by linarith
  moreover have "take_bit m (unat i) < 2 ^ m" by simp
  ultimately show ?thesis unfolding t by linarith
qed

lemma frames_depth:
  assumes "frames_ok hash x m i js" "valid_capacity m"
  shows "unat i * 2 ^ length js < 2 ^ 62"
  using assms(1)
proof (induction js arbitrary: i)
  case Nil
  then obtain c where c: "valid_capacity c" "i = hash (op_elem x) mod c" by auto
  have "c \<noteq> 0" using c(1) by (auto simp: valid_capacity_def)
  then have "i < c" by (simp add: c(2) word_mod_less_divisor word_gt_0)
  from valid_less_max [OF c(1) this] show ?case by (simp add: word_less_nat_alt kMaxBuckets_eq)
next
  case (Cons j js)
  then have "2 * unat i < unat j" "unat j * 2 ^ length js < 2 ^ 62"
    using parent_half [of j] by auto
  then have "2 * unat i * 2 ^ length js < 2 ^ 62"
    by (meson le_less_trans less_imp_le mult_le_mono1)
  moreover have "unat i * 2 ^ length (j # js) = 2 * unat i * 2 ^ length js" by simp
  ultimately show ?case by (simp only:)
qed

lemma frames_length:
  assumes "frames_ok hash x m i js" "valid_capacity m"
  shows "length js \<le> 62"
proof (cases js)
  case (Cons j js')
  with assms have j: "j \<noteq> 0" "frames_ok hash x m j js'" by auto
  have "2 ^ length js' < (2 :: nat) ^ 62"
    using frames_depth [OF j(2) assms(2)] j(1)
    by (metis One_nat_def Suc_leI le_less_trans mult_le_mono1 nat_mult_1 unat_gt_0)
  then have "length js' < 62" by (rule power_less_imp_less_exp [rotated]) simp
  with Cons show ?thesis by simp
qed simp

text \<open>The capacity only changes by doubling, which does not wrap around.\<close>

lemma lf_step_capacity:
  assumes "table_ok s P" "h_ok hash (lf_max_capacity s) h C P pc" "lf_step hash d s pc = Some (s', pc')"
  shows "lf_max_capacity s' = lf_max_capacity s \<and>
    (lf_capacity s' = lf_capacity s \<or> unat (lf_capacity s') = 2 * unat (lf_capacity s))"
proof (cases pc)
  case (HResizeCas c)
  show ?thesis
  proof (cases "lf_capacity s = c")
    case True
    with assms HResizeCas have less: "lf_capacity s < lf_max_capacity s"
      and s': "s' = s\<lparr>lf_capacity := lf_capacity s * 2\<rparr>" by auto
    have "unat (lf_capacity s) < 2 ^ 62"
      using valid_less_max [of "lf_max_capacity s" "lf_capacity s"] assms(1) less
      by (simp add: table_ok_def word_less_nat_alt kMaxBuckets_eq)
    then have "unat (lf_capacity s * 2) = unat (lf_capacity s) * 2" by (simp add: unat_word_ariths)
    with s' show ?thesis by simp
  next
    case False
    with assms HResizeCas show ?thesis by simp
  qed
next
  case (HSentinel x i js p)
  with assms show ?thesis by (auto simp: publish_bucket_def split: lpc.splits lres.splits prod.splits)
next
  case (HList x p)
  with assms show ?thesis
    by (auto simp: list_done_def split: lpc.splits lres.splits prod.splits op.splits if_splits)
qed (use assms in auto)

lemma lf_step_max:
  "lf_step hash d s pc = Some (s', pc') \<Longrightarrow> lf_max_capacity s' = lf_max_capacity s"
  by (cases pc) (auto simp: publish_bucket_def list_done_def
      split: lpc.splits lres.splits prod.splits op.splits if_splits)

lemma lockfree_max:
  assumes "construct_lockfree d initial_capacity max_capacity = Inr s0"
    and "sys_run (lockfree_program hash d) (sys_init (lockfree_program hash d) s0) h s"
  shows "lf_max_capacity (shared s) = max_capacity"
proof (rule sys_run_invariant [OF assms(2)])
  show "lf_max_capacity (shared (sys_init (lockfree_program hash d) s0)) = max_capacity"
    using construct_cases(6) [OF assms(1)] by (simp add: sys_init_def)
  fix s1 l s2
  assume "lf_max_capacity (shared s1) = max_capacity" "sys_step (lockfree_program hash d) s1 l s2"
  then show "lf_max_capacity (shared s2) = max_capacity"
    by (auto elim!: sys_step_cases dest: lf_step_max simp: lockfree_program_def)
qed

lemma capacity_step:
  assumes "construct_lockfree d initial_capacity max_capacity = Inr s0"
    and "sys_run (lockfree_program hash d) (sys_init (lockfree_program hash d) s0) h s"
    and "sys_step (lockfree_program hash d) s l s'"
  shows "lf_capacity (shared s') = lf_capacity (shared s) \<or>
    unat (lf_capacity (shared s')) = 2 * unat (lf_capacity (shared s))"
proof -
  from lf_reach [OF assms(1,2)] obtain i C P where "lf_sim_at hash C P s i" .
  note sim = lf_sim_atD [OF this]
  from assms(3) show ?thesis
  proof cases
    case (step_internal t sh pc)
    then have "lf_step hash d (shared s) (pcs s t) = Some (sh, pc)" by (simp add: lockfree_program_def)
    from lf_step_capacity [OF sim(2,6) this] step_internal show ?thesis by simp
  qed auto
qed

section \<open>A concrete execution\<close>

text \<open>
  Capacity 2, at most 4: thread 0 adds the element 0, then thread 1 removes it.
\<close>

definition ex_start :: "nat lockfree" where
  "ex_start =
     \<lparr>lf_list = fst (MakeRoot 0), lf_buckets = [Some 1, None, None, None], lf_max_capacity = 4,
      lf_capacity = 2, lf_set_size = 0\<rparr>"

definition ex_program :: "(nat, nat lockfree, nat hpc) program" where
  "ex_program = lockfree_program of_nat 0"

definition ex_add :: "nat choice list" where
  "ex_add = [CallOp 0 (Add 0), Tick 0, Tick 0, Tick 0, Tick 0, Tick 0, Tick 0, Tick 0, Tick 0, Finish 0]"

definition ex_remove :: "nat choice list" where
  "ex_remove = [CallOp 1 (Remove 0), Tick 1, Tick 1, Tick 1, Tick 1, Tick 1, Tick 1, Tick 1, Tick 1,
     Tick 1, Finish 1]"

lemma ex_construct: "construct_lockfree (0 :: nat) 2 4 = Inr ex_start"
  by code_simp

lemma ex_words:
  "MakeOrdinaryKey of_nat (0 :: nat) = 1" "(1 :: size_t) < - 1" "\<not> - 1 < (1 :: size_t)"
  "(4 :: size_t) = 0 \<longleftrightarrow> False" "(2 :: size_t) = 0 \<longleftrightarrow> False"
  by code_simp+

lemmas ex_simps = ex_start_def ex_program_def sys_init_def lockfree_program_def ex_words
  MakeRoot_def get_bucket_def bucket_found_def l_start_def l_find_def goto_def AtOrPast_def
  Matches_def found_def prepare_node_def cas_next_def mref_cas_def set_next_def
  mref_attempt_mark_def list_done_def kLoadFactorNumerator_def kLoadFactorDenominator_def
  kTailKey_def fun_eq_iff

lemma ex_run_both:
  "\<exists>s. sched_run ex_program (ex_add @ ex_remove) (sys_init ex_program ex_start) =
      Some ([Call 0 (Add 0), Return 0 True, Call 1 (Remove 0), Return 1 True], s) \<and>
    pcs s = (\<lambda>_. HIdle) \<and> retired (lf_list (shared s)) = [2] \<and>
    length (heap (lf_list (shared s))) = 3 \<and> marked (heap (lf_list (shared s))) 2 \<and>
    deleted (lf_list (shared s)) = []"
  by (simp add: ex_add_def ex_remove_def ex_simps)

lemma ex_both:
  obtains s where "sys_run ex_program (sys_init ex_program ex_start)
      [Call 0 (Add 0), Return 0 True, Call 1 (Remove 0), Return 1 True] s"
    "\<And>t. pcs s t = HIdle" "retired (lf_list (shared s)) = [2]"
    "length (heap (lf_list (shared s))) = 3" "marked (heap (lf_list (shared s))) 2"
    "deleted (lf_list (shared s)) = []"
  using ex_run_both sched_run_sound by (metis (no_types, lifting))

text \<open>Thread 1 in the middle of its removal, about to unlink the node it has marked.\<close>

lemma ex_run_mid:
  "\<exists>s. sched_run ex_program (ex_add @ take 7 ex_remove) (sys_init ex_program ex_start) =
      Some ([Call 0 (Add 0), Return 0 True, Call 1 (Remove 0)], s) \<and>
    pcs s 1 = HList (Remove 0) (LDetach 1 2 (Some 0)) \<and> pcs s 0 = HIdle \<and> lf_set_size (shared s) = 1 \<and>
    lf_buckets (shared s) = [Some 1, None, None, None] \<and> lf_capacity (shared s) = 2"
  by (simp add: ex_add_def ex_remove_def ex_simps)

lemma ex_mid:
  obtains s where "sys_run ex_program (sys_init ex_program ex_start)
      [Call 0 (Add 0), Return 0 True, Call 1 (Remove 0)] s"
    "pcs s 1 = HList (Remove 0) (LDetach 1 2 (Some 0))" "lf_set_size (shared s) = 1"
    "lf_buckets (shared s) = [Some 1, None, None, None]" "lf_capacity (shared s) = 2"
  using ex_run_mid sched_run_sound by (metis (no_types, lifting))

text \<open>Thread 0 waiting for the bucket 0 in order to initialise the bucket 1.\<close>

lemma ex_run_parent:
  "\<exists>s. sched_run ex_program [CallOp 0 (Add 1), Tick 0, Tick 0] (sys_init ex_program ex_start) =
      Some ([Call 0 (Add 1)], s) \<and> pcs s 0 = HBucket (Add 1) 0 [1]"
proof -
  have "GetParentIndex 1 = 0" "(1 :: size_t) mod 2 = 1" by code_simp+
  then show ?thesis by (simp add: ex_simps)
qed

lemma ex_parent:
  obtains s where "sys_run ex_program (sys_init ex_program ex_start) [Call 0 (Add 1)] s"
    "pcs s 0 = HBucket (Add 1) 0 [1]"
  using ex_run_parent sched_run_sound by (metis (no_types, lifting))

section \<open>Properties\<close>

text \<open>
  C1 (refinement): the lock-free set is linearizable. Whatever the interleaving of \<open>Add\<close>,
  \<open>Remove\<close> and \<open>Contains\<close> by any number of threads, with buckets being initialised and the table
  growing at the same time, every history is one of an atomic set that starts empty.
\<close>

theorem lockfree_linearizable:
  assumes "construct_lockfree d initial_capacity max_capacity = Inr s"
  shows "linearizable (lockfree_program hash d) s {}"
  by (rule lf.sim_linearizable) (use assms in \<open>auto simp: lf_start_def\<close>)

theorem lockfree_linearizable_witness:
  "construct_lockfree (0 :: nat) 2 4 = Inr ex_start \<and>
   linearizable (lockfree_program of_nat 0) ex_start {}"
  using lockfree_linearizable [OF ex_construct] ex_construct by blast

text \<open>
  C6 (type): the list is well-formed in every reachable state. From the sentinel of bucket 0 the
  references lead through finitely many nodes, in strictly increasing order (different elements with
  the same key in any order), from the key 0 to the tail; only nodes of elements are ever marked, and
  the key of an element's node is the one made from its hash.
\<close>

theorem lockfree_list_shape:
  assumes "construct_lockfree d initial_capacity max_capacity = Inr s0"
    and "sys_run (lockfree_program hash d) (sys_init (lockfree_program hash d) s0) h s"
  defines "ns \<equiv> heap (lf_list (shared s))"
  shows "\<exists>C. destroy_lockfree (length ns) (shared s) = Some C \<and> C \<noteq> [] \<and>
    sorted_wrt (\<lambda>a b. precedes (ns ! a) (ns ! b)) C \<and> key (ns ! hd C) = 0 \<and> key (ns ! last C) = kTailKey \<and>
    (\<forall>a \<in> set C. (marked ns a \<longrightarrow> is_elem (ns ! a)) \<and>
       (is_elem (ns ! a) \<longrightarrow> key (ns ! a) = MakeOrdinaryKey hash (elem (ns ! a))))"
proof -
  from lf_reach [OF assms(1,2)] obtain i C P where at: "lf_sim_at hash C P s i" .
  note sim = lf_sim_atD [OF at, folded ns_def]
  have C: "C \<noteq> []" "hd C = root" "sorted_wrt (\<lambda>a b. precedes (ns ! a) (ns ! b)) C"
    using sim(1) by (simp_all add: list_inv_def chain_def)
  have "lf_buckets (shared s) ! 0 = Some root" "0 < length (lf_buckets (shared s))"
    using sim(2) by (auto simp: table_ok_def valid_capacity_def)
  then have "key (ns ! root) = MakeSentinelKey (of_nat 0)"
    using sim(2) unfolding table_ok_def ns_def by (metis option.set_intros)
  then have hd: "key (ns ! hd C) = 0" by (simp add: C(2))
  have "published hash ns C P (last C)" by (rule list_inv_published [OF sim(1) chain_last(1) [OF sim(1)]])
  then have last: "key (ns ! last C) = kTailKey" using chain_last(3) [OF sim(1)] by (simp add: published_def)
  have "published hash ns C P a" if "a \<in> set C" for a
    by (rule list_inv_published [OF sim(1) list_inv_subset [OF sim(1) that]])
  then have "\<forall>a \<in> set C. (marked ns a \<longrightarrow> is_elem (ns ! a)) \<and>
       (is_elem (ns ! a) \<longrightarrow> key (ns ! a) = MakeOrdinaryKey hash (elem (ns ! a)))"
    by (simp add: published_def)
  with C hd last destroys_chain [OF sim(1) [unfolded ns_def] sim(2)] show ?thesis
    unfolding ns_def by blast
qed

theorem lockfree_list_shape_witness:
  "\<exists>s C. pcs (s :: (nat lockfree, nat hpc) sys) 1 = HList (Remove 0) (LDetach 1 2 (Some 0)) \<and>
    destroy_lockfree (length (heap (lf_list (shared s)))) (shared s) = Some C \<and>
    key (heap (lf_list (shared s)) ! hd C) = 0 \<and> key (heap (lf_list (shared s)) ! last C) = kTailKey"
proof (rule ex_mid)
  fix s assume s: "sys_run ex_program (sys_init ex_program ex_start)
      [Call 0 (Add 0), Return 0 True, Call 1 (Remove 0)] s"
    "pcs s 1 = HList (Remove 0) (LDetach 1 2 (Some 0))"
  from lockfree_list_shape [OF ex_construct s(1) [unfolded ex_program_def]] s(2) show ?thesis by blast
qed

text \<open>
  C5 (safety): every node that has been unlinked is handed to the reclaimer exactly once, and nothing
  else is. At every moment each node ever allocated is in exactly one place, once: in the chain from
  bucket 0, in the hands of the one thread that is about to insert it, in those of the one thread that
  has unlinked it and is about to retire it, among the retired nodes, or among the nodes deleted on the
  spot. Retired nodes are marked.
\<close>

theorem lockfree_retires_once:
  assumes "construct_lockfree d initial_capacity max_capacity = Inr s0"
    and "sys_run (lockfree_program hash d) (sys_init (lockfree_program hash d) s0) h s"
  shows "\<exists>C. destroy_lockfree (length (heap (lf_list (shared s)))) (shared s) = Some C \<and>
    (\<forall>a < length (heap (lf_list (shared s))).
       count_list C a + card {t. a \<in> h_owned (pcs s t)} + card {t. a \<in> h_pending (pcs s t)} +
       count_list (retired (lf_list (shared s))) a + count_list (deleted (lf_list (shared s))) a = 1) \<and>
    set (retired (lf_list (shared s))) \<subseteq> {..<length (heap (lf_list (shared s)))} \<and>
    (\<forall>a \<in> set (retired (lf_list (shared s))). snd (nxt (heap (lf_list (shared s)) ! a)))"
proof -
  let ?l = "lf_list (shared s)"
  from lf_reach [OF assms] obtain i C P where at: "lf_sim_at hash C P s i" .
  note sim = lf_sim_atD [OF at]
  have C: "distinct C" "set C \<subseteq> P" and P: "P \<subseteq> {..<length (heap ?l)}"
    using list_inv_distinct [OF sim(1)] list_inv_subset [OF sim(1)] list_inv_less [OF sim(1)] by auto
  have ret: "set (retired ?l) \<subseteq> P - set C" using sim(5) by (auto simp: balanced_def)
  have "count_list C a + card {t. a \<in> h_owned (pcs s t)} + card {t. a \<in> h_pending (pcs s t)} +
      count_list (retired ?l) a + count_list (deleted ?l) a = 1" if a: "a < length (heap ?l)" for a
  proof -
    have "count_list C a = (if a \<in> set C then 1 else 0)" by (rule count_distinct [OF C(1)])
    moreover have "count_list (deleted ?l) a + card {t. a \<in> h_owned (pcs s t)} = (if a \<in> P then 0 else 1)"
      using balanced_count [OF sim(4), of a] a by simp
    moreover have "count_list (retired ?l) a + card {t. a \<in> h_pending (pcs s t)} =
        (if a \<in> P - set C then 1 else 0)" by (rule balanced_count [OF sim(5)])
    ultimately show ?thesis using C(2) by (auto split: if_splits)
  qed
  moreover have "marked (heap ?l) a" if "a \<in> set (retired ?l)" for a
    using that ret unmarked_in_chain [OF sim(1)] by blast
  ultimately show ?thesis using destroys_chain [OF sim(1,2)] ret P by blast
qed

theorem lockfree_retires_once_witness:
  "\<exists>s C. destroy_lockfree 3 (shared s) = Some C \<and> count_list C 2 = 0 \<and>
    retired (lf_list (shared s)) = [2] \<and> snd (nxt (heap (lf_list (shared (s :: (nat lockfree, nat hpc) sys))) ! 2))"
proof (rule ex_both)
  fix s assume s: "sys_run ex_program (sys_init ex_program ex_start)
      [Call 0 (Add 0), Return 0 True, Call 1 (Remove 0), Return 1 True] s"
    "retired (lf_list (shared s)) = [2]" "length (heap (lf_list (shared s))) = 3"
  from lockfree_retires_once [OF ex_construct s(1) [unfolded ex_program_def]] obtain C where
    "destroy_lockfree 3 (shared s) = Some C" "count_list C 2 + 1 \<le> 1"
    "snd (nxt (heap (lf_list (shared s)) ! 2))" using s(2,3) by fastforce
  with s(2) show ?thesis by auto
qed

text \<open>
  No leak and no double free. When no operation is running, the nodes deleted on the
  spot, the nodes handed to the reclaimer and the nodes the destructor deletes are all the nodes ever
  allocated, each exactly once.
\<close>

lemma lockfree_frees_all_once:
  assumes "construct_lockfree d initial_capacity max_capacity = Inr s0"
    and "sys_run (lockfree_program hash d) (sys_init (lockfree_program hash d) s0) h s"
    and "\<And>t. pcs s t = HIdle"
  shows "\<exists>C. destroy_lockfree (length (heap (lf_list (shared s)))) (shared s) = Some C \<and>
    distinct (deleted (lf_list (shared s)) @ retired (lf_list (shared s)) @ C) \<and>
    set (deleted (lf_list (shared s)) @ retired (lf_list (shared s)) @ C) =
      {..<length (heap (lf_list (shared s)))}"
proof -
  let ?l = "lf_list (shared s)"
  from lf_reach [OF assms(1,2)] obtain i C P where at: "lf_sim_at hash C P s i" .
  note sim = lf_sim_atD [OF at]
  have "distinct (deleted ?l) \<and> set (deleted ?l) = {..<length (heap ?l)} - P"
    by (rule balanced_closed [OF sim(4)]) (simp add: assms(3) h_owned_def)
  moreover have "distinct (retired ?l) \<and> set (retired ?l) = P - set C"
    by (rule balanced_closed [OF sim(5)]) (simp add: assms(3) h_pending_def)
  moreover have "set C \<subseteq> P" "P \<subseteq> {..<length (heap ?l)}"
    using sim(1) list_inv_less [OF sim(1)] by (auto simp: list_inv_def)
  ultimately show ?thesis
    using destroys_chain [OF sim(1,2)] list_inv_distinct [OF sim(1)]
    by (intro exI [of _ C]) auto
qed

lemma lockfree_at_rest:
  assumes "construct_lockfree d initial_capacity max_capacity = Inr s0"
    and "sys_run (lockfree_program hash d) (sys_init (lockfree_program hash d) s0) h s"
    and "\<And>t. pcs s t = HIdle"
  obtains i C P where "lf_sim_at hash C P s i" "atomic_run (a_init {}) h \<lparr>a_set = i_set i, a_status = (\<lambda>_. AIdle)\<rparr>"
    "lf_Size (shared s) = of_nat (card (i_set i))"
proof -
  from lf_reach [OF assms(1,2)] obtain i C P where
    run: "interval_run (i_init {}) h i" and at: "lf_sim_at hash C P s i" .
  note sim = lf_sim_atD [OF at]
  have idle: "i_status i t = IIdle" for t using sim(7) [of t] assms(3) by simp
  have "atomic_run (a_init {}) h \<lparr>a_set = i_set i, a_status = (\<lambda>_. AIdle)\<rparr>"
    by (rule interval_views [OF run]) (simp add: idle)
  moreover have "lf_Size (shared s) = of_nat (card (i_set i))"
    using sim(8) assms(3) idle by (simp add: counted_def sum_all_def due_def lf_Size_def)
  ultimately show thesis using that [OF at] by blast
qed

text \<open>
  C8 (functional): when no operation is running, the nodes in the chain hold exactly the set that
  the history of calls and returns leaves in the atomic set, and \<open>Size\<close> is the number of its elements.
\<close>

theorem lockfree_quiescent:
  assumes "construct_lockfree d initial_capacity max_capacity = Inr s0"
    and "sys_run (lockfree_program hash d) (sys_init (lockfree_program hash d) s0) h s"
    and "\<And>t. pcs s t = HIdle"
  shows "\<exists>C. destroy_lockfree (length (heap (lf_list (shared s)))) (shared s) = Some C \<and>
    atomic_run (a_init {}) h
      \<lparr>a_set = elements (heap (lf_list (shared s))) C, a_status = (\<lambda>_. AIdle)\<rparr> \<and>
    lf_Size (shared s) = of_nat (card (elements (heap (lf_list (shared s))) C))"
proof -
  from lockfree_at_rest [OF assms] obtain i C P where at: "lf_sim_at hash C P s i"
    and rest: "atomic_run (a_init {}) h \<lparr>a_set = i_set i, a_status = (\<lambda>_. AIdle)\<rparr>"
      "lf_Size (shared s) = of_nat (card (i_set i))" .
  note sim = lf_sim_atD [OF at]
  from rest show ?thesis using destroys_chain [OF sim(1,2)] sim(3) by auto
qed

theorem lockfree_quiescent_witness:
  "\<exists>s C. lf_Size (shared (s :: (nat lockfree, nat hpc) sys)) =
    of_nat (card (elements (heap (lf_list (shared s))) C)) \<and> retired (lf_list (shared s)) = [2]"
proof (rule ex_both)
  fix s assume s: "sys_run ex_program (sys_init ex_program ex_start)
      [Call 0 (Add 0), Return 0 True, Call 1 (Remove 0), Return 1 True] s"
    "\<And>t. pcs s t = HIdle" "retired (lf_list (shared s)) = [2]"
  from lockfree_quiescent [OF ex_construct s(1) [unfolded ex_program_def] s(2)] s(3)
  show ?thesis by blast
qed

text \<open>
  C9 (safety): a node's \<open>next\<close> reference never changes again once it has been marked, its key and
  element never change at all, and no node moves: what the comments in \<open>BucketList.h\<close> rest the safety
  of unlinking and of traversing removed nodes on.
\<close>

theorem marked_nodes_frozen:
  assumes "construct_lockfree d initial_capacity max_capacity = Inr s0"
    and "sys_run (lockfree_program hash d) (sys_init (lockfree_program hash d) s0) h s"
    and "sys_step (lockfree_program hash d) s l s'"
    and "a < length (heap (lf_list (shared s)))" "a \<notin> set (deleted (lf_list (shared s)))"
  shows "key (heap (lf_list (shared s')) ! a) = key (heap (lf_list (shared s)) ! a) \<and>
    elem (heap (lf_list (shared s')) ! a) = elem (heap (lf_list (shared s)) ! a) \<and>
    (snd (nxt (heap (lf_list (shared s)) ! a)) \<longrightarrow>
      nxt (heap (lf_list (shared s')) ! a) = nxt (heap (lf_list (shared s)) ! a))"
proof -
  from lf_reach [OF assms(1,2)] obtain i C P where at: "lf_sim_at hash C P s i" .
  note sim = lf_sim_atD [OF at]
  let ?h = "heap (lf_list (shared s))"
  have stock: "a \<in> P \<or> (\<exists>t. a \<in> h_owned (pcs s t))"
    using assms(4,5) sim(4) by (auto simp: balanced_def)
  have P: "a \<in> P" if "marked ?h a"
    using stock that h_owned_node [OF sim(6)] by blast
  from assms(3) show ?thesis
  proof cases
    case (step_internal t sh pc)
    then have "lf_step hash d (shared s) (pcs s t) = Some (sh, pc)" by (simp add: lockfree_program_def)
    from lf_step_goes [OF sim(2,1,6) this] obtain C' P' w where
      ev: "evolves hash ?h C P w (heap (lf_list sh)) C' P'"
      by (auto simp: lf_goes_def h_move_def Let_def)
    from evolves_const [OF ev assms(4)] evolves_frozen [OF ev sim(1)] P step_internal
    show ?thesis by auto
  qed auto
qed

theorem marked_nodes_frozen_witness:
  "\<exists>s s'. nxt (heap (lf_list (shared (s' :: (nat lockfree, nat hpc) sys))) ! 2) =
     nxt (heap (lf_list (shared (s :: (nat lockfree, nat hpc) sys))) ! 2) \<and>
     pcs s' \<noteq> pcs s"
proof (rule ex_both)
  fix s assume s: "sys_run ex_program (sys_init ex_program ex_start)
      [Call 0 (Add 0), Return 0 True, Call 1 (Remove 0), Return 1 True] s"
    "\<And>t. pcs s t = HIdle" "length (heap (lf_list (shared s))) = 3"
    "marked (heap (lf_list (shared s))) 2" "deleted (lf_list (shared s)) = []"
  let ?s' = "s\<lparr>pcs := (pcs s)(0 := HCapacity (Contains 0))\<rparr>"
  have "sys_step ex_program s (Some (Call 0 (Contains 0))) ?s'"
    using step_call [of s 0 ex_program "Contains 0"] s(2) by (simp add: ex_program_def lockfree_program_def)
  from marked_nodes_frozen [OF ex_construct s(1) [unfolded ex_program_def] this [unfolded ex_program_def], of 2] s
  have "nxt (heap (lf_list (shared ?s')) ! 2) = nxt (heap (lf_list (shared s)) ! 2)" by simp
  moreover have "pcs ?s' 0 \<noteq> pcs s 0" using s(2) by simp
  then have "pcs ?s' \<noteq> pcs s" by metis
  ultimately show ?thesis by blast
qed

text \<open>
  C11 (bounds): the capacity starts at the initial capacity, a step leaves it as it is or doubles it, and
  it stays a power of two between the initial and the maximum capacity. The product of
  \<open>ResizeIfNecessary\<close> never wraps around.
\<close>

theorem lockfree_capacity:
  assumes "construct_lockfree d initial_capacity max_capacity = Inr s0"
    and "sys_run (lockfree_program hash d) (sys_init (lockfree_program hash d) s0) h s"
  shows "lf_capacity s0 = initial_capacity \<and>
    (\<forall>l s'. sys_step (lockfree_program hash d) s l s' \<longrightarrow>
       lf_capacity (shared s') = lf_capacity (shared s) \<or>
       unat (lf_capacity (shared s')) = 2 * unat (lf_capacity (shared s))) \<and>
    (\<exists>k \<le> 62. unat (lf_capacity (shared s)) = 2 ^ k) \<and>
    initial_capacity \<le> lf_capacity (shared s) \<and> lf_capacity (shared s) \<le> max_capacity \<and>
    lf_max_capacity (shared s) = max_capacity \<and>
    unat (lf_capacity (shared s) * kLoadFactorNumerator) = unat (lf_capacity (shared s)) * 3"
proof -
  note c = construct_cases [OF assms(1)]
  have ic: "initial_capacity \<le> lf_capacity (shared s)"
    using assms(2)
  proof induction
    case run_start
    show ?case using c by (simp add: sys_init_def)
  next
    case (run_step h s1 l s2)
    from capacity_step [OF assms(1) run_step.hyps(1,2)] run_step.IH show ?case
      by (auto simp: word_le_nat_alt)
  qed
  from lf_reach [OF assms] obtain i C P where "lf_sim_at hash C P s i" .
  from lf_sim_atD(2) [OF this] lockfree_max [OF assms] obtain k where k: "k \<le> 62"
    "unat (lf_capacity (shared s)) = 2 ^ k" "lf_capacity (shared s) \<le> max_capacity"
    by (auto simp: table_ok_def valid_capacity_def)
  have "(2 :: nat) ^ k \<le> 2 ^ 62" using k(1) by (intro power_increasing) simp_all
  then have "unat (lf_capacity (shared s) * kLoadFactorNumerator) = unat (lf_capacity (shared s)) * 3"
    using k(2) by (simp add: kLoadFactorNumerator_def unat_word_ariths)
  with k ic c lockfree_max [OF assms] capacity_step [OF assms] show ?thesis by auto
qed

theorem lockfree_capacity_witness:
  "\<exists>s s'. pcs (s :: (nat lockfree, nat hpc) sys) 1 = HList (Remove 0) (LDetach 1 2 (Some 0)) \<and>
    sys_step (lockfree_program of_nat 0) s (Some (Call 0 (Add 1))) s' \<and>
    (lf_capacity (shared s') = 2 \<or> unat (lf_capacity (shared s')) = 4) \<and> lf_max_capacity (shared s) = 4"
proof -
  have "\<exists>s. sys_run ex_program (sys_init ex_program ex_start) [Call 0 (Add 0), Return 0 True, Call 1 (Remove 0)] s \<and>
      pcs s 1 = HList (Remove 0) (LDetach 1 2 (Some 0)) \<and> lf_capacity (shared s) = 2 \<and> pcs s 0 = HIdle"
    using ex_run_mid sched_run_sound by metis
  then obtain s where s: "sys_run ex_program (sys_init ex_program ex_start)
      [Call 0 (Add 0), Return 0 True, Call 1 (Remove 0)] s"
    "pcs s 1 = HList (Remove 0) (LDetach 1 2 (Some 0))" "lf_capacity (shared s) = 2" "pcs s 0 = HIdle" by blast
  let ?s' = "s\<lparr>pcs := (pcs s)(0 := HCapacity (Add 1))\<rparr>"
  have step: "sys_step (lockfree_program of_nat 0) s (Some (Call 0 (Add 1))) ?s'"
    using step_call [of s 0 "lockfree_program of_nat 0" "Add 1"] s(4) by (simp add: lockfree_program_def)
  note cap = lockfree_capacity [OF ex_construct s(1) [unfolded ex_program_def]]
  from cap step s(3) have "lf_capacity (shared ?s') = 2 \<or> unat (lf_capacity (shared ?s')) = 4" by auto
  with cap step s(2) show ?thesis by blast
qed

text \<open>
  C10 (functional): a bucket leads to its elements. In every reachable state, an initialised entry of
  the bucket that an element's hash has under the current capacity, or under any capacity the table
  has had or will have, is a node of the chain with that bucket's sentinel key, and the element's
  node, if there is one, comes after it. No element has to move when the table grows.
\<close>

theorem bucket_leads_to_element:
  assumes "construct_lockfree d initial_capacity max_capacity = Inr s0"
    and "sys_run (lockfree_program hash d) (sys_init (lockfree_program hash d) s0) h s"
    and "valid_capacity c" "hash e mod c < max_capacity"
    and "lf_buckets (shared s) ! unat (hash e mod c) = Some a"
  shows "\<exists>C us vs. destroy_lockfree (length (heap (lf_list (shared s)))) (shared s) = Some C \<and>
    C = us @ a # vs \<and> key (heap (lf_list (shared s)) ! a) = MakeSentinelKey (hash e mod c) \<and>
    (\<forall>n \<in> set C. Matches (heap (lf_list (shared s)) ! n) (MakeOrdinaryKey hash e) (Some e) \<longrightarrow>
      n \<in> set vs)"
proof -
  let ?h = "heap (lf_list (shared s))"
  from lf_reach [OF assms(1,2)] obtain i C P where at: "lf_sim_at hash C P s i" .
  note sim = lf_sim_atD [OF at]
  have "lf_max_capacity (shared s) = max_capacity" using lockfree_max [OF assms(1,2)] .
  then have a: "a \<in> P" "key (?h ! a) = MakeSentinelKey (hash e mod c)"
    using table_entry [OF sim(2) _ assms(5)] assms(4) by auto
  then have "a \<in> set C" using sentinel_in_chain [OF sim(1)] by simp
  then obtain us vs where C: "C = us @ a # vs" by (auto simp: in_set_conv_decomp)
  have less: "key (?h ! a) < MakeOrdinaryKey hash e" using a(2) bucket_before_element [OF assms(3)] by simp
  have "n \<in> set vs" if "n \<in> set C" "Matches (?h ! n) (MakeOrdinaryKey hash e) (Some e)" for n
    using free_uptoD [OF free_upto_head [OF sim(1) less] C, of n "Some e"] that C by auto
  with destroys_chain [OF sim(1,2)] C a(2) show ?thesis by blast
qed

theorem bucket_leads_to_element_witness:
  "\<exists>s C us vs. lf_set_size (shared (s :: (nat lockfree, nat hpc) sys)) = 1 \<and>
    destroy_lockfree (length (heap (lf_list (shared s)))) (shared s) = Some C \<and> C = us @ 1 # vs"
proof (rule ex_mid)
  fix s assume s: "sys_run ex_program (sys_init ex_program ex_start)
      [Call 0 (Add 0), Return 0 True, Call 1 (Remove 0)] s"
    "lf_set_size (shared s) = 1" "lf_buckets (shared s) = [Some 1, None, None, None]"
  have "valid_capacity 2" unfolding valid_capacity_def by (intro exI [of _ 1]) simp
  from bucket_leads_to_element [OF ex_construct s(1) [unfolded ex_program_def] this, of 0 1] s(2,3)
  show ?thesis by (auto simp: word_gt_0)
qed

text \<open>
  C32 (termination): the mutual recursion of \<open>GetBucketList\<close> and \<open>InitializeBucket\<close> ends. At most 62
  calls are ever pending in a thread, and each one waits for a bucket whose index is less than half
  of its own.
\<close>

theorem bucket_recursion_bounded:
  assumes "construct_lockfree d initial_capacity max_capacity = Inr s0"
    and "sys_run (lockfree_program hash d) (sys_init (lockfree_program hash d) s0) h s"
    and "pcs s t = HBucket x i js"
  shows "length js \<le> 62 \<and> unat i * 2 ^ length js < 2 ^ 62 \<and>
    (js \<noteq> [] \<longrightarrow> 2 * unat i < unat (hd js))"
proof -
  from lf_reach [OF assms(1,2)] obtain i' C P where at: "lf_sim_at hash C P s i'" .
  note sim = lf_sim_atD [OF at]
  from sim(6) [of t] assms(3) have fr: "frames_ok hash x (lf_max_capacity (shared s)) i js" by simp
  have m: "valid_capacity (lf_max_capacity (shared s))" using sim(2) by (simp add: table_ok_def)
  have "2 * unat i < unat (hd js)" if "js \<noteq> []"
    using that fr parent_half by (cases js) auto
  with frames_length [OF fr m] frames_depth [OF fr m] show ?thesis by blast
qed

theorem bucket_recursion_bounded_witness:
  "\<exists>s :: (nat lockfree, nat hpc) sys. pcs s 0 = HBucket (Add 1) 0 [1] \<and>
    2 * unat (0 :: size_t) < unat (hd [1 :: size_t])"
  using ex_parent bucket_recursion_bounded [OF ex_construct, of of_nat _ _ 0]
  unfolding ex_program_def by (metis list.distinct(1))

text \<open>
  The constructor accepts exactly the powers of two with
  \<open>2 \<le> initial_capacity \<le> max_capacity \<le> 2 ^ 62\<close>, and otherwise throws \<open>std::invalid_argument\<close>.
\<close>

lemma construct_lockfree_iff:
  "(case construct_lockfree d initial_capacity max_capacity of
      Inr s \<Rightarrow> lf_capacity s = initial_capacity \<and> lf_max_capacity s = max_capacity \<and> lf_Size s = 0
    | Inl err \<Rightarrow> \<exists>msg. err = Invalid_argument msg) \<and>
   ((\<exists>s. construct_lockfree d initial_capacity max_capacity = Inr s) \<longleftrightarrow>
     (\<exists>j k. 1 \<le> j \<and> j \<le> k \<and> k \<le> 62 \<and>
        unat initial_capacity = 2 ^ j \<and> unat max_capacity = 2 ^ k))"
proof (rule conjI [OF _ iffI])
  show "case construct_lockfree d initial_capacity max_capacity of
      Inr s \<Rightarrow> lf_capacity s = initial_capacity \<and> lf_max_capacity s = max_capacity \<and> lf_Size s = 0
    | Inl err \<Rightarrow> \<exists>msg. err = Invalid_argument msg"
    by (simp add: construct_lockfree_def MakeRoot_def lf_Size_def)
next
  assume "\<exists>s. construct_lockfree d initial_capacity max_capacity = Inr s"
  then obtain s where s: "construct_lockfree d initial_capacity max_capacity = Inr s" by blast
  note c = construct_cases [OF s]
  from c(1,2) obtain j k where jk: "unat initial_capacity = 2 ^ j" "k \<le> 62" "unat max_capacity = 2 ^ k"
    by (auto simp: valid_capacity_def)
  have "(2 :: nat) \<le> 2 ^ j" "(2 :: nat) ^ j \<le> 2 ^ k"
    using c(3,4) jk by (auto simp: word_le_nat_alt)
  then have "1 \<le> j" "j \<le> k"
    using power_le_imp_le_exp [of "2 :: nat" j k] by (cases j; simp)+
  with jk show "\<exists>j k. 1 \<le> j \<and> j \<le> k \<and> k \<le> 62 \<and>
      unat initial_capacity = 2 ^ j \<and> unat max_capacity = 2 ^ k" by blast
next
  assume "\<exists>j k. 1 \<le> j \<and> j \<le> k \<and> k \<le> 62 \<and>
      unat initial_capacity = 2 ^ j \<and> unat max_capacity = 2 ^ k"
  then obtain j k where jk: "1 \<le> j" "j \<le> k" "k \<le> 62" "unat initial_capacity = 2 ^ j"
    "unat max_capacity = 2 ^ k" by blast
  have le: "(2 :: nat) \<le> 2 ^ j" "(2 :: nat) ^ j \<le> 2 ^ k" "(2 :: nat) ^ k \<le> 2 ^ 62"
    using power_increasing [of 1 j "2 :: nat"] power_increasing [of j k "2 :: nat"]
      power_increasing [of k 62 "2 :: nat"] jk by simp_all
  have "\<not> initial_capacity < 2" "\<not> max_capacity < initial_capacity" "\<not> kMaxBuckets < max_capacity"
    using le jk(4,5) by (simp_all add: not_less word_le_nat_alt kMaxBuckets_eq)
  moreover have "\<not> not_pow2 initial_capacity" "\<not> not_pow2 max_capacity"
    using jk unfolding not_pow2_iff by (intro disjI2 exI [of _ j] exI [of _ k]; simp)+
  ultimately show "\<exists>s. construct_lockfree d initial_capacity max_capacity = Inr s"
    by (simp add: construct_lockfree_def MakeRoot_def)
qed

end
