(* ===== verification/ContainsStarves.thy ===== *)
theory ContainsStarves
  imports HashSetLockFree "HOL-Library.Sublist"
begin

text \<open>
  A run in which a call of \<open>Contains\<close> never returns although its thread moves for ever. Three numbers
  whose hashes agree in their 62 low bits have the same key; two of them are removed and added again in
  turn, each time behind the node the reader is at, and the reader looks for the third. \<open>hash\<close> is the
  identity, as \<open>std::hash<std::size_t>\<close> is in the common libraries.
\<close>

section \<open>The schedule\<close>

definition starve_elem :: "nat \<Rightarrow> size_t" where
  "starve_elem k = (if even k then 0 else 2 ^ 62)"

definition starve_goal :: size_t where
  "starve_goal = 2 ^ 63"

definition starve_setup :: "size_t choice list" where
  "starve_setup =
     CallOp 1 (Add (starve_elem 0)) # replicate 8 (Tick 1) @ Finish 1 #
     CallOp 1 (Add (starve_elem 1)) # replicate 9 (Tick 1) @ Finish 1 #
     CallOp 0 (Contains starve_goal) # replicate 3 (Tick 0)"

definition starve_round :: "nat \<Rightarrow> size_t choice list" where
  "starve_round k =
     (CallOp 1 (Remove (starve_elem k)) # replicate 9 (Tick 1) @ [Finish 1]) @
     (CallOp 1 (Add (starve_elem k)) # replicate 9 (Tick 1) @ [Finish 1]) @ [Tick 0]"

definition starve_schedule :: "nat \<Rightarrow> size_t choice list" where
  "starve_schedule n = starve_setup @ concat (map starve_round [0..<n])"

definition starve_program :: "(size_t, size_t lockfree, size_t hpc) program" where
  "starve_program = lockfree_program id 0"

section \<open>The loop\<close>

lemma bit_starve: "bit (starve_elem k) n \<longleftrightarrow> odd k \<and> n = 62" "bit starve_goal n \<longleftrightarrow> n = 63"
proof -
  have "bit (push_bit 62 1 :: size_t) n \<longleftrightarrow> n = 62" "bit (push_bit 63 1 :: size_t) n \<longleftrightarrow> n = 63"
    unfolding bit_push_bit_iff by (auto simp: bit_simps)
  then show "bit (starve_elem k) n \<longleftrightarrow> odd k \<and> n = 62" "bit starve_goal n \<longleftrightarrow> n = 63"
    by (simp_all add: starve_elem_def starve_goal_def push_bit_eq_mult)
qed

lemma starve_keys: "MakeOrdinaryKey id (starve_elem k) = 1" "MakeOrdinaryKey id starve_goal = 1"
  by (rule bit_word_eqI; auto simp: key_simps bit_starve bit_1_iff)+

lemma starve_tail_key: "1 < kTailKey" "kTailKey \<noteq> 1"
  using ordinary_less_tail [of id starve_goal] by (auto simp: starve_keys)

lemma starve_elems:
  "starve_elem (Suc (Suc k)) = starve_elem k" "starve_elem k \<noteq> starve_elem (Suc k)"
  "starve_elem (Suc k) \<noteq> starve_elem k" "starve_elem k \<noteq> starve_goal"
  by (auto simp: starve_elem_def starve_goal_def)

lemma starve_bucket: "starve_elem k mod 2 = 0" "starve_goal mod 2 = 0"
  by (simp_all add: starve_elem_def starve_goal_def)

definition starve_set :: "size_t node list \<Rightarrow> addr list \<Rightarrow> size_t \<Rightarrow> size_t lockfree" where
  "starve_set h r n =
     \<lparr>lf_list = \<lparr>heap = h, retired = r, deleted = []\<rparr>, lf_buckets = [Some 1, None],
      lf_max_capacity = 2, lf_capacity = 2, lf_set_size = n\<rparr>"

definition starve_node :: "nat \<Rightarrow> addr \<Rightarrow> size_t node" where
  "starve_node k a = \<lparr>elem = starve_elem k, key = 1, nxt = (Some a, False)\<rparr>"

definition starve_tail :: "size_t node" where
  "starve_tail = \<lparr>elem = 0, key = kTailKey, nxt = (None, False)\<rparr>"

definition starve_root :: "addr \<Rightarrow> size_t node" where
  "starve_root a = \<lparr>elem = 0, key = 0, nxt = (Some a, False)\<rparr>"

text \<open>
  The list is the root, the node the reader is at, one more node, and the tail; \<open>m\<close> is the address of
  the reader's node.
\<close>

definition starving :: "nat \<Rightarrow> (size_t lockfree, size_t hpc) sys \<Rightarrow> bool" where
  "starving k s \<longleftrightarrow>
     (\<exists>h r. shared s = starve_set h r 2 \<and> length h = Suc (Suc (Suc (Suc k))) \<and> h ! 0 = starve_tail \<and>
        h ! 1 = starve_root (Suc (Suc k)) \<and> h ! (Suc (Suc k)) = starve_node k (Suc (Suc (Suc k))) \<and>
        h ! (Suc (Suc (Suc k))) = starve_node (Suc k) 0) \<and>
     pcs s 0 = HList (Contains starve_goal) (LLook starve_goal (Suc (Suc k))) \<and> pcs s 1 = HIdle"

lemma sched_run_append:
  assumes "sched_run P cs s = Some (h1, s1)" "sched_run P ds s1 = Some (h2, s2)"
  shows "sched_run P (cs @ ds) s = Some (h1 @ h2, s2)"
  using assms
proof (induction cs arbitrary: s h1)
  case (Cons c cs)
  from Cons.prems(1) obtain s' h' where "sched_step P c s = Some s'" "sched_run P cs s' = Some (h', s1)"
    "h1 = sched_event P c s @ h'" by (auto split: option.splits)
  with Cons.IH [OF this(2) Cons.prems(2)] show ?case by simp
qed simp

lemma nine: "replicate 9 x = [x, x, x, x, x, x, x, x, x]" "replicate 8 x = [x, x, x, x, x, x, x, x]"
  "replicate 3 x = [x, x, x]"
  by (simp_all add: numeral_eq_Suc)

lemmas starve_simps = starve_keys starve_tail_key starve_elems starve_bucket starve_program_def lockfree_program_def starve_set_def
  starve_node_def starve_root_def starve_tail_def get_bucket_def bucket_found_def l_start_def l_find_def
  goto_def found_def Matches_def AtOrPast_def prepare_node_def cas_next_def mref_cas_def mref_attempt_mark_def
  set_next_def delete_node_def list_done_def retry_def Let_def

text \<open>Between the two operations of a round the reader's node is out of the list, but still leads to the other one.\<close>

definition starving_alone :: "nat \<Rightarrow> (size_t lockfree, size_t hpc) sys \<Rightarrow> bool" where
  "starving_alone k s \<longleftrightarrow>
     (\<exists>h r. shared s = starve_set h r 1 \<and> length h = Suc (Suc (Suc (Suc k))) \<and> h ! 0 = starve_tail \<and>
        h ! 1 = starve_root (Suc (Suc (Suc k))) \<and> key (h ! Suc (Suc k)) = 1 \<and>
        elem (h ! Suc (Suc k)) = starve_elem k \<and> fst (nxt (h ! Suc (Suc k))) = Some (Suc (Suc (Suc k))) \<and>
        h ! Suc (Suc (Suc k)) = starve_node (Suc k) 0) \<and>
     pcs s 0 = HList (Contains starve_goal) (LLook starve_goal (Suc (Suc k))) \<and> pcs s 1 = HIdle"

lemma starve_remove:
  assumes "starving k s"
  shows "\<exists>s'. sched_run starve_program (CallOp 1 (Remove (starve_elem k)) # replicate 9 (Tick 1) @ [Finish 1]) s =
      Some ([Call 1 (Remove (starve_elem k)), Return 1 True], s') \<and> starving_alone k s'"
proof -
  from assms obtain h r where s: "shared s = starve_set h r 2" "length h = Suc (Suc (Suc (Suc k)))"
    "h ! 0 = starve_tail" "h ! 1 = starve_root (Suc (Suc k))"
    "h ! (Suc (Suc k)) = starve_node k (Suc (Suc (Suc k)))" "h ! (Suc (Suc (Suc k))) = starve_node (Suc k) 0"
    "pcs s 0 = HList (Contains starve_goal) (LLook starve_goal (Suc (Suc k)))" "pcs s 1 = HIdle"
    by (auto simp: starving_def)
  note s = s [unfolded One_nat_def]
  show ?thesis
    by (simp add: nine starve_simps starving_alone_def s)
qed

lemma starve_add:
  assumes "starving_alone k s"
  shows "\<exists>s'. sched_run starve_program
      ((CallOp 1 (Add (starve_elem k)) # replicate 9 (Tick 1) @ [Finish 1]) @ [Tick 0]) s =
      Some ([Call 1 (Add (starve_elem k)), Return 1 True], s') \<and> starving (Suc k) s'"
proof -
  from assms obtain h r where s: "shared s = starve_set h r 1" "length h = Suc (Suc (Suc (Suc k)))"
    "h ! 0 = starve_tail" "h ! 1 = starve_root (Suc (Suc (Suc k)))" "key (h ! Suc (Suc k)) = 1"
    "elem (h ! Suc (Suc k)) = starve_elem k" "fst (nxt (h ! Suc (Suc k))) = Some (Suc (Suc (Suc k)))"
    "h ! (Suc (Suc (Suc k))) = starve_node (Suc k) 0"
    "pcs s 0 = HList (Contains starve_goal) (LLook starve_goal (Suc (Suc k)))" "pcs s 1 = HIdle"
    by (auto simp: starving_alone_def)
  note s = s [unfolded One_nat_def]
  show ?thesis
    by (simp add: nine starve_simps starving_def nth_append s)
qed

lemma starve_round:
  assumes "starving k s"
  shows "\<exists>s'. sched_run starve_program (starve_round k) s =
      Some ([Call 1 (Remove (starve_elem k)), Return 1 True, Call 1 (Add (starve_elem k)), Return 1 True], s') \<and>
    starving (Suc k) s'"
proof -
  from starve_remove [OF assms] obtain s1 where s1:
    "sched_run starve_program (CallOp 1 (Remove (starve_elem k)) # replicate 9 (Tick 1) @ [Finish 1]) s =
      Some ([Call 1 (Remove (starve_elem k)), Return 1 True], s1)" "starving_alone k s1" by blast
  from starve_add [OF s1(2)] obtain s2 where s2: "sched_run starve_program
      ((CallOp 1 (Add (starve_elem k)) # replicate 9 (Tick 1) @ [Finish 1]) @ [Tick 0]) s1 =
      Some ([Call 1 (Add (starve_elem k)), Return 1 True], s2)" "starving (Suc k) s2" by blast
  from sched_run_append [OF s1(1) s2(1)] s2(2) show ?thesis unfolding starve_round_def by auto
qed

lemma starve_setup:
  "\<exists>s0 s. construct_lockfree 0 2 2 = Inr s0 \<and>
    sched_run starve_program starve_setup (sys_init starve_program s0) =
      Some ([Call 1 (Add (starve_elem 0)), Return 1 True, Call 1 (Add (starve_elem 1)), Return 1 True, Call 0 (Contains starve_goal)], s) \<and>
    starving 0 s"
proof -
  have "replicate 2 None = [None, None :: addr option]" by (simp add: numeral_eq_Suc)
  then have s0: "construct_lockfree 0 2 2 = Inr (starve_set [starve_tail, starve_root 0] [] 0)"
    by (simp add: construct_lockfree_def not_pow2_def MakeRoot_def starve_set_def starve_tail_def
        starve_root_def kMaxBuckets_def kKeyMask_def kKeyBits_def)
  have "\<exists>s. sched_run starve_program starve_setup
      (sys_init starve_program (starve_set [starve_tail, starve_root 0] [] 0)) =
      Some ([Call 1 (Add (starve_elem 0)), Return 1 True, Call 1 (Add (starve_elem 1)), Return 1 True, Call 0 (Contains starve_goal)], s) \<and>
      starving 0 s"
    by (simp add: starve_setup_def sys_init_def nine starve_simps starving_def)
  with s0 show ?thesis by blast
qed

section \<open>Property\<close>

text \<open>
  C34 (liveness): \<open>Contains\<close> is not wait-free. On a set of at most two elements, with one other thread,
  there is an infinite schedule, of which \<open>starve_schedule n\<close> is a part for every \<open>n\<close>, in which the
  thread 0 calls \<open>Contains\<close> once, takes \<open>n + 3\<close> steps in that part, and has not returned; it reads a node
  of the list at every one of the last \<open>n\<close>.
\<close>

theorem contains_can_starve:
  "\<exists>s0. construct_lockfree 0 2 2 = Inr s0 \<and>
    (\<forall>n. \<exists>h s. sched_run starve_program (starve_schedule n) (sys_init starve_program s0) = Some (h, s) \<and>
       prefix (starve_schedule n) (starve_schedule (Suc n)) \<and>
       count_list (starve_schedule n) (Tick 0) = n + 3 \<and>
       count_list h (Call 0 (Contains starve_goal)) = 1 \<and> (\<forall>r. Return 0 r \<notin> set h) \<and>
       pcs s 0 = HList (Contains starve_goal) (LLook starve_goal (n + 2)))"
proof -
  from starve_setup obtain s0 s1 where s0: "construct_lockfree 0 2 2 = Inr s0"
    and s1: "sched_run starve_program starve_setup (sys_init starve_program s0) =
      Some ([Call 1 (Add (starve_elem 0)), Return 1 True, Call 1 (Add (starve_elem 1)), Return 1 True, Call 0 (Contains starve_goal)], s1)"
      "starving 0 s1" by blast
  have "\<exists>h s. sched_run starve_program (starve_schedule n) (sys_init starve_program s0) = Some (h, s) \<and>
      starving n s \<and> count_list h (Call 0 (Contains starve_goal)) = 1 \<and> (\<forall>r. Return 0 r \<notin> set h)" for n
  proof (induction n)
    case 0
    have "starve_schedule 0 = starve_setup" by (simp add: starve_schedule_def)
    with s1 show ?case
      by (intro exI [of _ "[Call 1 (Add (starve_elem 0)), Return 1 True, Call 1 (Add (starve_elem 1)), Return 1 True,
        Call 0 (Contains starve_goal)]"] exI [of _ s1]) simp
  next
    case (Suc n)
    then obtain h s where IH: "sched_run starve_program (starve_schedule n) (sys_init starve_program s0) = Some (h, s)"
      "starving n s" "count_list h (Call 0 (Contains starve_goal)) = 1" "\<forall>r. Return 0 r \<notin> set h" by blast
    from starve_round [OF IH(2)] obtain s' where s': "sched_run starve_program (starve_round n) s =
      Some ([Call 1 (Remove (starve_elem n)), Return 1 True, Call 1 (Add (starve_elem n)), Return 1 True], s')"
      "starving (Suc n) s'" by blast
    have "starve_schedule (Suc n) = starve_schedule n @ starve_round n" by (simp add: starve_schedule_def)
    with sched_run_append [OF IH(1) s'(1)] IH(3,4) s'(2) show ?case
      by (intro exI [of _ "h @ [Call 1 (Remove (starve_elem n)), Return 1 True, Call 1 (Add (starve_elem n)), Return 1 True]"]
        exI [of _ s']) simp
  qed
  moreover have "prefix (starve_schedule n) (starve_schedule (Suc n))" for n
    by (rule prefixI [of _ _ "starve_round n"]) (simp add: starve_schedule_def)
  moreover have "count_list (starve_schedule n) (Tick 0) = n + 3" for n
    by (induction n) (simp_all add: starve_schedule_def starve_setup_def starve_round_def nine)
  ultimately show ?thesis using s0 unfolding starving_def by (metis add_2_eq_Suc')
qed

end
