(* ===== verification/ContainsBounded.thy ===== *)
theory ContainsBounded
  imports LockFreeProps
begin

text \<open>
  The traversal of \<open>Contains\<close> when no two elements have the same key. Every reference of a node that is
  or has been in the list leads to one that comes after it, and then to one with a greater key; so a
  traversal meets each key once, whatever the other threads do, and the number of its steps is bounded
  by the number of keys. (\<open>ContainsStarves\<close> has a run for elements with the same key.)
\<close>

section \<open>Nodes stay\<close>

definition kept :: "'a node list \<Rightarrow> 'a node list \<Rightarrow> bool" where
  "kept h h' \<longleftrightarrow>
     length h \<le> length h' \<and> (\<forall>a < length h. key (h' ! a) = key (h ! a) \<and> elem (h' ! a) = elem (h ! a))"

lemma kept_refl: "kept h h"
  by (simp add: kept_def)

lemma kept_trans: "kept h1 h2 \<Longrightarrow> kept h2 h3 \<Longrightarrow> kept h1 h3"
  by (simp add: kept_def)

lemma sched_step_cases:
  assumes "sched_step (lockfree_program hash d) c s = Some s1"
  obtains (other) t pc where "shared s1 = shared s" "pcs s1 = (pcs s)(t := pc)"
      "(\<exists>x. c = CallOp t x \<and> pcs s t = HIdle) \<or> c = Finish t"
    | (tick) t sh pc where "c = Tick t" "lf_step hash d (shared s) (pcs s t) = Some (sh, pc)"
        "s1 = s\<lparr>shared := sh, pcs := (pcs s)(t := pc)\<rparr>"
proof (cases c)
  case (Tick t)
  with assms that(2) [of t] show thesis by (auto simp: lockfree_program_def split: option.splits)
qed (use assms that(1) in \<open>auto simp: lockfree_program_def split: if_splits option.splits\<close>)

lemma sched_step_kept:
  assumes "construct_lockfree d initial_capacity max_capacity = Inr s0"
    and "sys_run (lockfree_program hash d) (sys_init (lockfree_program hash d) s0) h s"
    and "sched_step (lockfree_program hash d) c s = Some s1"
  shows "kept (heap (lf_list (shared s))) (heap (lf_list (shared s1)))"
  using assms(3)
proof (cases rule: sched_step_cases)
  case (tick t sh pc)
  from lf_reach [OF assms(1,2)] obtain i C P where at: "lf_sim_at hash C P s i" .
  note sim = lf_sim_atD [OF at]
  from lf_step_goes [OF sim(2,1,6) tick(2)] obtain C' P' w where
    "evolves hash (heap (lf_list (shared s))) C P w (heap (lf_list sh)) C' P'"
    by (auto simp: lf_goes_def h_move_def Let_def)
  with evolves_const evolves_length tick(3) show ?thesis unfolding kept_def by fastforce
qed (simp add: kept_refl)

lemma sched_run_kept:
  assumes "construct_lockfree d initial_capacity max_capacity = Inr s0"
    and "sys_run (lockfree_program hash d) (sys_init (lockfree_program hash d) s0) h s"
    and "sched_run (lockfree_program hash d) cs s = Some (ev, s')"
  shows "kept (heap (lf_list (shared s))) (heap (lf_list (shared s')))"
  using assms(2,3)
proof (induction cs arbitrary: s h ev)
  case (Cons c cs)
  from Cons.prems(2) obtain s1 ev1 where s1: "sched_step (lockfree_program hash d) c s = Some s1"
    "sched_run (lockfree_program hash d) cs s1 = Some (ev1, s')"
    by (auto simp del: sched_step.simps split: option.splits)
  obtain l where "sys_step (lockfree_program hash d) s l s1" using sched_step_sound [OF s1(1)] by blast
  from Cons.IH [OF run_step [OF Cons.prems(1) this] s1(2)] show ?case
    by (rule kept_trans [OF sched_step_kept [OF assms(1) Cons.prems(1) s1(1)]])
qed (simp add: kept_refl)

section \<open>Which keys there are\<close>

text \<open>
  A node is the tail, the sentinel of a bucket, or of an element that an \<open>Add\<close> was called with; \<open>A\<close> are
  these elements, \<open>m\<close> is the maximum capacity.
\<close>

definition labelled :: "('a \<Rightarrow> size_t) \<Rightarrow> size_t \<Rightarrow> 'a set \<Rightarrow> 'a node list \<Rightarrow> bool" where
  "labelled hash m A h \<longleftrightarrow>
     (\<forall>n \<in> set h. key n = kTailKey \<or> (\<exists>i < m. key n = MakeSentinelKey i) \<or>
        elem n \<in> A \<and> key n = MakeOrdinaryKey hash (elem n))"

fun adding :: "'a task \<Rightarrow> 'a set" where
  "adding (Inl (Add e)) = {e}"
| "adding x = {}"

fun hpc_adds :: "'a hpc \<Rightarrow> 'a set" where
  "hpc_adds (HCapacity x) = adding (Inl x)"
| "hpc_adds (HBucket x i js) = adding (Inl x)"
| "hpc_adds (HSentinel x i js pc) = adding (Inl x)"
| "hpc_adds (HList x pc) = adding (Inl x)"
| "hpc_adds pc = {}"

lemma labelled_set_next:
  assumes "labelled hash m A h"
  shows "labelled hash m A (set_next h a r)"
proof (cases "a < length h")
  case True
  then have "h ! a \<in> set h" by simp
  moreover have "n = (h ! a)\<lparr>nxt := r\<rparr> \<or> n \<in> set h" if "n \<in> set (set_next h a r)" for n
    using that set_update_subset_insert [of h a] by (auto simp: set_next_def)
  ultimately have "\<exists>k \<in> set h. key n = key k \<and> elem n = elem k" if "n \<in> set (set_next h a r)" for n
    using that by fastforce
  with assms show ?thesis unfolding labelled_def by metis
qed (use assms in \<open>simp add: set_next_def list_update_beyond\<close>)

lemma labelled_prepare:
  assumes "labelled hash m A (heap s)" "prepare_node hash d c a s = (n, s')" "task_of (c_op c) = x"
    and "adding x \<subseteq> A" "\<And>i. x = Inr i \<Longrightarrow> i < m" "\<And>e. c_op c \<noteq> LRemove e"
  shows "labelled hash m A (heap s')"
proof (cases "c_node c")
  case None
  then have "heap s' = heap s @ [\<lparr>elem = (case lop_elem (c_op c) of None \<Rightarrow> d | Some e \<Rightarrow> e),
      key = lop_key hash (c_op c), nxt = (Some a, False)\<rparr>]"
    using assms(2) by (auto simp: prepare_node_def)
  with assms(1,3-6) show ?thesis by (cases "c_op c") (auto simp: labelled_def)
next
  case (Some b)
  then have "heap s' = set_next (heap s) b (Some a, False)" using assms(2) by (auto simp: prepare_node_def)
  with labelled_set_next [OF assms(1)] show ?thesis by simp
qed

lemma heap_delete: "heap (delete_node r s) = heap s"
  by (simp add: delete_node_def split: option.split)

lemma labelled_found:
  assumes "labelled hash m A (heap s)" "found hash d c p a s = (s', pc')" "task_of (c_op c) = x"
    and "adding x \<subseteq> A" "\<And>i. x = Inr i \<Longrightarrow> i < m"
  shows "labelled hash m A (heap s')"
proof -
  obtain n s1 where pr: "prepare_node hash d c a s = (n, s1)" by fastforce
  have "heap s' = heap s \<or> heap s' = heap s1 \<and> (\<forall>e. c_op c \<noteq> LRemove e)"
    using assms(2) pr by (cases "c_op c") (auto simp: found_def heap_delete split: if_splits)
  with labelled_prepare [OF assms(1) pr assms(3-5)] assms(1) show ?thesis by auto
qed

lemma labelled_l_step:
  assumes lab: "labelled hash m A (heap s)" and "l_step hash d s pc = (s', pc')" "l_ok hash (heap s) C P x pc"
    and "adding x \<subseteq> A" "\<And>i. x = Inr i \<Longrightarrow> i < m"
  shows "labelled hash m A (heap s')"
proof (cases pc)
  case (LScan c p a)
  then show ?thesis
    using assms(2,3) labelled_found [OF lab _ _ assms(4,5)] lab by (auto split: if_splits prod.splits)
qed (use assms(2) lab in \<open>auto simp: cas_next_def Let_def labelled_set_next split: if_splits prod.splits\<close>)

lemma lf_step_adds: "lf_step hash d s pc = Some (s', pc') \<Longrightarrow> hpc_adds pc' \<subseteq> hpc_adds pc"
  by (cases pc) (auto simp: get_bucket_def bucket_found_def list_done_def
      split: if_splits option.splits list.splits lpc.splits lres.splits op.splits prod.splits)

lemma labelled_lf_step:
  assumes lab: "labelled hash m A (heap (lf_list s))" and m: "lf_max_capacity s = m"
    and step: "lf_step hash d s pc = Some (s', pc')" and ok: "h_ok hash m (heap (lf_list s)) C P pc"
    and adds: "hpc_adds pc \<subseteq> A"
  shows "labelled hash m A (heap (lf_list s'))"
proof (cases pc)
  case (HSentinel x i js p)
  show ?thesis
  proof (cases "running p")
    case True
    obtain l p' where l: "l_step hash d (lf_list s) p = (l, p')" by fastforce
    have "s' = s\<lparr>lf_list := l\<rparr>" using step [unfolded HSentinel lf_step_running(1) [OF True l]] by simp
    with labelled_l_step [OF lab l, of C P "Inr i"] ok HSentinel show ?thesis by simp
  next
    case False
    with step HSentinel lab show ?thesis
      by (auto simp: running_def publish_bucket_def split: lpc.splits lres.splits if_splits)
  qed
next
  case (HList x p)
  show ?thesis
  proof (cases "running p")
    case True
    obtain l p' where l: "l_step hash d (lf_list s) p = (l, p')" by fastforce
    have "s' = s\<lparr>lf_list := l\<rparr>" using step [unfolded HList lf_step_running(2) [OF True l]] by simp
    with labelled_l_step [OF lab l, of C P "Inl x"] ok adds HList show ?thesis by simp
  next
    case False
    with step HList lab show ?thesis
      by (auto simp: running_def list_done_def split: lpc.splits lres.splits op.splits if_splits)
  qed
qed (use step lab in \<open>auto split: if_splits\<close>)

lemma labelled_run:
  assumes cons: "construct_lockfree d initial_capacity max_capacity = Inr s0"
    and "sys_run (lockfree_program hash d) (sys_init (lockfree_program hash d) s0) h s"
    and "\<And>t e. Call t (Add e) \<in> set h \<Longrightarrow> e \<in> A"
  shows "labelled hash max_capacity A (heap (lf_list (shared s))) \<and> (\<forall>t. hpc_adds (pcs s t) \<subseteq> A)"
  using assms(2,3)
proof induction
  case run_start
  note c = construct_cases [OF cons]
  have "max_capacity \<noteq> 0" using c(3,4) by (auto simp: word_le_nat_alt)
  then have "0 < max_capacity" by (simp add: word_gt_0)
  moreover have "0 = MakeSentinelKey 0" by code_simp
  ultimately show ?case
    using c(7) by (auto simp: sys_init_def lockfree_program_def labelled_def MakeRoot_def)
next
  case (run_step h s1 l s2)
  then have IH: "labelled hash max_capacity A (heap (lf_list (shared s1)))" "\<And>t. hpc_adds (pcs s1 t) \<subseteq> A"
    by auto
  from run_step.hyps(2) show ?case
  proof cases
    case (step_call t x)
    have "adding (Inl x) \<subseteq> A"
      using run_step.prems step_call(1) by (cases x) (auto simp: visible_def)
    with IH step_call show ?thesis by (simp add: lockfree_program_def)
  next
    case (step_internal t sh pc)
    then have st: "lf_step hash d (shared s1) (pcs s1 t) = Some (sh, pc)" by (simp add: lockfree_program_def)
    from lf_reach [OF cons run_step.hyps(1)] obtain i C P where "lf_sim_at hash C P s1 i" .
    note sim = lf_sim_atD [OF this] and max = lockfree_max [OF cons run_step.hyps(1)]
    from labelled_lf_step [OF IH(1) max st sim(6) [unfolded max] IH(2)] lf_step_adds [OF st] IH step_internal
    show ?thesis by (auto dest: subsetD)
  next
    case (step_return t r)
    with IH show ?thesis by (simp add: lockfree_program_def)
  qed
qed

lemma labelled_keys:
  assumes "labelled hash m A h" "finite A"
  shows "card (key ` set h) \<le> unat m + card A + 1"
    and "elem ` {n \<in> set h. is_elem n} \<subseteq> A"
proof -
  let ?K = "insert kTailKey (MakeSentinelKey ` {i. i < m} \<union> MakeOrdinaryKey hash ` A)"
  have "inj_on unat {i. i < m}" by (rule inj_onI) (simp add: word_unat_eq_iff)
  moreover have "unat ` {i. i < m} \<subseteq> {..<unat m}" by (auto simp: word_less_nat_alt)
  ultimately have "card {i. i < m} \<le> unat m" using card_inj_on_le [of unat _ "{..<unat m}"] by simp
  then have s: "card (MakeSentinelKey ` {i. i < m}) \<le> unat m" using card_image_le [of "{i. i < m}" MakeSentinelKey]
    by simp
  have "card ?K \<le> Suc (card (MakeSentinelKey ` {i. i < m} \<union> MakeOrdinaryKey hash ` A))"
    by (rule card_insert_le_m1) simp_all
  also have "\<dots> \<le> Suc (unat m + card A)"
    using card_Un_le [of "MakeSentinelKey ` {i. i < m}" "MakeOrdinaryKey hash ` A"] s
      card_image_le [OF assms(2), of "MakeOrdinaryKey hash"] by linarith
  finally have "card ?K \<le> unat m + card A + 1" by simp
  moreover have "key ` set h \<subseteq> ?K" using assms(1) by (fastforce simp: labelled_def)
  then have "card (key ` set h) \<le> card ?K" by (rule card_mono [rotated]) (simp add: assms(2))
  ultimately show "card (key ` set h) \<le> unat m + card A + 1" by simp
  show "elem ` {n \<in> set h. is_elem n} \<subseteq> A"
    using assms(1) even_sentinel by (fastforce simp: labelled_def is_elem_def)
qed

section \<open>The steps still to come\<close>

text \<open>
  For a thread in \<open>Contains\<close>, with \<open>h\<close> the heap of a later state: the keys of its nodes that are not
  behind the thread, and the step that takes the result.
\<close>

fun look_rank :: "'a node list \<Rightarrow> 'a hpc \<Rightarrow> nat" where
  "look_rank h (HList x (LLook e a)) = card {k \<in> key ` set h. key (h ! a) \<le> k} + 1"
| "look_rank h (HList x (LRet r)) = 1"
| "look_rank h pc = 0"

fun looking :: "'a hpc \<Rightarrow> bool" where
  "looking (HList (Contains e) (LLook x a)) = True"
| "looking (HList (Contains e) (LRet (RBool r))) = True"
| "looking (HRet r) = True"
| "looking pc = False"

lemma precedes_key:
  assumes "precedes m n" "is_elem m \<Longrightarrow> is_elem n \<Longrightarrow> inj_on (MakeOrdinaryKey hash) {elem m, elem n}"
    and "is_elem m \<Longrightarrow> key m = MakeOrdinaryKey hash (elem m)"
    and "is_elem n \<Longrightarrow> key n = MakeOrdinaryKey hash (elem n)"
  shows "key m < key n"
proof (rule ccontr)
  assume "\<not> key m < key n"
  with assms(1) have same: "key m = key n" "is_elem m" "elem m \<noteq> elem n" by (auto simp: precedes_def)
  then have "is_elem n" by (simp add: is_elem_def)
  with assms(3,4) same have "MakeOrdinaryKey hash (elem m) = MakeOrdinaryKey hash (elem n)" by simp
  with assms(2) [OF same(2) \<open>is_elem n\<close>] same(3) show False by (auto dest: inj_onD)
qed

text \<open>A step of the thread lowers the rank, as long as there is one to take.\<close>

lemma look_tick:
  assumes "construct_lockfree d initial_capacity max_capacity = Inr s0"
    and "sys_run (lockfree_program hash d) (sys_init (lockfree_program hash d) s0) h s"
    and "lf_step hash d (shared s) (pcs s t) = Some (sh, pc)" "looking (pcs s t)"
    and "kept (heap (lf_list (shared s))) h'" "inj_on (MakeOrdinaryKey hash) (elem ` {n \<in> set h'. is_elem n})"
  shows "looking pc \<and> look_rank h' pc < look_rank h' (pcs s t)"
proof -
  let ?h = "heap (lf_list (shared s))"
  from lf_reach [OF assms(1,2)] obtain i C P where at: "lf_sim_at hash C P s i" .
  note sim = lf_sim_atD [OF at]
  from assms(4) show ?thesis
  proof (cases "pcs s t" rule: looking.cases)
    case (1 e x a)
    then have P: "a \<in> P" "x = e" using sim(6) [of t] by auto
    note len = list_inv_less [OF sim(1) P(1)]
    show ?thesis
    proof (cases "AtOrPast (?h ! a) (MakeOrdinaryKey hash e) (Some e)")
      case True
      with 1 assms(3) len P(2) have "pc = HList (Contains e) (LRet (RBool (Matches (?h ! a)
          (MakeOrdinaryKey hash e) (Some e) \<and> \<not> marked ?h a)))" by (auto simp: Let_def)
      moreover have "h' ! a \<in> set h'" using assms(5) len by (simp add: kept_def)
      then have "key (h' ! a) \<in> key ` set h'" by blast
      then have "0 < card {k \<in> key ` set h'. key (h' ! a) \<le> k}" by (auto simp: card_gt_0_iff)
      ultimately show ?thesis using 1 by simp
    next
      case False
      obtain b where b: "ref ?h a = Some b" using ref_not_null [OF sim(1) P(1) op_target False] by metis
      with ref_precedes [OF sim(1) P(1) b] have bP: "b \<in> P" "precedes (?h ! a) (?h ! b)" by simp_all
      have lenb: "b < length ?h" by (rule list_inv_less [OF sim(1) bP(1)])
      have same: "key (h' ! c) = key (?h ! c)" "elem (h' ! c) = elem (?h ! c)" "h' ! c \<in> set h'"
        if "c < length ?h" for c using assms(5) that by (simp_all add: kept_def)
      have "key (?h ! a) < key (?h ! b)"
      proof (rule precedes_key [OF bP(2)])
        assume "is_elem (?h ! a)" "is_elem (?h ! b)"
        then have "h' ! a \<in> {n \<in> set h'. is_elem n}" "h' ! b \<in> {n \<in> set h'. is_elem n}"
          using same [OF len] same [OF lenb] by (simp_all add: is_elem_def)
        then have "{elem (h' ! a), elem (h' ! b)} \<subseteq> elem ` {n \<in> set h'. is_elem n}" by blast
        then show "inj_on (MakeOrdinaryKey hash) {elem (?h ! a), elem (?h ! b)}"
          using inj_on_subset [OF assms(6)] unfolding same(2) [OF len] same(2) [OF lenb] by blast
      qed (use list_inv_published [OF sim(1)] P(1) bP(1) in \<open>simp_all add: published_def\<close>)
      then have less: "key (h' ! a) < key (h' ! b)" using same len lenb by simp
      have "key (h' ! a) \<in> key ` set h'" using same(3) [OF len] by blast
      with less have "key (h' ! a) \<in> {k \<in> key ` set h'. key (h' ! a) \<le> k}"
        "key (h' ! a) \<notin> {k \<in> key ` set h'. key (h' ! b) \<le> k}"
        "{k \<in> key ` set h'. key (h' ! b) \<le> k} \<subseteq> {k \<in> key ` set h'. key (h' ! a) \<le> k}" by auto
      then have "{k \<in> key ` set h'. key (h' ! b) \<le> k} \<subset> {k \<in> key ` set h'. key (h' ! a) \<le> k}" by blast
      then have "card {k \<in> key ` set h'. key (h' ! b) \<le> k} < card {k \<in> key ` set h'. key (h' ! a) \<le> k}"
        by (rule psubset_card_mono [rotated]) simp
      moreover have "pc = HList (Contains e) (LLook e b)"
        using 1 assms(3) len P(2) b False by (auto simp: Let_def goto_def)
      ultimately show ?thesis using 1 by simp
    qed
  qed (use assms(3) in \<open>auto simp: list_done_def\<close>)
qed

lemma looking_ticks:
  assumes "construct_lockfree d initial_capacity max_capacity = Inr s0"
    and "sys_run (lockfree_program hash d) (sys_init (lockfree_program hash d) s0) h s"
    and "sched_run (lockfree_program hash d) cs s = Some (ev, s')"
    and "looking (pcs s t)" "Finish t \<notin> set cs"
    and "inj_on (MakeOrdinaryKey hash) (elem ` {n \<in> set (heap (lf_list (shared s'))). is_elem n})"
  shows "count_list cs (Tick t) + look_rank (heap (lf_list (shared s'))) (pcs s' t) \<le>
      look_rank (heap (lf_list (shared s'))) (pcs s t) \<and> looking (pcs s' t)"
  using assms(2-5)
proof (induction cs arbitrary: s h ev)
  case (Cons c cs)
  from Cons.prems(2) obtain s1 ev1 where s1: "sched_step (lockfree_program hash d) c s = Some s1"
    "sched_run (lockfree_program hash d) cs s1 = Some (ev1, s')"
    by (auto simp del: sched_step.simps split: option.splits)
  obtain l where "sys_step (lockfree_program hash d) s l s1" using sched_step_sound [OF s1(1)] by blast
  note IH = Cons.IH [OF run_step [OF Cons.prems(1) this] s1(2)]
  from s1(1) show ?case
  proof (cases rule: sched_step_cases)
    case (other u pc)
    then have "u \<noteq> t" using Cons.prems(3,4) by auto
    with other have "pcs s1 t = pcs s t" "c \<noteq> Tick t" by auto
    with IH Cons.prems(3,4) show ?thesis by auto
  next
    case (tick u sh pc)
    show ?thesis
    proof (cases "u = t")
      case False
      with tick have "pcs s1 t = pcs s t" "c \<noteq> Tick t" by auto
      with IH Cons.prems(3,4) show ?thesis by auto
    next
      case True
      then have "lf_step hash d (shared s) (pcs s t) = Some (sh, pc)" "pcs s1 t = pc" using tick by simp_all
      with look_tick [OF assms(1) Cons.prems(1) _ Cons.prems(3) sched_run_kept [OF assms(1) Cons.prems(1,2)] assms(6)]
      have "looking (pcs s1 t) \<and> look_rank (heap (lf_list (shared s'))) (pcs s1 t) <
          look_rank (heap (lf_list (shared s'))) (pcs s t)" by blast
      with IH Cons.prems(4) tick(1) True show ?thesis by fastforce
    qed
  qed
qed simp

section \<open>Property\<close>

text \<open>
  C33 (bounds): \<open>BucketList::Contains\<close> is wait-free when no two elements have the same key. Let \<open>A\<close> be
  any finite set that has all the elements \<open>Add\<close> is ever called with, and let their keys differ. A thread
  at the beginning of the traversal of a bucket can always move until it has its result, and it has the
  result after at most as many steps as \<open>A\<close> has elements, plus the maximum capacity, plus 2: a bound that
  does not depend on what the other threads do or how often. (\<open>HashSetLockFree::Contains\<close> as a whole is
  not wait-free: before the traversal it may have to insert the sentinel of its bucket.)
\<close>

theorem contains_wait_free:
  assumes "construct_lockfree d initial_capacity max_capacity = Inr s0"
    and "sys_run (lockfree_program hash d) (sys_init (lockfree_program hash d) s0) h s"
    and "pcs s t = HList (Contains e) (LLook e a)"
    and "sched_run (lockfree_program hash d) cs s = Some (ev, s')" "Finish t \<notin> set cs"
    and "finite A" "\<And>u x. Call u (Add x) \<in> set (h @ ev) \<Longrightarrow> x \<in> A" "inj_on (MakeOrdinaryKey hash) A"
  shows "((\<exists>r. pcs s' t = HRet r) \<or> lf_step hash d (shared s') (pcs s' t) \<noteq> None) \<and>
    count_list cs (Tick t) \<le> card A + unat max_capacity + 2"
proof -
  let ?K = "key ` set (heap (lf_list (shared s')))"
  have "labelled hash max_capacity A (heap (lf_list (shared s')))"
    using labelled_run [OF assms(1) sys_run_trans [OF assms(2) sched_run_sound [OF assms(4)]]] assms(7) by blast
  note keys = labelled_keys [OF this assms(6)]
  have "looking (pcs s t)" using assms(3) by simp
  note ticks = looking_ticks [OF assms(1,2,4) this assms(5) inj_on_subset [OF assms(8) keys(2)]]
  have "count_list cs (Tick t) \<le> card {k \<in> ?K. key (heap (lf_list (shared s')) ! a) \<le> k} + 1"
    using ticks assms(3) by simp
  also have "\<dots> \<le> card ?K + 1" by (intro add_right_mono card_mono) auto
  finally have "count_list cs (Tick t) \<le> card A + unat max_capacity + 2" using keys(1) by linarith
  moreover from ticks have "looking (pcs s' t)" by blast
  then have "(\<exists>r. pcs s' t = HRet r) \<or> lf_step hash d (shared s') (pcs s' t) \<noteq> None"
    by (cases "pcs s' t" rule: looking.cases) auto
  ultimately show ?thesis by blast
qed

text \<open>Thread 1 looks for the element that thread 0 has added.\<close>

theorem contains_wait_free_witness:
  "\<exists>s s' ev. pcs s 1 = HList (Contains 0) (LLook 0 1) \<and>
    sched_run ex_program [Tick 1, Tick 1, Tick 1] s = Some (ev, s') \<and> pcs s' 1 = HRet True \<and>
    count_list [Tick 1, Tick 1, Tick (1 :: nat)] (Tick 1 :: nat choice) \<le> card {0 :: nat} + unat (4 :: size_t) + 2"
proof -
  obtain s s' where s: "sched_run ex_program (ex_add @ [CallOp 1 (Contains 0), Tick 1, Tick 1]) (sys_init ex_program ex_start) =
      Some ([Call 0 (Add 0), Return 0 True, Call 1 (Contains 0)], s)"
    "pcs s 1 = HList (Contains 0) (LLook 0 1)"
    "sched_run ex_program [Tick 1, Tick 1, Tick 1] s = Some ([], s')" "pcs s' 1 = HRet True"
    by (simp add: ex_add_def ex_simps)
  from contains_wait_free [OF ex_construct sched_run_sound [OF s(1), unfolded ex_program_def] s(2)
      s(3) [unfolded ex_program_def], of "{0}"]
  have "count_list [Tick 1, Tick 1, Tick (1 :: nat)] (Tick 1 :: nat choice) \<le> card {0 :: nat} + unat (4 :: size_t) + 2"
    by (auto simp only: set_append) auto
  with s(2-4) show ?thesis by blast
qed

end
