(* ===== verification/EpochReclaimer.thy ===== *)
theory EpochReclaimer
  imports Prelude
begin

text \<open>
  \<open>EpochReclaimer.h\<close>: epoch-based reclamation. Each thread has a participant with the epoch it has
  announced and three bags of nodes it has retired; a global epoch advances when every announced
  thread is at it; a thread frees a bag when the epoch it announces is two past the bag's.

  The clients are part of the model: a node is linked into the structure, unlinked by one thread,
  which then retires it, and may be read by a thread from the guard in which it was reachable until
  that guard is left (\<open>visible\<close>). Nodes are numbers, fresh ones each time. The steps interleave
  under sequential consistency, so the fences have no effect here except for the outcome of
  \<open>membarrier\<close>, which the system decides (the action \<open>Fenced\<close>).
\<close>

section \<open>State\<close>

definition kBags :: size_t where
  "kBags = 3"

definition kInactive :: size_t where
  "kInactive = - 1"

definition kRetiresPerAdvance :: size_t where
  "kRetiresPerAdvance = 1024"

text \<open>
  A participant, without \<open>next\<close> and \<open>owner\<close>: participants are named by their owners, and the
  state keeps the owners in the order of the linked list.
\<close>

record participant =
  p_epoch :: size_t
  announced :: size_t
  retires :: size_t
  bag_epochs :: "size_t list"
  bags :: "nat list list"

definition new_participant :: participant where
  "new_participant =
     \<lparr>p_epoch = kInactive, announced = 0, retires = 0,
      bag_epochs = replicate (unat kBags) kInactive, bags = replicate (unat kBags) []\<rparr>"

text \<open>
  Where a thread is. \<open>ALookup\<close>, \<open>ANext\<close>, \<open>APush\<close> are \<open>Adopt\<close>; \<open>GLoad\<close>, \<open>GEnter\<close> and \<open>GAnnounce\<close> the constructor
  of \<open>Guard\<close>; \<open>GRetire n\<close> has unlinked \<open>n\<close>; the \<open>T\<close> states are \<open>TryAdvance\<close>, with the part of the
  participants a scan has still to visit; \<open>GThrow\<close> is the exception of \<open>TryAdvance\<close> on its way out
  of the guard.
\<close>

datatype epc =
    GIdle
  | ALookup | ANext | APush "tid list"
  | GLoad | GEnter size_t | GAnnounce size_t
  | GActive | GRetire nat
  | TLoad | THead1 size_t | TScan1 size_t "tid list" | TExchange size_t | TFence size_t
  | THead2 size_t | TScan2 size_t "tid list" | TCas size_t | TStore bool
  | GThrow
  | GUndef

record reclaimer =
  e_epoch :: size_t
  participants :: "tid list"
  slot :: "tid \<Rightarrow> participant"
  advancing :: bool
  cached :: "tid \<Rightarrow> bool"
  freed :: "nat list"
  linked :: "nat set"
  visible :: "tid \<Rightarrow> nat set"
  fresh :: nat
  e_pc :: "tid \<Rightarrow> epc"

definition construct_reclaimer :: "bool \<Rightarrow> exn + reclaimer" where
  "construct_reclaimer registered =
     (if \<not> registered
      then Inl (Runtime_error ''membarrier is required for epoch-based reclamation'')
      else Inr \<lparr>e_epoch = 0, participants = [], slot = (\<lambda>_. new_participant), advancing = False,
                cached = (\<lambda>_. False), freed = [], linked = {}, visible = (\<lambda>_. {}), fresh = 0,
                e_pc = (\<lambda>_. GIdle)\<rparr>)"

text \<open>The destructor deletes every participant with what is left in its bags.\<close>

definition destroy_reclaimer :: "reclaimer \<Rightarrow> nat list" where
  "destroy_reclaimer s = concat (map (\<lambda>u. concat (bags (slot s u))) (participants s))"

section \<open>Operations on a participant\<close>

text \<open>\<open>FreeBag\<close> of the bag at an index: what is freed and the participant.\<close>

definition FreeBag :: "nat \<Rightarrow> participant \<Rightarrow> nat list \<times> participant" where
  "FreeBag i p = (bags p ! i, p\<lparr>bags := (bags p)[i := []]\<rparr>)"

definition collect_bag :: "size_t \<Rightarrow> nat \<Rightarrow> participant \<Rightarrow> nat list \<times> participant" where
  "collect_bag epoch_now i p =
     (if bag_epochs p ! i \<noteq> kInactive \<and> bag_epochs p ! i + 2 \<le> epoch_now
      then let (ns, p) = FreeBag i p in (ns, p\<lparr>bag_epochs := (bag_epochs p)[i := kInactive]\<rparr>)
      else ([], p))"

fun collect_bags :: "size_t \<Rightarrow> nat list \<Rightarrow> participant \<Rightarrow> nat list \<times> participant" where
  "collect_bags epoch_now [] p = ([], p)"
| "collect_bags epoch_now (i # js) p =
     (let (ns, p) = collect_bag epoch_now i p; (ms, p) = collect_bags epoch_now js p
      in (ns @ ms, p))"

definition CollectGarbage :: "size_t \<Rightarrow> participant \<Rightarrow> nat list \<times> participant" where
  "CollectGarbage epoch_now p = collect_bags epoch_now [0..<unat kBags] p"

text \<open>\<open>Enter\<close> in two steps: everything before the store to \<open>epoch\<close>, and that store.\<close>

definition Enter :: "size_t \<Rightarrow> participant \<Rightarrow> nat list \<times> participant" where
  "Enter epoch_now p =
     (let (ns, p) = (if epoch_now \<noteq> announced p then CollectGarbage epoch_now p else ([], p))
      in (ns, p\<lparr>announced := epoch_now\<rparr>))"

definition Announce :: "size_t \<Rightarrow> participant \<Rightarrow> participant" where
  "Announce epoch_now p = p\<lparr>p_epoch := epoch_now\<rparr>"

definition Leave :: "participant \<Rightarrow> participant" where
  "Leave p = p\<lparr>p_epoch := kInactive\<rparr>"

text \<open>
  \<open>Retire\<close> up to the call of \<open>TryAdvance\<close>; the boolean says whether that is due.
\<close>

definition Retire :: "nat \<Rightarrow> participant \<Rightarrow> nat list \<times> participant \<times> bool" where
  "Retire n p =
     (let bag_epoch = announced p + 1; index = unat (bag_epoch mod kBags);
          (ns, p) = (if bag_epochs p ! index \<noteq> bag_epoch
                     then let (ns, p) = FreeBag index p
                          in (ns, p\<lparr>bag_epochs := (bag_epochs p)[index := bag_epoch]\<rparr>)
                     else ([], p));
          p = p\<lparr>bags := (bags p)[index := push_back (bags p ! index) n], retires := retires p + 1\<rparr>
      in if retires p = kRetiresPerAdvance then (ns, p\<lparr>retires := 0\<rparr>, True) else (ns, p, False))"

section \<open>Steps\<close>

text \<open>
  \<open>Go\<close> is the next step of the code. The other actions are the choices of the client (begin and end
  of a guard, linking a new node, unlinking a node), of the system (the result of \<open>membarrier\<close>),
  and of the thread's use of another reclaimer, which evicts this one from its cache.
\<close>

datatype action = Begin | Go | Fenced bool | Link | Unlink nat | End | Evict

definition jump :: "tid \<Rightarrow> epc \<Rightarrow> reclaimer \<Rightarrow> reclaimer" where
  "jump t pc s = s\<lparr>e_pc := (e_pc s)(t := pc)\<rparr>"

definition put :: "tid \<Rightarrow> participant \<Rightarrow> nat list \<Rightarrow> reclaimer \<Rightarrow> reclaimer" where
  "put t p ns s = s\<lparr>slot := (slot s)(t := p), freed := freed s @ ns\<rparr>"

text \<open>One participant of a scan, \<open>AllAtEpoch\<close>.\<close>

definition at_epoch :: "reclaimer \<Rightarrow> size_t \<Rightarrow> tid \<Rightarrow> bool" where
  "at_epoch s e u \<longleftrightarrow> p_epoch (slot s u) = kInactive \<or> p_epoch (slot s u) = e"

fun go :: "tid \<Rightarrow> reclaimer \<Rightarrow> epc \<Rightarrow> reclaimer option" where
  "go t s ALookup =
     Some (if t \<in> set (participants s)
           then jump t GLoad (s\<lparr>cached := (cached s)(t := True)\<rparr>)
           else jump t ANext (s\<lparr>slot := (slot s)(t := new_participant)\<rparr>))"
| "go t s ANext = Some (jump t (APush (participants s)) s)"
| "go t s (APush l) =
     Some (if participants s = l
           then jump t GLoad (s\<lparr>participants := t # l, cached := (cached s)(t := True)\<rparr>)
           else jump t (APush (participants s)) s)"
| "go t s GLoad = Some (jump t (GEnter (e_epoch s)) s)"
| "go t s (GEnter e) =
     Some (if p_epoch (slot s t) \<noteq> kInactive then jump t GUndef s
           else let (ns, p) = Enter e (slot s t) in jump t (GAnnounce e) (put t p ns s))"
| "go t s (GAnnounce e) =
     Some (jump t GActive (put t (Announce e (slot s t)) []
       (s\<lparr>visible := (visible s)(t := linked s)\<rparr>)))"
| "go t s (GRetire n) =
     Some (if p_epoch (slot s t) = kInactive then jump t GUndef s
           else let (ns, p, due) = Retire n (slot s t)
                in jump t (if due then TLoad else GActive) (put t p ns s))"
| "go t s TLoad = Some (jump t (THead1 (e_epoch s)) s)"
| "go t s (THead1 e) = Some (jump t (TScan1 e (participants s)) s)"
| "go t s (TScan1 e []) = Some (jump t (TExchange e) s)"
| "go t s (TScan1 e (u # us)) = Some (jump t (if at_epoch s e u then TScan1 e us else GActive) s)"
| "go t s (TExchange e) =
     Some (if advancing s then jump t GActive s
           else jump t (TFence e) (s\<lparr>advancing := True\<rparr>))"
| "go t s (THead2 e) = Some (jump t (TScan2 e (participants s)) s)"
| "go t s (TScan2 e []) = Some (jump t (TCas e) s)"
| "go t s (TScan2 e (u # us)) =
     Some (jump t (if at_epoch s e u then TScan2 e us else TStore True) s)"
| "go t s (TCas e) =
     Some (jump t (TStore True) (if e_epoch s = e then s\<lparr>e_epoch := e + 1\<rparr> else s))"
| "go t s (TStore fenced) =
     Some (jump t (if fenced then GActive else GThrow) (s\<lparr>advancing := False\<rparr>))"
| "go t s pc = None"

fun e_step :: "tid \<Rightarrow> action \<Rightarrow> reclaimer \<Rightarrow> reclaimer option" where
  "e_step t Go s = go t s (e_pc s t)"
| "e_step t Begin s =
     (if e_pc s t = GIdle then Some (jump t (if cached s t then GLoad else ALookup) s) else None)"
| "e_step t (Fenced b) s =
     (case e_pc s t of
        TFence e \<Rightarrow> Some (jump t (if b then THead2 e else TStore False) s)
      | _ \<Rightarrow> None)"
| "e_step t Link s =
     (if e_pc s t = GActive
      then Some (s\<lparr>linked := insert (fresh s) (linked s),
                   visible := (\<lambda>u. insert (fresh s) (visible s u)), fresh := fresh s + 1\<rparr>)
      else None)"
| "e_step t (Unlink n) s =
     (if e_pc s t = GActive \<and> n \<in> linked s
      then Some (jump t (GRetire n) (s\<lparr>linked := linked s - {n}\<rparr>))
      else None)"
| "e_step t End s =
     (if e_pc s t = GActive \<or> e_pc s t = GThrow
      then Some (jump t GIdle (s\<lparr>slot := (slot s)(t := Leave (slot s t))\<rparr>))
      else None)"
| "e_step t Evict s =
     (if e_pc s t = GIdle then Some (s\<lparr>cached := (cached s)(t := False)\<rparr>) else None)"

fun e_run :: "(tid \<times> action) list \<Rightarrow> reclaimer \<Rightarrow> reclaimer option" where
  "e_run [] s = Some s"
| "e_run ((t, a) # as) s = (case e_step t a s of None \<Rightarrow> None | Some s' \<Rightarrow> e_run as s')"

text \<open>A thread inside a guard: it may read the nodes that are visible to it.\<close>

fun inside :: "epc \<Rightarrow> bool" where
  "inside GIdle = False"
| "inside ALookup = False"
| "inside ANext = False"
| "inside (APush l) = False"
| "inside GLoad = False"
| "inside (GEnter e) = False"
| "inside (GAnnounce e) = False"
| "inside GUndef = False"
| "inside pc = True"

text \<open>Runs in which every guard announces the epoch that is the global one at that moment.\<close>

fun timely :: "(tid \<times> action) list \<Rightarrow> reclaimer \<Rightarrow> bool" where
  "timely [] s \<longleftrightarrow> True"
| "timely ((t, a) # as) s \<longleftrightarrow>
     (\<forall>e. a = Go \<and> e_pc s t = GAnnounce e \<longrightarrow> e = e_epoch s) \<and>
     (case e_step t a s of None \<Rightarrow> True | Some s' \<Rightarrow> timely as s')"

end
