(* ===== verification/EpochSafety.thy ===== *)
theory EpochSafety
  imports EpochReclaimer "HOL-Library.Multiset"
begin

text \<open>
  When epoch-based reclamation is safe. If every guard announces the epoch that is current when its
  announcement is stored, no node is freed while a thread that may read it is still in its guard
  (\<open>epoch_safe\<close>). Every retired node is freed exactly once in any run (\<open>epoch_frees_once\<close>). But a
  guard loads the epoch before it announces it and nothing re-checks it in between, and then a node
  can be freed under a reader (\<open>stale_guard_frees_early\<close>).
\<close>

section \<open>Participants\<close>

text \<open>
  The announced epoch is not ahead of the global one; a bag is unused or labelled with an epoch that
  has its index modulo three and is at most one ahead of what the participant has announced.
\<close>

definition bag_ok :: "participant \<Rightarrow> nat \<Rightarrow> bool" where
  "bag_ok p i \<longleftrightarrow>
     bag_epochs p ! i = kInactive \<and> bags p ! i = [] \<or>
     unat (bag_epochs p ! i) \<le> unat (announced p) + 1 \<and> unat (bag_epochs p ! i) mod 3 = i"

definition part_ok :: "nat \<Rightarrow> participant \<Rightarrow> bool" where
  "part_ok E p \<longleftrightarrow>
     length (bag_epochs p) = 3 \<and> length (bags p) = 3 \<and> unat (announced p) \<le> E \<and>
     (\<forall>i<3. bag_ok p i)"

text \<open>How the bags of a participant change: what is left, and what has been freed by epoch \<open>E\<close>.\<close>

definition bags_change :: "nat \<Rightarrow> participant \<Rightarrow> nat list \<Rightarrow> nat set \<Rightarrow> participant \<Rightarrow> bool" where
  "bags_change E p ns new p' \<longleftrightarrow>
     p_epoch p' = p_epoch p \<and>
     (\<forall>i<3. \<forall>n \<in> set (bags p' ! i).
        n \<in> set (bags p ! i) \<and> bag_epochs p' ! i = bag_epochs p ! i \<or>
        n \<in> new \<and> unat (bag_epochs p' ! i) = unat (announced p) + 1) \<and>
     (\<forall>n \<in> set ns. \<exists>i<3. n \<in> set (bags p ! i) \<and> unat (bag_epochs p ! i) + 2 \<le> E) \<and>
     mset ns + mset (concat (bags p')) = mset (concat (bags p)) + mset_set new"

lemma kBags_unat [simp]: "unat kBags = 3"
  by (simp add: kBags_def)

lemma unat_kInactive: "unat kInactive = 2 ^ 64 - 1"
  by (simp add: kInactive_def unsigned_minus_1_eq_mask mask_eq_exp_minus_1)

lemma mset_concat_update:
  "i < length xs \<Longrightarrow> mset (concat (xs[i := ys])) + mset (xs ! i) = mset (concat xs) + mset ys"
proof (induction xs arbitrary: i)
  case (Cons x xs)
  then show ?case by (cases i) (auto simp: ac_simps)
qed simp

lemma collect_bag_ok:
  assumes p: "part_ok E p" and i: "i < 3" and e: "unat e \<le> E" and E: "E < 2 ^ 63"
    and c: "collect_bag e i p = (ns, p')"
  shows "part_ok E p' \<and> announced p' = announced p \<and> bags_change E p ns {} p'"
proof (cases "bag_epochs p ! i \<noteq> kInactive \<and> bag_epochs p ! i + 2 \<le> e")
  case True
  then have p': "ns = bags p ! i" "p' = p\<lparr>bags := (bags p)[i := []], bag_epochs := (bag_epochs p)[i := kInactive]\<rparr>"
    using c by (auto simp: collect_bag_def FreeBag_def)
  from p i True have "unat (bag_epochs p ! i) \<le> E + 1" by (force simp: part_ok_def bag_ok_def)
  then have "unat (bag_epochs p ! i + 2) = unat (bag_epochs p ! i) + 2"
    using E by (simp add: unat_word_ariths)
  then have old: "unat (bag_epochs p ! i) + 2 \<le> E" using True e by (simp add: word_le_nat_alt)
  have "part_ok E p'" using p i by (auto simp: part_ok_def p' bag_ok_def nth_list_update)
  moreover have "bags_change E p ns {} p'"
    using p i old mset_concat_update [of i "bags p" "[]"]
    by (auto simp: part_ok_def bags_change_def p' nth_list_update ac_simps split: if_splits)
  ultimately show ?thesis by (simp add: p')
next
  case False
  with c p show ?thesis by (auto simp: collect_bag_def bags_change_def)
qed

lemma bags_change_trans:
  assumes 1: "bags_change E p ns {} q" and 2: "bags_change E q ms {} r"
  shows "bags_change E p (ns @ ms) {} r"
proof -
  have left: "n \<in> set (bags p ! i) \<and> bag_epochs q ! i = bag_epochs p ! i"
    if "i < 3" "n \<in> set (bags q ! i)" for i n
    using 1 that by (auto simp: bags_change_def)
  have "n \<in> set (bags p ! i) \<and> bag_epochs r ! i = bag_epochs p ! i"
    if "i < 3" "n \<in> set (bags r ! i)" for i n
    using 2 left that by (auto simp: bags_change_def)
  moreover have "\<exists>i<3. n \<in> set (bags p ! i) \<and> unat (bag_epochs p ! i) + 2 \<le> E" if "n \<in> set ms" for n
  proof -
    from 2 that obtain i where "i < 3" "n \<in> set (bags q ! i)" "unat (bag_epochs q ! i) + 2 \<le> E"
      by (auto simp: bags_change_def)
    with left show ?thesis by auto
  qed
  moreover have "mset (ns @ ms) + mset (concat (bags r)) = mset (concat (bags p))"
  proof -
    have "mset ns + mset (concat (bags q)) = mset (concat (bags p))"
      "mset ms + mset (concat (bags r)) = mset (concat (bags q))"
      using 1 2 by (simp_all add: bags_change_def)
    then show ?thesis by (metis add.assoc mset_append)
  qed
  moreover have "p_epoch r = p_epoch p" using 1 2 by (simp add: bags_change_def)
  moreover have "\<forall>n \<in> set ns. \<exists>i<3. n \<in> set (bags p ! i) \<and> unat (bag_epochs p ! i) + 2 \<le> E"
    using 1 by (simp add: bags_change_def)
  ultimately show ?thesis by (auto simp: bags_change_def)
qed

lemma collect_bags_ok:
  assumes "part_ok E p" "set js \<subseteq> {..<3}" "unat e \<le> E" "E < 2 ^ 63" "collect_bags e js p = (ns, p')"
  shows "part_ok E p' \<and> announced p' = announced p \<and> bags_change E p ns {} p'"
  using assms
proof (induction js arbitrary: p ns)
  case Nil
  then show ?case by (auto simp: bags_change_def)
next
  case (Cons i js)
  obtain ns1 q where q: "collect_bag e i p = (ns1, q)" by fastforce
  obtain ns2 where r: "collect_bags e js q = (ns2, p')" "ns = ns1 @ ns2"
    using Cons.prems(5) q by (auto split: prod.splits)
  have 1: "part_ok E q \<and> announced q = announced p \<and> bags_change E p ns1 {} q"
    using Cons.prems q by (intro collect_bag_ok) auto
  then have "part_ok E p' \<and> announced p' = announced q \<and> bags_change E q ns2 {} p'"
    using Cons.prems r by (intro Cons.IH) auto
  with 1 r(2) bags_change_trans show ?case by auto
qed

lemma Enter_ok:
  assumes p: "part_ok E p" and e: "unat e \<le> E" "unat (announced p) \<le> unat e" "E < 2 ^ 63"
    and c: "Enter e p = (ns, p')"
  shows "part_ok E p' \<and> announced p' = e \<and> bags_change E p ns {} p'"
proof -
  obtain q where q: "(if e \<noteq> announced p then CollectGarbage e p else ([], p)) = (ns, q)"
    and p': "p' = q\<lparr>announced := e\<rparr>"
    using c by (auto simp: Enter_def split: prod.splits)
  have "part_ok E q \<and> announced q = announced p \<and> bags_change E p ns {} q"
  proof (cases "e = announced p")
    case True
    with q p show ?thesis by (auto simp: bags_change_def)
  next
    case False
    with q p e show ?thesis
      by (intro collect_bags_ok [of E p "[0..<3]" e]) (auto simp: CollectGarbage_def)
  qed
  with e show ?thesis by (auto simp: p' part_ok_def bag_ok_def bags_change_def; fastforce)
qed

lemma collect_bag_leaves:
  assumes "part_ok E p" "E < 2 ^ 63" "collect_bag e i p = (ns, q)" "i < 3"
  shows "bags q ! i \<noteq> [] \<Longrightarrow> unat e < unat (bag_epochs q ! i) + 2"
    "j \<noteq> i \<Longrightarrow> bags q ! j = bags p ! j \<and> bag_epochs q ! j = bag_epochs p ! j"
proof -
  show "unat e < unat (bag_epochs q ! i) + 2" if "bags q ! i \<noteq> []"
  proof -
    have q: "q = p" "\<not> (bag_epochs p ! i \<noteq> kInactive \<and> bag_epochs p ! i + 2 \<le> e)"
      using assms that by (auto simp: collect_bag_def FreeBag_def part_ok_def split: if_splits)
    have b: "unat (bag_epochs p ! i) \<le> unat (announced p) + 1" "unat (announced p) \<le> E"
      using assms(1,4) that q(1) by (auto simp: part_ok_def bag_ok_def)
    then have "bag_epochs p ! i \<noteq> kInactive" using assms(2) by (auto simp: unat_kInactive)
    moreover have "unat (bag_epochs p ! i + 2) = unat (bag_epochs p ! i) + 2"
      using b assms(2) by (simp add: unat_word_ariths)
    ultimately show ?thesis using q by (simp add: word_le_nat_alt)
  qed
  show "bags q ! j = bags p ! j \<and> bag_epochs q ! j = bag_epochs p ! j" if "j \<noteq> i"
    using assms(3) that by (auto simp: collect_bag_def FreeBag_def split: if_splits)
qed

lemma collect_bags_keep:
  assumes "collect_bags e js p = (ns, q)" "j \<notin> set js"
  shows "bags q ! j = bags p ! j \<and> bag_epochs q ! j = bag_epochs p ! j"
  using assms
proof (induction js arbitrary: p ns)
  case (Cons i js)
  obtain ns1 p1 where p1: "collect_bag e i p = (ns1, p1)" by fastforce
  then have "bags p1 ! j = bags p ! j \<and> bag_epochs p1 ! j = bag_epochs p ! j"
    using Cons.prems(2) by (auto simp: collect_bag_def FreeBag_def split: if_splits)
  moreover obtain ns2 where "collect_bags e js p1 = (ns2, q)"
    using Cons.prems(1) p1 by (auto split: prod.splits)
  ultimately show ?case using Cons.IH Cons.prems(2) by auto
qed simp

lemma collect_bags_leave:
  assumes "part_ok E p" "E < 2 ^ 63" "unat e \<le> E" "collect_bags e js p = (ns, q)"
    and "distinct js" "set js \<subseteq> {..<3}" "i \<in> set js" "bags q ! i \<noteq> []"
  shows "unat e < unat (bag_epochs q ! i) + 2"
  using assms
proof (induction js arbitrary: p ns)
  case (Cons j js)
  obtain ns1 p1 where p1: "collect_bag e j p = (ns1, p1)" by fastforce
  obtain ns2 where q: "collect_bags e js p1 = (ns2, q)"
    using Cons.prems(4) p1 by (auto split: prod.splits)
  have ok: "part_ok E p1"
    using collect_bag_ok [OF Cons.prems(1) _ Cons.prems(3,2) p1] Cons.prems(6) by auto
  show ?case
  proof (cases "i \<in> set js")
    case True
    with Cons.IH [OF ok Cons.prems(2,3) q] Cons.prems(5,6,8) show ?thesis by auto
  next
    case False
    with Cons.prems(7) have "i = j" by simp
    with collect_bags_keep [OF q False] collect_bag_leaves(1) [OF Cons.prems(1,2) p1]
      Cons.prems(6,8) show ?thesis by auto
  qed
qed simp

lemma Enter_leaves:
  assumes "part_ok E p" "E < 2 ^ 63" "e \<noteq> announced p" "Enter e p = (ns, q)"
    and "i < 3" "bags q ! i \<noteq> []" "unat e \<le> E"
  shows "unat e < unat (bag_epochs q ! i) + 2"
proof -
  obtain q0 where q0: "collect_bags e [0..<3] p = (ns, q0)" "q = q0\<lparr>announced := e\<rparr>"
    using assms(3,4) by (auto simp: Enter_def CollectGarbage_def split: prod.splits)
  have "set [0..<3] \<subseteq> {..<3::nat}" by (simp add: atLeast0LessThan)
  moreover have "i \<in> set [0..<3]" "bags q0 ! i \<noteq> []" using assms(5,6) q0(2) by simp_all
  ultimately have "unat e < unat (bag_epochs q0 ! i) + 2"
    using collect_bags_leave [OF assms(1,2,7) q0(1) distinct_upt] by blast
  then show ?thesis using q0(2) by simp
qed

lemma same_index: "a \<le> b \<Longrightarrow> a \<noteq> b \<Longrightarrow> a mod 3 = b mod 3 \<Longrightarrow> a + 3 \<le> b" for a b :: nat
  by presburger

lemma Retire_ok:
  assumes p: "part_ok E p" and E: "E < 2 ^ 63" and c: "Retire n p = (ns, p', due)"
  shows "part_ok E p' \<and> announced p' = announced p \<and> bags_change E p ns {n} p'"
proof -
  define e where "e = announced p + 1"
  define i where "i = unat (e mod kBags)"
  have ann: "unat (announced p) \<le> E" using p by (simp add: part_ok_def)
  then have e: "unat e = unat (announced p) + 1" using E by (simp add: e_def unat_word_ariths)
  have im: "i = unat e mod 3" by (simp add: i_def unat_mod kBags_def)
  then have i: "i < 3" by simp
  obtain q where q: "(if bag_epochs p ! i \<noteq> e
      then (bags p ! i, p\<lparr>bags := (bags p)[i := []], bag_epochs := (bag_epochs p)[i := e]\<rparr>)
      else ([], p)) = (ns, q)"
    and p': "p' = q\<lparr>bags := (bags q)[i := bags q ! i @ [n]], retires := (if due then 0 else retires p + 1)\<rparr>"
    using c unfolding e_def i_def
    by (auto simp: Retire_def FreeBag_def Let_def push_back_def split: if_splits prod.splits)
  have len: "i < length (bags p)" "length (bags p) = 3" "length (bag_epochs p) = 3"
    using p i by (simp_all add: part_ok_def)
  have ok: "bag_ok p i" using p i by (simp add: part_ok_def)
  show ?thesis
  proof (cases "bag_epochs p ! i = e")
    case True
    then have q': "ns = []" "q = p" using q by simp_all
    have "part_ok E p'" using p i len e im True
      by (auto simp: part_ok_def p' q' bag_ok_def nth_list_update)
    moreover have "bags_change E p ns {n} p'"
      unfolding bags_change_def
    proof (intro conjI allI impI)
      fix j :: nat assume "j < 3"
      then show "\<forall>m \<in> set (bags p' ! j). m \<in> set (bags p ! j) \<and> bag_epochs p' ! j = bag_epochs p ! j \<or>
          m \<in> {n} \<and> unat (bag_epochs p' ! j) = unat (announced p) + 1"
        using len True e by (cases "j = i") (auto simp: p' q')
    next
      have "mset (concat (bags p')) + mset (bags p ! i) = mset (concat (bags p)) + mset (bags p ! i @ [n])"
        using mset_concat_update [OF len(1), of "bags p ! i @ [n]"] by (simp add: p' q')
      then show "mset ns + mset (concat (bags p')) = mset (concat (bags p)) + mset_set {n}"
        by (simp add: q')
    qed (simp_all add: p' q')
    ultimately show ?thesis by (simp add: p' q')
  next
    case False
    then have q': "ns = bags p ! i" "q = p\<lparr>bags := (bags p)[i := []], bag_epochs := (bag_epochs p)[i := e]\<rparr>"
      using q by simp_all
    have old: "unat (bag_epochs p ! i) + 2 \<le> E" if "m \<in> set (bags p ! i)" for m
    proof -
      from ok that have l: "unat (bag_epochs p ! i) \<le> unat (announced p) + 1"
        "unat (bag_epochs p ! i) mod 3 = unat e mod 3"
        using im by (auto simp: bag_ok_def)
      have "unat (bag_epochs p ! i) \<noteq> unat e" using False by (simp add: word_unat_eq_iff)
      with l e same_index [of "unat (bag_epochs p ! i)" "unat e"]
      have "unat (bag_epochs p ! i) + 2 \<le> unat (announced p)" by simp
      with ann show ?thesis by simp
    qed
    have "part_ok E p'" using p i len e im
      by (auto simp: part_ok_def p' q' bag_ok_def nth_list_update)
    moreover have "bags_change E p ns {n} p'"
      unfolding bags_change_def
    proof (intro conjI allI impI)
      fix j :: nat assume "j < 3"
      then show "\<forall>m \<in> set (bags p' ! j). m \<in> set (bags p ! j) \<and> bag_epochs p' ! j = bag_epochs p ! j \<or>
          m \<in> {n} \<and> unat (bag_epochs p' ! j) = unat (announced p) + 1"
        using len e by (cases "j = i") (auto simp: p' q')
    next
      have "mset (concat (bags p')) + mset (bags p ! i) = mset (concat (bags p)) + mset [n]"
        using mset_concat_update [OF len(1), of "[n]"] len(1) by (simp add: p' q')
      then show "mset ns + mset (concat (bags p')) = mset (concat (bags p)) + mset_set {n}"
        by (simp add: q' ac_simps)
      show "\<forall>m \<in> set ns. \<exists>i<3. m \<in> set (bags p ! i) \<and> unat (bag_epochs p ! i) + 2 \<le> E"
        using old i q'(1) by blast
    qed (simp_all add: p' q')
    ultimately show ?thesis by (simp add: p' q')
  qed
qed

section \<open>What holds in every run\<close>

fun registered :: "epc \<Rightarrow> bool" where
  "registered GIdle = False"
| "registered ALookup = False"
| "registered ANext = False"
| "registered (APush l) = False"
| "registered pc = True"

fun joining :: "epc \<Rightarrow> bool" where
  "joining ANext = True"
| "joining (APush l) = True"
| "joining pc = False"

fun seen_epoch :: "epc \<Rightarrow> size_t option" where
  "seen_epoch (GEnter e) = Some e"
| "seen_epoch (THead1 e) = Some e"
| "seen_epoch (TScan1 e us) = Some e"
| "seen_epoch (TExchange e) = Some e"
| "seen_epoch (TFence e) = Some e"
| "seen_epoch (THead2 e) = Some e"
| "seen_epoch (TScan2 e us) = Some e"
| "seen_epoch (TCas e) = Some e"
| "seen_epoch pc = None"

definition thread_base :: "reclaimer \<Rightarrow> tid \<Rightarrow> bool" where
  "thread_base s t \<longleftrightarrow>
     p_epoch (slot s t) = (if inside (e_pc s t) then announced (slot s t) else kInactive) \<and>
     (registered (e_pc s t) \<or> cached s t \<longrightarrow> t \<in> set (participants s)) \<and>
     (joining (e_pc s t) \<longrightarrow> t \<notin> set (participants s)) \<and>
     (\<forall>e \<in> set_option (seen_epoch (e_pc s t)). unat e \<le> unat (e_epoch s)) \<and>
     (\<forall>e. e_pc s t = GEnter e \<longrightarrow> unat (announced (slot s t)) \<le> unat e) \<and>
     (\<forall>e. e_pc s t = GAnnounce e \<longrightarrow> announced (slot s t) = e) \<and>
     e_pc s t \<noteq> GUndef"

text \<open>The nodes a thread is responsible for.\<close>

fun in_hand :: "epc \<Rightarrow> nat multiset" where
  "in_hand (GRetire n) = {#n#}"
| "in_hand pc = {#}"

definition own :: "reclaimer \<Rightarrow> tid \<Rightarrow> nat multiset" where
  "own s t = in_hand (e_pc s t) + mset (concat (bags (slot s t)))"

definition stock :: "reclaimer \<Rightarrow> nat multiset" where
  "stock s = mset_set ({..<fresh s} - linked s)"

definition e_base :: "reclaimer \<Rightarrow> bool" where
  "e_base s \<longleftrightarrow>
     distinct (participants s) \<and> linked s \<subseteq> {..<fresh s} \<and>
     (\<forall>t. part_ok (unat (e_epoch s)) (slot s t)) \<and> (\<forall>t. thread_base s t) \<and>
     (\<forall>t. t \<notin> set (participants s) \<longrightarrow> own s t = {#}) \<and>
     mset (freed s) + (\<Sum>t \<in> set (participants s). own s t) = stock s"

lemma part_ok_mono: "part_ok E p \<Longrightarrow> E \<le> E' \<Longrightarrow> part_ok E' p"
  by (auto simp: part_ok_def)

text \<open>What a step of \<open>t\<close> has to establish.\<close>

definition step_base :: "tid \<Rightarrow> reclaimer \<Rightarrow> reclaimer \<Rightarrow> bool" where
  "step_base t s s' \<longleftrightarrow>
     unat (e_epoch s) \<le> unat (e_epoch s') \<and>
     (\<forall>u. u \<noteq> t \<longrightarrow> e_pc s' u = e_pc s u \<and> slot s' u = slot s u \<and> cached s' u = cached s u) \<and>
     (participants s' = participants s \<or>
      participants s' = t # participants s \<and> t \<notin> set (participants s)) \<and>
     part_ok (unat (e_epoch s')) (slot s' t) \<and> thread_base s' t \<and> linked s' \<subseteq> {..<fresh s'} \<and>
     (t \<notin> set (participants s') \<longrightarrow> own s' t = {#}) \<and>
     mset (freed s') + own s' t + stock s = mset (freed s) + own s t + stock s'"

lemma e_base_step:
  assumes base: "e_base s" and step: "step_base t s s'"
  shows "e_base s'"
proof -
  let ?P = "set (participants s) - {t}"
  have others: "e_pc s' u = e_pc s u" "slot s' u = slot s u" "cached s' u = cached s u" if "u \<noteq> t" for u
    using step that by (simp_all add: step_base_def)
  have le: "unat (e_epoch s) \<le> unat (e_epoch s')" and P: "participants s' = participants s \<or>
      participants s' = t # participants s \<and> t \<notin> set (participants s)"
    using step by (simp_all add: step_base_def)
  have part: "part_ok (unat (e_epoch s')) (slot s' u)" for u
    using base step others [of u] part_ok_mono [OF _ le]
    by (cases "u = t") (auto simp: e_base_def step_base_def)
  have thread: "thread_base s' u" for u
  proof (cases "u = t")
    case False
    moreover have "thread_base s u" using base by (simp add: e_base_def)
    ultimately show ?thesis using others [of u] le P by (fastforce simp: thread_base_def)
  qed (use step in \<open>simp add: step_base_def\<close>)
  have own: "own s' u = own s u" if "u \<noteq> t" for u using others [OF that] by (simp add: own_def)
  have out: "own s' u = {#}" if "u \<notin> set (participants s')" for u
    using that base step P own by (cases "u = t") (auto simp: e_base_def step_base_def)
  have sum: "(\<Sum>u \<in> set (participants r). own r u) = own r t + (\<Sum>u \<in> ?P. own r u)"
    if "set (participants r) - {t} = ?P" "t \<notin> set (participants r) \<Longrightarrow> own r t = {#}" for r
  proof (cases "t \<in> set (participants r)")
    case True
    with that(1) show ?thesis by (simp add: sum.remove [of "set (participants r)" t])
  next
    case False
    with that show ?thesis by (metis Diff_empty Diff_insert0 add_0)
  qed
  have s: "(\<Sum>u \<in> set (participants s). own s u) = own s t + (\<Sum>u \<in> ?P. own s u)"
    by (rule sum) (use base in \<open>auto simp: e_base_def\<close>)
  have s': "(\<Sum>u \<in> set (participants s'). own s' u) = own s' t + (\<Sum>u \<in> ?P. own s u)"
    using sum [of s'] P out own by (auto intro!: sum.cong)
  let ?S = "\<Sum>u \<in> ?P. own s u"
  have before: "mset (freed s) + (own s t + ?S) = stock s" using base s by (simp add: e_base_def)
  have "mset (freed s') + own s' t + ?S + stock s = (mset (freed s') + own s' t + stock s) + ?S"
    by (simp add: ac_simps)
  also have "mset (freed s') + own s' t + stock s = mset (freed s) + own s t + stock s'"
    using step by (simp add: step_base_def)
  also have "mset (freed s) + own s t + stock s' + ?S = stock s' + (mset (freed s) + (own s t + ?S))"
    by (simp add: ac_simps)
  finally have "mset (freed s') + own s' t + ?S + stock s = stock s' + stock s"
    by (simp only: before)
  then have "mset (freed s') + (\<Sum>u \<in> set (participants s'). own s' u) = stock s'"
    using s' by (simp add: add.assoc)
  with part thread out base step P show ?thesis
    by (auto simp: e_base_def step_base_def)
qed

lemma jump_simps [simp]:
  "e_epoch (jump t pc s) = e_epoch s" "participants (jump t pc s) = participants s"
  "slot (jump t pc s) = slot s" "advancing (jump t pc s) = advancing s" "cached (jump t pc s) = cached s"
  "freed (jump t pc s) = freed s" "linked (jump t pc s) = linked s" "visible (jump t pc s) = visible s"
  "fresh (jump t pc s) = fresh s" "e_pc (jump t pc s) = (e_pc s)(t := pc)"
  by (simp_all add: jump_def)

lemma put_simps [simp]:
  "e_epoch (put t p ns s) = e_epoch s" "participants (put t p ns s) = participants s"
  "slot (put t p ns s) = (slot s)(t := p)" "advancing (put t p ns s) = advancing s"
  "cached (put t p ns s) = cached s" "freed (put t p ns s) = freed s @ ns" "linked (put t p ns s) = linked s"
  "visible (put t p ns s) = visible s" "fresh (put t p ns s) = fresh s" "e_pc (put t p ns s) = e_pc s"
  by (simp_all add: put_def)

lemma e_baseD:
  assumes "e_base s"
  shows "linked s \<subseteq> {..<fresh s}" "part_ok (unat (e_epoch s)) (slot s t)" "thread_base s t"
    "t \<notin> set (participants s) \<Longrightarrow> own s t = {#}"
  using assms by (simp_all add: e_base_def)

text \<open>Steps that leave the participant of \<open>t\<close> and the nodes alone.\<close>

lemma step_base_quiet:
  assumes base: "e_base s"
    and same: "slot s' = slot s" "linked s' = linked s" "fresh s' = fresh s" "freed s' = freed s"
      "e_epoch s' = e_epoch s" "\<And>u. u \<noteq> t \<Longrightarrow> e_pc s' u = e_pc s u \<and> cached s' u = cached s u"
      "participants s' = participants s \<or>
       participants s' = t # participants s \<and> t \<notin> set (participants s)"
    and pc: "thread_base s' t" "in_hand (e_pc s' t) = in_hand (e_pc s t)"
  shows "step_base t s s'"
proof -
  have "own s' t = own s t" by (simp add: own_def same(1) pc(2))
  moreover have "stock s' = stock s" by (simp add: stock_def same)
  ultimately show ?thesis
    using assms e_baseD(2-4) [OF base, of t] e_baseD(1) [OF base] by (auto simp: step_base_def)
qed

text \<open>Steps that move nodes of \<open>t\<close> between its hand, its bags and the free list.\<close>

lemma step_base_bags:
  assumes base: "e_base s"
    and same: "linked s' = linked s" "fresh s' = fresh s" "e_epoch s' = e_epoch s" "cached s' = cached s"
      "participants s' = participants s" "\<And>u. u \<noteq> t \<Longrightarrow> e_pc s' u = e_pc s u \<and> slot s' u = slot s u"
    and new: "part_ok (unat (e_epoch s)) (slot s' t)" "thread_base s' t" "t \<in> set (participants s)"
      "mset (freed s') + own s' t = mset (freed s) + own s t"
  shows "step_base t s s'"
  using assms e_baseD(2-4) [OF base, of t] e_baseD(1) [OF base] by (auto simp: step_base_def stock_def)

lemma inside_registered: "inside pc \<Longrightarrow> registered pc"
  by (cases pc) auto

lemma announced_active:
  assumes "part_ok E p" "E < 2 ^ 63"
  shows "announced p \<noteq> kInactive"
  using assms by (auto simp: part_ok_def unat_kInactive)

lemma part_ok_new: "part_ok E new_participant"
  by (simp add: part_ok_def new_participant_def bag_ok_def)

lemma new_bags: "xs \<in> set (bags new_participant) \<Longrightarrow> xs = []"
  by (simp add: new_participant_def)

lemma new_concat: "mset (concat (bags new_participant)) = {#}"
  by (simp add: new_participant_def)

lemma new_epoch: "p_epoch new_participant = kInactive"
  by (simp add: new_participant_def)

lemma begin_base:
  assumes base: "e_base s" and pc: "e_pc s t = GIdle"
  shows "step_base t s (jump t (if cached s t then GLoad else ALookup) s)"
  using e_baseD(2-4) [OF base, of t] e_baseD(1) [OF base] pc by (intro step_base_quiet [OF base]) (auto simp: thread_base_def)

lemma evict_base:
  assumes base: "e_base s" and pc: "e_pc s t = GIdle"
  shows "step_base t s (s\<lparr>cached := (cached s)(t := False)\<rparr>)"
  using e_baseD(2-4) [OF base, of t] e_baseD(1) [OF base] pc by (intro step_base_quiet [OF base]) (auto simp: thread_base_def)

lemma fenced_base:
  assumes base: "e_base s" and pc: "e_pc s t = TFence e"
  shows "step_base t s (jump t (if b then THead2 e else TStore False) s)"
  using e_baseD(2-4) [OF base, of t] e_baseD(1) [OF base] pc by (intro step_base_quiet [OF base]) (auto simp: thread_base_def)

lemma link_base:
  assumes base: "e_base s"
  shows "step_base t s (s\<lparr>linked := insert (fresh s) (linked s),
    visible := (\<lambda>u. insert (fresh s) (visible s u)), fresh := fresh s + 1\<rparr>)"
proof -
  let ?s = "s\<lparr>linked := insert (fresh s) (linked s),
    visible := (\<lambda>u. insert (fresh s) (visible s u)), fresh := fresh s + 1\<rparr>"
  have eq: "{..<fresh s + 1} - insert (fresh s) (linked s) = {..<fresh s} - linked s" by auto
  have "stock ?s = stock s" unfolding stock_def eq [symmetric] by simp
  moreover have "own ?s t = own s t" by (simp add: own_def)
  moreover have "thread_base ?s t" using e_baseD(3) [OF base, of t] by (simp add: thread_base_def)
  ultimately show ?thesis using e_baseD(1) [OF base] e_baseD(2,4) [OF base, of t]
    by (auto simp: step_base_def)
qed

lemma unlink_base:
  assumes base: "e_base s" and pc: "e_pc s t = GActive" "n \<in> linked s"
  shows "step_base t s (jump t (GRetire n) (s\<lparr>linked := linked s - {n}\<rparr>))"
proof -
  have "n < fresh s" using e_baseD(1) [OF base] pc(2) by auto
  with pc(2) have eq: "{..<fresh s} - (linked s - {n}) = insert n ({..<fresh s} - linked s)" by auto
  let ?s = "jump t (GRetire n) (s\<lparr>linked := linked s - {n}\<rparr>)"
  have "stock ?s = mset_set (insert n ({..<fresh s} - linked s))"
    unfolding stock_def eq [symmetric] by (simp add: jump_def)
  also have "\<dots> = add_mset n (stock s)"
    unfolding stock_def by (rule mset_set.insert) (use pc(2) in simp_all)
  finally have "stock ?s = add_mset n (stock s)" .
  moreover have "own ?s t = add_mset n (own s t)" by (simp add: own_def pc(1))
  moreover have "t \<in> set (participants s)" using e_baseD(3) [OF base, of t] pc(1) by (simp add: thread_base_def)
  moreover have "thread_base ?s t" using e_baseD(3) [OF base, of t] pc(1) by (simp add: thread_base_def)
  ultimately show ?thesis using e_baseD(1,2) [OF base] by (auto simp: step_base_def)
qed

lemma end_base:
  assumes base: "e_base s" and pc: "e_pc s t = GActive \<or> e_pc s t = GThrow"
  shows "step_base t s (jump t GIdle (s\<lparr>slot := (slot s)(t := Leave (slot s t))\<rparr>))"
  using e_baseD(2-4) [OF base, of t] e_baseD(1) [OF base] pc
  by (intro step_base_bags [OF base])
    (auto simp: thread_base_def own_def Leave_def part_ok_def bag_ok_def)

lemma enter_base:
  assumes base: "e_base s" and E: "unat (e_epoch s) < 2 ^ 63" and pc: "e_pc s t = GEnter e"
    and r: "Enter e (slot s t) = (ns, p)"
  shows "step_base t s (jump t (GAnnounce e) (put t p ns s))"
proof -
  have "thread_base s t" by (rule e_baseD(3) [OF base])
  with pc have e: "unat e \<le> unat (e_epoch s)" "unat (announced (slot s t)) \<le> unat e"
    "t \<in> set (participants s)" "p_epoch (slot s t) = kInactive"
    by (auto simp: thread_base_def)
  have "part_ok (unat (e_epoch s)) p \<and> announced p = e \<and> bags_change (unat (e_epoch s)) (slot s t) ns {} p"
    by (rule Enter_ok [OF e_baseD(2) [OF base] e(1,2) E r])
  with e pc e_baseD(3) [OF base, of t] show ?thesis
    by (intro step_base_bags [OF base])
      (auto simp: thread_base_def own_def bags_change_def ac_simps)
qed

lemma retire_base:
  assumes base: "e_base s" and E: "unat (e_epoch s) < 2 ^ 63" and pc: "e_pc s t = GRetire n"
    and r: "Retire n (slot s t) = (ns, p, due)"
  shows "step_base t s (jump t (if due then TLoad else GActive) (put t p ns s))"
proof -
  have "part_ok (unat (e_epoch s)) p \<and> announced p = announced (slot s t) \<and>
      bags_change (unat (e_epoch s)) (slot s t) ns {n} p"
    by (rule Retire_ok [OF e_baseD(2) [OF base] E r])
  with pc e_baseD(3) [OF base, of t] show ?thesis
    by (intro step_base_bags [OF base])
      (auto simp: thread_base_def own_def bags_change_def ac_simps)
qed

lemma go_base:
  assumes base: "e_base s" and E: "unat (e_epoch s) < 2 ^ 63 - 1" and step: "go t s (e_pc s t) = Some s'"
  shows "step_base t s s' \<and> unat (e_epoch s') \<le> unat (e_epoch s) + 1"
proof -
  have thread: "thread_base s t" and part: "part_ok (unat (e_epoch s)) (slot s t)"
    using e_baseD [OF base] by blast+
  show ?thesis
  proof (cases "e_pc s t")
    case ALookup
    show ?thesis
    proof (cases "t \<in> set (participants s)")
      case True
      with ALookup step thread show ?thesis
        by (auto intro!: step_base_quiet [OF base] simp: thread_base_def)
    next
      case False
      have "own s t = {#}" by (rule e_baseD(4) [OF base False])
      with False ALookup step thread e_baseD(1) [OF base] show ?thesis
        by (auto simp: step_base_def thread_base_def own_def stock_def part_ok_new new_concat new_bags new_epoch)
    qed
  next
    case (GEnter e)
    obtain ns p where r: "Enter e (slot s t) = (ns, p)" by fastforce
    have "p_epoch (slot s t) = kInactive" using thread GEnter by (simp add: thread_base_def)
    with enter_base [OF base _ GEnter r] E step GEnter r show ?thesis by auto
  next
    case (GAnnounce e)
    with step thread part show ?thesis
      by (auto simp: thread_base_def Announce_def own_def part_ok_def bag_ok_def
          intro!: step_base_bags [OF base])
  next
    case (GRetire n)
    obtain ns p due where r: "Retire n (slot s t) = (ns, p, due)" by (cases "Retire n (slot s t)") auto
    have "p_epoch (slot s t) \<noteq> kInactive"
      using thread GRetire announced_active [OF part] E by (simp add: thread_base_def)
    with retire_base [OF base _ GRetire r] E step GRetire r show ?thesis by auto
  next
    case (TScan1 e us)
    with step thread show ?thesis
      by (cases us) (auto intro!: step_base_quiet [OF base] simp: thread_base_def)
  next
    case (TScan2 e us)
    with step thread show ?thesis
      by (cases us) (auto intro!: step_base_quiet [OF base] simp: thread_base_def)
  next
    case (TCas e)
    show ?thesis
    proof (cases "e_epoch s = e")
      case True
      then have "unat (e + 1) = unat (e_epoch s) + 1" using E by (simp add: unat_word_ariths)
      with True TCas step thread part_ok_mono [OF part] e_baseD(2-4) [OF base, of t] e_baseD(1) [OF base] show ?thesis
        by (auto simp: step_base_def thread_base_def own_def stock_def)
    next
      case False
      with TCas step thread show ?thesis
        by (auto intro!: step_base_quiet [OF base] simp: thread_base_def)
    qed
  qed (use step thread part in \<open>auto intro!: step_base_quiet [OF base] simp: thread_base_def part_ok_def split: if_splits\<close>)
qed

lemma step_is_base:
  assumes "e_base s" "unat (e_epoch s) < 2 ^ 63 - 1" "e_step t a s = Some s'"
  shows "step_base t s s'" "unat (e_epoch s') \<le> unat (e_epoch s) + 1"
proof -
  have "step_base t s s' \<and> unat (e_epoch s') \<le> unat (e_epoch s) + 1"
  proof (cases a)
    case Begin
    with begin_base [of s t] assms show ?thesis by (auto split: if_splits)
  next
    case Go
    with go_base assms show ?thesis by simp
  next
    case (Fenced b)
    with assms fenced_base show ?thesis by (auto split: epc.splits)
  qed (use assms evict_base link_base unlink_base end_base in \<open>auto split: if_splits\<close>)
  then show "step_base t s s'" "unat (e_epoch s') \<le> unat (e_epoch s) + 1" by blast+
qed

section \<open>What holds when announcements are timely\<close>

fun scan_left :: "epc \<Rightarrow> (size_t \<times> tid set) option" where
  "scan_left (TScan2 e us) = Some (e, set us)"
| "scan_left (TCas e) = Some (e, {})"
| "scan_left pc = None"

text \<open>
  A reader's epoch is the global one or the one before; a scan that has not failed and whose epoch
  is still the global one has seen every reader it has passed announce it; the label of a bag is not
  older than the epoch of any reader of its nodes; no freed node has a reader.
\<close>

definition scan_ok :: "reclaimer \<Rightarrow> tid \<Rightarrow> bool" where
  "scan_ok s t \<longleftrightarrow>
     (\<forall>us. scan_left (e_pc s t) = Some (e_epoch s, us) \<longrightarrow>
        (\<forall>u. inside (e_pc s u) \<and> u \<notin> us \<longrightarrow> announced (slot s u) = e_epoch s))"

definition bags_hidden :: "reclaimer \<Rightarrow> tid \<Rightarrow> bool" where
  "bags_hidden s t \<longleftrightarrow>
     (\<forall>u. \<forall>i<3. \<forall>n \<in> set (bags (slot s u) ! i) \<inter> visible s t.
        unat (announced (slot s t)) \<le> unat (bag_epochs (slot s u) ! i))"

definition reader_ok :: "reclaimer \<Rightarrow> tid \<Rightarrow> bool" where
  "reader_ok s t \<longleftrightarrow>
     (inside (e_pc s t) \<longrightarrow>
        unat (e_epoch s) \<le> unat (announced (slot s t)) + 1 \<and> bags_hidden s t \<and>
        set (freed s) \<inter> visible s t = {})"

definition e_time :: "reclaimer \<Rightarrow> bool" where
  "e_time s \<longleftrightarrow> (\<forall>t. scan_ok s t \<and> reader_ok s t)"

lemma e_timeD:
  assumes "e_time s"
  shows "scan_ok s t" "reader_ok s t"
  using assms by (simp_all add: e_time_def)

text \<open>Retired nodes are old and no longer linked.\<close>

lemma stock_node:
  assumes "e_base s" "n \<in># own s u \<or> n \<in> set (freed s)"
  shows "n < fresh s" "n \<notin> linked s"
proof -
  have "n \<in># mset (freed s) + (\<Sum>t \<in> set (participants s). own s t)"
  proof (cases "n \<in> set (freed s)")
    case False
    with assms have n: "n \<in># own s u" by blast
    with assms(1) have "u \<in> set (participants s)" by (auto simp: e_base_def)
    with n show ?thesis by (auto simp: set_mset_sum)
  qed simp
  moreover have "mset (freed s) + (\<Sum>t \<in> set (participants s). own s t) = stock s"
    using assms(1) by (simp add: e_base_def)
  ultimately have "n \<in># stock s" by (simp only:)
  then show "n < fresh s" "n \<notin> linked s" by (simp_all add: stock_def)
qed

lemma bag_node:
  assumes "e_base s" "i < 3" "n \<in> set (bags (slot s u) ! i)"
  shows "n < fresh s" "n \<notin> linked s"
proof -
  have "i < length (bags (slot s u))" using e_baseD(2) [OF assms(1)] assms(2) by (simp add: part_ok_def)
  then have "n \<in># own s u" using assms(3) by (auto simp: own_def)
  with stock_node [OF assms(1)] show "n < fresh s" "n \<notin> linked s" by blast+
qed

text \<open>Steps that only move \<open>t\<close> on.\<close>

lemma time_quiet:
  assumes time: "e_time s"
    and same: "slot s' = slot s" "freed s' = freed s" "e_epoch s' = e_epoch s" "visible s' = visible s"
      "\<And>u. u \<noteq> t \<Longrightarrow> e_pc s' u = e_pc s u"
    and pc: "inside (e_pc s' t) \<Longrightarrow> inside (e_pc s t)" "scan_ok s' t"
  shows "e_time s'"
proof -
  have ins: "inside (e_pc s' u) \<Longrightarrow> inside (e_pc s u)" for u using same(5) pc(1) by (cases "u = t") auto
  have "scan_ok s' u" for u
    using e_timeD(1) [OF time, of u] pc(2) ins same by (cases "u = t") (auto simp: scan_ok_def)
  moreover have "reader_ok s' u" for u
    using e_timeD(2) [OF time, of u] ins same by (auto simp: reader_ok_def bags_hidden_def)
  ultimately show ?thesis by (simp add: e_time_def)
qed

text \<open>Steps of \<open>t\<close> on its bags, \<open>t\<close> being no reader afterwards or keeping its epoch.\<close>

lemma time_bags:
  assumes base: "e_base s" and time: "e_time s"
    and change: "bags_change (unat (e_epoch s)) (slot s t) ns new p"
    and same: "slot s' = (slot s)(t := p)" "freed s' = freed s @ ns" "e_epoch s' = e_epoch s"
      "visible s' = visible s" "\<And>u. u \<noteq> t \<Longrightarrow> e_pc s' u = e_pc s u"
    and pc: "inside (e_pc s' t) \<Longrightarrow> inside (e_pc s t) \<and> announced p = announced (slot s t)"
      "scan_left (e_pc s' t) = None"
    and new: "new \<noteq> {} \<Longrightarrow> unat (e_epoch s) \<le> unat (announced (slot s t)) + 1"
  shows "e_time s'"
proof -
  have ins: "inside (e_pc s u) \<and> announced (slot s' u) = announced (slot s u)"
    if "inside (e_pc s' u)" for u
    using that same(1,5) pc(1) by (cases "u = t") auto
  have "scan_ok s' u" for u
    using e_timeD(1) [OF time, of u] pc(2) ins same by (cases "u = t") (auto simp: scan_ok_def)
  moreover have "reader_ok s' u" for u
    unfolding reader_ok_def
  proof (intro impI)
    assume "inside (e_pc s' u)"
    with ins have u: "inside (e_pc s u)" "announced (slot s' u) = announced (slot s u)" by auto
    with e_timeD(2) [OF time, of u] have r: "unat (e_epoch s) \<le> unat (announced (slot s u)) + 1"
      "bags_hidden s u" "set (freed s) \<inter> visible s u = {}"
      by (simp_all add: reader_ok_def)
    have ann: "unat (announced (slot s u)) \<le> unat (e_epoch s)"
      using e_baseD(2) [OF base, of u] by (simp add: part_ok_def)
    have "set ns \<inter> visible s u = {}"
    proof (rule ccontr)
      assume "set ns \<inter> visible s u \<noteq> {}"
      then obtain n where n: "n \<in> set ns" "n \<in> visible s u" by blast
      with change obtain i where i: "i < 3" "n \<in> set (bags (slot s t) ! i)"
        "unat (bag_epochs (slot s t) ! i) + 2 \<le> unat (e_epoch s)" by (auto simp: bags_change_def)
      with r(2) n(2) have "unat (announced (slot s u)) \<le> unat (bag_epochs (slot s t) ! i)"
        by (auto simp: bags_hidden_def)
      with i(3) r(1) show False by simp
    qed
    moreover have "unat (announced (slot s u)) \<le> unat (bag_epochs (slot s' v) ! i)"
      if "i < 3" "n \<in> set (bags (slot s' v) ! i)" "n \<in> visible s u" for v i n
    proof (cases "v = t")
      case True
      with that change same(1) consider "n \<in> set (bags (slot s t) ! i)" "bag_epochs p ! i = bag_epochs (slot s t) ! i"
        | "n \<in> new" "unat (bag_epochs p ! i) = unat (announced (slot s t)) + 1"
        by (auto simp: bags_change_def)
      then show ?thesis
      proof cases
        case 1
        with r(2) that True same(1) show ?thesis by (auto simp: bags_hidden_def)
      next
        case 2
        then have "new \<noteq> {}" by blast
        from new [OF this] ann 2(2) True same(1) show ?thesis by simp
      qed
    next
      case False
      with r(2) that same(1) show ?thesis by (auto simp: bags_hidden_def)
    qed
    then have "bags_hidden s' u" unfolding bags_hidden_def same(4) u(2) by blast
    ultimately show "unat (e_epoch s') \<le> unat (announced (slot s' u)) + 1 \<and> bags_hidden s' u \<and>
        set (freed s') \<inter> visible s' u = {}"
      using r(1,3) u(2) same(2-4) by auto
  qed
  ultimately show ?thesis by (simp add: e_time_def)
qed

lemma go_time:
  assumes base: "e_base s" and time: "e_time s" and E: "unat (e_epoch s) < 2 ^ 63 - 1"
    and timely: "\<And>e. e_pc s t = GAnnounce e \<Longrightarrow> e = e_epoch s"
    and step: "go t s (e_pc s t) = Some s'"
  shows "e_time s'"
proof -
  have thread: "thread_base s t" and part: "part_ok (unat (e_epoch s)) (slot s t)"
    using e_baseD [OF base] by blast+
  have scan: "scan_ok s t" and reader: "reader_ok s t" using e_timeD [OF time] by blast+
  show ?thesis
  proof (cases "e_pc s t")
    case ALookup
    show ?thesis
    proof (cases "t \<in> set (participants s)")
      case True
      with ALookup step show ?thesis by (auto intro!: time_quiet [OF time] simp: scan_ok_def)
    next
      case False
      then have own: "own s t = {#}" by (rule e_baseD(4) [OF base])
      have "bags_change (unat (e_epoch s)) (slot s t) [] {} new_participant"
        using own thread ALookup
        by (simp add: bags_change_def own_def new_epoch new_concat thread_base_def)
          (simp add: new_participant_def)
      with False ALookup step show ?thesis
        by (auto intro!: time_bags [OF base time] simp: jump_def)
    qed
  next
    case (GEnter e)
    obtain ns p where r: "Enter e (slot s t) = (ns, p)" by fastforce
    from thread GEnter have e: "unat e \<le> unat (e_epoch s)" "unat (announced (slot s t)) \<le> unat e"
      "p_epoch (slot s t) = kInactive" by (auto simp: thread_base_def)
    have "bags_change (unat (e_epoch s)) (slot s t) ns {} p"
      using Enter_ok [OF part e(1,2) _ r] E by simp
    with step GEnter r e(3) show ?thesis by (auto intro!: time_bags [OF base time])
  next
    case (GRetire n)
    obtain ns p due where r: "Retire n (slot s t) = (ns, p, due)" by (cases "Retire n (slot s t)") auto
    have "p_epoch (slot s t) \<noteq> kInactive"
      using thread GRetire announced_active [OF part] E by (simp add: thread_base_def)
    moreover have "announced p = announced (slot s t) \<and> bags_change (unat (e_epoch s)) (slot s t) ns {n} p"
      using Retire_ok [OF part _ r] E by simp
    moreover have "unat (e_epoch s) \<le> unat (announced (slot s t)) + 1"
      using reader GRetire by (simp add: reader_ok_def)
    ultimately show ?thesis using step GRetire r
      by (cases due) (auto intro!: time_bags [OF base time])
  next
    case (GAnnounce e)
    then have ann: "announced (slot s t) = e" "e = e_epoch s"
      using thread timely by (simp_all add: thread_base_def)
    let ?s = "jump t GActive (put t (Announce e (slot s t)) [] (s\<lparr>visible := (visible s)(t := linked s)\<rparr>))"
    have s': "s' = ?s" using step GAnnounce by simp
    have slot: "announced (slot s' u) = announced (slot s u)" "bags (slot s' u) = bags (slot s u)"
      "bag_epochs (slot s' u) = bag_epochs (slot s u)" for u by (simp_all add: s' Announce_def)
    have "scan_ok s' u" for u
      using e_timeD(1) [OF time, of u] ann slot by (auto simp: scan_ok_def s' split: if_splits)
    moreover have "reader_ok s' u" for u
    proof (cases "u = t")
      case True
      have "set (freed s) \<inter> linked s = {}" using stock_node(2) [OF base] by blast
      with True ann slot bag_node(2) [OF base] show ?thesis
        by (auto simp: reader_ok_def bags_hidden_def s' Announce_def)
    next
      case False
      with e_timeD(2) [OF time, of u] slot show ?thesis
        by (auto simp: reader_ok_def bags_hidden_def s')
    qed
    ultimately show ?thesis by (simp add: e_time_def)
  next
    case (TScan1 e us)
    with step show ?thesis by (cases us) (auto intro!: time_quiet [OF time] simp: scan_ok_def)
  next
    case (THead2 e)
    have "u \<in> set (participants s)" if "inside (e_pc s u)" for u
      using e_baseD(3) [OF base, of u] inside_registered [OF that] by (simp add: thread_base_def)
    with THead2 step show ?thesis by (auto intro!: time_quiet [OF time] simp: scan_ok_def)
  next
    case (TScan2 e us)
    show ?thesis
    proof (cases us)
      case Nil
      with step TScan2 scan show ?thesis by (auto intro!: time_quiet [OF time] simp: scan_ok_def)
    next
      case (Cons u vs)
      have "announced (slot s u) = e" if "inside (e_pc s u)" "at_epoch s e u"
        using that e_baseD(2,3) [OF base, of u] announced_active [OF e_baseD(2) [OF base, of u]] E
        by (auto simp: at_epoch_def thread_base_def)
      then have passed: "announced (slot s w) = e"
        if "inside (e_pc s w)" "w \<notin> set vs" "e = e_epoch s" "at_epoch s e u" for w
        using scan that by (cases "w = u") (auto simp: scan_ok_def TScan2 Cons)
      show ?thesis
      proof (cases "at_epoch s e u")
        case True
        then have s': "s' = jump t (TScan2 e vs) s" using step TScan2 Cons by simp
        have "inside (e_pc s w)" if "inside (e_pc s' w)" for w
          using that TScan2 by (cases "w = t") (auto simp: s')
        with passed True have "scan_ok s' t" by (auto simp: scan_ok_def s')
        with TScan2 show ?thesis unfolding s' by (intro time_quiet [OF time]) auto
      next
        case False
        with step TScan2 Cons show ?thesis by (auto intro!: time_quiet [OF time] simp: scan_ok_def)
      qed
    qed
  next
    case (TCas e)
    show ?thesis
    proof (cases "e_epoch s = e")
      case True
      let ?s = "jump t (TStore True) (s\<lparr>e_epoch := e + 1\<rparr>)"
      have s': "s' = ?s" using step TCas True by simp
      have e: "unat (e + 1) = unat e + 1" using E True by (simp add: unat_word_ariths)
      have all: "announced (slot s u) = e" if "inside (e_pc s u)" for u
        using scan TCas True that by (simp add: scan_ok_def)
      have "scan_left (e_pc s u) \<noteq> Some (e + 1, us)" for u us
      proof
        assume "scan_left (e_pc s u) = Some (e + 1, us)"
        then have "seen_epoch (e_pc s u) = Some (e + 1)" by (cases "e_pc s u") auto
        with e_baseD(3) [OF base, of u] True e show False by (auto simp: thread_base_def)
      qed
      then have "scan_ok s' u" for u by (auto simp: scan_ok_def s')
      moreover have "reader_ok s' u" for u
        using e_timeD(2) [OF time, of u] all [of u] TCas e True
        by (cases "u = t") (auto simp: reader_ok_def bags_hidden_def s')
      ultimately show ?thesis by (simp add: e_time_def)
    next
      case False
      with TCas step show ?thesis by (auto intro!: time_quiet [OF time] simp: scan_ok_def)
    qed
  qed (use step in \<open>auto intro!: time_quiet [OF time] simp: scan_ok_def split: if_splits\<close>)
qed

lemma link_time:
  assumes base: "e_base s" and time: "e_time s"
  shows "e_time (s\<lparr>linked := insert (fresh s) (linked s),
    visible := (\<lambda>u. insert (fresh s) (visible s u)), fresh := fresh s + 1\<rparr>)"
proof -
  have "fresh s \<notin> set (freed s)" using stock_node(1) [OF base, of "fresh s"] by blast
  moreover have "fresh s \<notin> set (bags (slot s u) ! i)" if "i < 3" for u i
    using bag_node(1) [OF base that, of "fresh s" u] by blast
  ultimately show ?thesis using time
    by (auto simp: e_time_def scan_ok_def reader_ok_def bags_hidden_def)
qed

lemma end_time:
  assumes "e_time s"
  shows "e_time (jump t GIdle (s\<lparr>slot := (slot s)(t := Leave (slot s t))\<rparr>))"
  using assms by (auto simp: e_time_def scan_ok_def reader_ok_def bags_hidden_def Leave_def split: if_splits)

lemma step_time:
  assumes base: "e_base s" and time: "e_time s" and E: "unat (e_epoch s) < 2 ^ 63 - 1"
    and timely: "\<And>e. a = Go \<Longrightarrow> e_pc s t = GAnnounce e \<Longrightarrow> e = e_epoch s"
    and step: "e_step t a s = Some s'"
  shows "e_time s'"
proof (cases a)
  case Go
  show ?thesis by (rule go_time [OF base time E]) (use Go timely step in auto)
next
  case Begin
  with step show ?thesis by (auto intro!: time_quiet [OF time, where t = t] simp: scan_ok_def split: if_splits)
next
  case (Fenced b)
  with step show ?thesis
    by (auto intro!: time_quiet [OF time, where t = t] simp: scan_ok_def split: epc.splits)
next
  case Link
  with step link_time [OF base time] show ?thesis by (auto split: if_splits)
next
  case (Unlink n)
  with step show ?thesis by (auto intro!: time_quiet [OF time, where t = t] simp: scan_ok_def split: if_splits)
next
  case End
  with step end_time [OF time] show ?thesis by (auto split: if_splits)
next
  case Evict
  with step show ?thesis by (auto intro!: time_quiet [OF time, where t = t] simp: scan_ok_def split: if_splits)
qed

section \<open>Runs\<close>

lemma construct_reclaimer_inv:
  assumes "construct_reclaimer r = Inr s"
  shows "e_base s" "e_time s" "e_epoch s = 0" "e_pc s t = GIdle"
proof -
  from assms have s: "s = \<lparr>e_epoch = 0, participants = [], slot = (\<lambda>_. new_participant),
      advancing = False, cached = (\<lambda>_. False), freed = [], linked = {}, visible = (\<lambda>_. {}), fresh = 0,
      e_pc = (\<lambda>_. GIdle)\<rparr>"
    by (simp add: construct_reclaimer_def split: if_splits)
  show "e_base s" using part_ok_new new_concat new_epoch new_bags
    by (auto simp: s e_base_def thread_base_def own_def stock_def)
  show "e_time s" by (simp add: s e_time_def scan_ok_def reader_ok_def)
  show "e_epoch s = 0" "e_pc s t = GIdle" by (simp_all add: s)
qed

lemma e_run_base:
  assumes "e_base s" "unat (e_epoch s) + length as < 2 ^ 63" "e_run as s = Some s'"
  shows "e_base s'"
  using assms
proof (induction as arbitrary: s)
  case (Cons x as)
  obtain t a where x: "x = (t, a)" by fastforce
  with Cons.prems(3) obtain s1 where s1: "e_step t a s = Some s1" "e_run as s1 = Some s'"
    by (auto split: option.splits)
  have E: "unat (e_epoch s) < 2 ^ 63 - 1" using Cons.prems(2) by simp
  note st = step_is_base [OF Cons.prems(1) E s1(1)]
  have "unat (e_epoch s1) + length as < 2 ^ 63" using st(2) Cons.prems(2) by simp
  from Cons.IH [OF e_base_step [OF Cons.prems(1) st(1)] this s1(2)] show ?case .
qed simp

lemma e_run_epoch:
  assumes "e_base s" "unat (e_epoch s) + length as < 2 ^ 63" "e_run as s = Some s'"
  shows "unat (e_epoch s') \<le> unat (e_epoch s) + length as"
  using assms
proof (induction as arbitrary: s)
  case (Cons x as)
  obtain t a where x: "x = (t, a)" by fastforce
  with Cons.prems(3) obtain s1 where s1: "e_step t a s = Some s1" "e_run as s1 = Some s'"
    by (auto split: option.splits)
  have E: "unat (e_epoch s) < 2 ^ 63 - 1" using Cons.prems(2) by simp
  note st = step_is_base [OF Cons.prems(1) E s1(1)]
  have "unat (e_epoch s1) + length as < 2 ^ 63" using st(2) Cons.prems(2) by simp
  from Cons.IH [OF e_base_step [OF Cons.prems(1) st(1)] this s1(2)] st(2) show ?case by simp
qed simp

lemma e_run_time:
  assumes "e_base s" "e_time s" "unat (e_epoch s) + length as < 2 ^ 63" "e_run as s = Some s'" "timely as s"
  shows "e_time s'"
  using assms
proof (induction as arbitrary: s)
  case (Cons x as)
  obtain t a where x: "x = (t, a)" by fastforce
  with Cons.prems(4) obtain s1 where s1: "e_step t a s = Some s1" "e_run as s1 = Some s'"
    by (auto split: option.splits)
  have E: "unat (e_epoch s) < 2 ^ 63 - 1" using Cons.prems(3) by simp
  note st = step_is_base [OF Cons.prems(1) E s1(1)]
  have E1: "unat (e_epoch s1) + length as < 2 ^ 63" using st(2) Cons.prems(3) by simp
  have "e_time s1"
    by (rule step_time [OF Cons.prems(1,2) E _ s1(1)]) (use Cons.prems(5) x in auto)
  moreover have "timely as s1" using Cons.prems(5) x s1(1) by simp
  ultimately show ?case using Cons.IH [OF e_base_step [OF Cons.prems(1) st(1)] _ E1 s1(2)] by blast
qed simp

text \<open>While no thread is about to retire a node, every unlinked node is freed or in a bag, once.\<close>

lemma retired_once:
  assumes base: "e_base s" and none: "\<And>t n. e_pc s t \<noteq> GRetire n"
  shows "distinct (freed s @ destroy_reclaimer s) \<and>
    set (freed s @ destroy_reclaimer s) = {..<fresh s} - linked s"
proof -
  have "in_hand pc = {#} \<or> (\<exists>n. pc = GRetire n)" for pc by (cases pc) simp_all
  with none have own: "own s t = mset (concat (bags (slot s t)))" for t
    by (metis add_0 own_def)
  have "mset (destroy_reclaimer s) = (\<Sum>t \<in> set (participants s). own s t)"
  proof -
    have "mset (concat (map (\<lambda>u. concat (bags (slot s u))) us)) = (\<Sum>t \<in> set us. own s t)"
      if "distinct us" for us
      using that by (induction us) (simp_all add: own)
    then show ?thesis using base by (simp add: destroy_reclaimer_def e_base_def)
  qed
  then have "mset (freed s @ destroy_reclaimer s) = mset_set ({..<fresh s} - linked s)"
    using base by (simp add: e_base_def stock_def)
  moreover have "mset_set ({..<fresh s} - linked s) = mset (sorted_list_of_set ({..<fresh s} - linked s))"
    using mset_set_set [of "sorted_list_of_set ({..<fresh s} - linked s)"] by simp
  ultimately show ?thesis
    by (metis (no_types, lifting) distinct_sorted_list_of_set finite_Diff finite_lessThan
        mset_eq_imp_distinct_iff mset_eq_setD set_sorted_list_of_set)
qed

section \<open>A concrete execution\<close>

text \<open>
  Thread 0 links the node 0; thread 1 enters a guard; thread 0 unlinks and retires the node, leaves,
  and enters and leaves again.
\<close>

definition ex_reclaimer :: reclaimer where
  "ex_reclaimer =
     \<lparr>e_epoch = 0, participants = [], slot = (\<lambda>_. new_participant), advancing = False,
      cached = (\<lambda>_. False), freed = [], linked = {}, visible = (\<lambda>_. {}), fresh = 0,
      e_pc = (\<lambda>_. GIdle)\<rparr>"

definition er_schedule :: "(tid \<times> action) list" where
  "er_schedule =
     [(0, Begin), (0, Go), (0, Go), (0, Go), (0, Go), (0, Go), (0, Go), (0, Link),
      (1, Begin), (1, Go), (1, Go), (1, Go), (1, Go), (1, Go), (1, Go),
      (0, Unlink 0), (0, Go), (0, End), (0, Begin), (0, Go), (0, Go), (0, Go), (0, End)]"

lemma ex_reclaimer: "construct_reclaimer True = Inr ex_reclaimer"
  by (simp add: construct_reclaimer_def ex_reclaimer_def)

lemma er_words:
  "kBags \<noteq> 1" "kInactive \<noteq> 1" "(1 :: size_t) \<noteq> kRetiresPerAdvance" "kInactive \<noteq> 0"
  by (simp_all add: kBags_def kInactive_def kRetiresPerAdvance_def)

lemma new_participant_eq:
  "new_participant = \<lparr>p_epoch = kInactive, announced = 0, retires = 0,
     bag_epochs = [kInactive, kInactive, kInactive], bags = [[], [], []]\<rparr>"
  by code_simp

lemmas er_simps = ex_reclaimer_def er_schedule_def new_participant_eq er_words Enter_def Announce_def
  Leave_def Retire_def FreeBag_def push_back_def

lemma er_run:
  obtains s where "e_run er_schedule ex_reclaimer = Some s" "timely er_schedule ex_reclaimer"
    "inside (e_pc s 1)" "0 \<in> visible s 1" "fresh s = 1" "linked s = {}" "\<And>t n. e_pc s t \<noteq> GRetire n"
  by (simp add: er_simps)

section \<open>Properties\<close>

text \<open>
  C12 (safety): epoch-based reclamation is safe when announcements are timely. In a run in which
  every guard announces the epoch that is current at the moment of its announcement, no node has been
  freed that a thread may still be reading from inside its guard, and no thread has hit an assertion.
\<close>

theorem epoch_safe:
  assumes "construct_reclaimer r = Inr s0" "e_run as s0 = Some s" "length as < 2 ^ 63"
    and "timely as s0"
  shows "(inside (e_pc s t) \<longrightarrow> set (freed s) \<inter> visible s t = {}) \<and> e_pc s t \<noteq> GUndef"
proof -
  note init = construct_reclaimer_inv [OF assms(1)]
  have len: "unat (e_epoch s0) + length as < 2 ^ 63" using assms(3) init(3) by simp
  have "e_base s" by (rule e_run_base [OF init(1) len assms(2)])
  moreover have "e_time s" by (rule e_run_time [OF init(1,2) len assms(2,4)])
  ultimately show ?thesis
    using e_timeD(2) [of s t] e_baseD(3) [of s t] by (auto simp: reader_ok_def thread_base_def)
qed

text \<open>
  C14 (safety): nothing is leaked and nothing is freed twice, whatever the announcements. When no
  thread is about to retire a node, the nodes freed so far and those the destructor frees are the
  nodes that have been unlinked, each exactly once.
\<close>

theorem epoch_frees_once:
  assumes "construct_reclaimer r = Inr s0" "e_run as s0 = Some s" "length as < 2 ^ 63"
    and "\<And>t n. e_pc s t \<noteq> GRetire n"
  shows "distinct (freed s @ destroy_reclaimer s) \<and>
    set (freed s @ destroy_reclaimer s) = {..<fresh s} - linked s"
proof -
  note init = construct_reclaimer_inv [OF assms(1)]
  have len: "unat (e_epoch s0) + length as < 2 ^ 63" using assms(3) init(3) by simp
  from retired_once [OF e_run_base [OF init(1) len assms(2)] assms(4)] show ?thesis .
qed

theorem epoch_safe_witness:
  "\<exists>s. e_run er_schedule ex_reclaimer = Some s \<and> inside (e_pc s 1) \<and> 0 \<in> visible s 1 \<and>
    set (freed s) \<inter> visible s 1 = {}"
proof (rule er_run)
  fix s assume s: "e_run er_schedule ex_reclaimer = Some s" "timely er_schedule ex_reclaimer"
    "inside (e_pc s 1)" "0 \<in> visible s 1"
  have "length er_schedule < 2 ^ 63" by (simp add: er_schedule_def)
  from epoch_safe [OF ex_reclaimer s(1) this s(2), of 1] s show ?thesis by blast
qed

theorem epoch_frees_once_witness:
  "\<exists>s. e_run er_schedule ex_reclaimer = Some s \<and> set (freed s @ destroy_reclaimer s) = {0}"
proof (rule er_run)
  fix s assume s: "e_run er_schedule ex_reclaimer = Some s" "fresh s = 1" "linked s = {}"
    "\<And>t n. e_pc s t \<noteq> GRetire n"
  have "length er_schedule < 2 ^ 63" by (simp add: er_schedule_def)
  from epoch_frees_once [OF ex_reclaimer s(1) this s(4)] s(1-3) show ?thesis by auto
qed

end
