(* ===== verification/EpochStale.thy ===== *)
theory EpochStale
  imports EpochSafety
begin

text \<open>
  The window in the constructor of \<open>Guard\<close>. It loads the global epoch and announces the value it
  has loaded, without checking that it is still current. A thread that is held up in between
  announces an old epoch; what it then retires goes into a bag with an old label, and its own next
  guard, which finds the current epoch, frees that bag at once, although a thread that has been in
  its guard since before the node was unlinked may still be reading it.

  Thread 0 is held up, thread 1 is the reader, thread 2 advances the epoch three times by retiring
  \<open>kRetiresPerAdvance\<close> nodes each time.
\<close>

definition leads :: "nat \<Rightarrow> reclaimer \<Rightarrow> reclaimer \<Rightarrow> bool" where
  "leads k s s' \<longleftrightarrow> (\<exists>as. length as \<le> k \<and> e_run as s = Some s')"

lemma leadsI: "e_run as s = Some s' \<Longrightarrow> length as \<le> k \<Longrightarrow> leads k s s'"
  by (auto simp: leads_def)

lemma e_run_append: "e_run as s = Some s1 \<Longrightarrow> e_run (as @ bs) s = e_run bs s1"
proof (induction as arbitrary: s)
  case (Cons x as)
  then show ?case by (cases x) (auto split: option.splits)
qed simp

lemma leads_trans: "leads k s1 s2 \<Longrightarrow> leads l s2 s3 \<Longrightarrow> leads (k + l) s1 s3"
  unfolding leads_def by (metis e_run_append add_mono length_append)

lemma leads_mono: "leads k s1 s2 \<Longrightarrow> k \<le> l \<Longrightarrow> leads l s1 s2"
  unfolding leads_def by (meson order_trans)

lemma Retire_fields:
  assumes "Retire n p = (ns, p', due)"
  shows "announced p' = announced p \<and> p_epoch p' = p_epoch p \<and>
    due = (retires p + 1 = kRetiresPerAdvance) \<and> retires p' = (if due then 0 else retires p + 1)"
  using assms by (auto simp: Retire_def FreeBag_def Let_def split: if_splits prod.splits)

lemma Enter_fields:
  assumes "Enter e p = (ns, p')"
  shows "announced p' = e \<and> p_epoch p' = p_epoch p \<and> retires p' = retires p"
proof -
  have bag: "p_epoch q = p_epoch p \<and> retires q = retires p"
    if "collect_bag e i p = (ns, q)" for i p ns q
    using that by (auto simp: collect_bag_def FreeBag_def split: if_splits)
  have bags: "p_epoch q = p_epoch p \<and> retires q = retires p"
    if "collect_bags e js p = (ns, q)" for js p ns q
    using that
  proof (induction js arbitrary: p ns)
    case (Cons i js)
    then show ?case using bag by (force split: prod.splits)
  qed simp
  show ?thesis using assms bags
    by (auto simp: Enter_def CollectGarbage_def split: if_splits prod.splits)
qed

text \<open>Thread 0 has loaded epoch 0; thread 2 is in a guard at the current epoch.\<close>

definition working :: "size_t \<Rightarrow> size_t \<Rightarrow> reclaimer \<Rightarrow> bool" where
  "working e r s \<longleftrightarrow>
     e_epoch s = e \<and> participants s = [2, 0] \<and> \<not> advancing s \<and>
     e_pc s 0 = GEnter 0 \<and> slot s 0 = new_participant \<and> cached s 0 \<and>
     e_pc s 1 = GIdle \<and> \<not> cached s 1 \<and>
     e_pc s 2 = GActive \<and> p_epoch (slot s 2) = e \<and> announced (slot s 2) = e \<and>
     retires (slot s 2) = r \<and> cached s 2 \<and> e \<noteq> kInactive"

definition working_rest :: "size_t \<Rightarrow> reclaimer \<Rightarrow> bool" where
  "working_rest e s \<longleftrightarrow>
     e_epoch s = e \<and> participants s = [2, 0] \<and> \<not> advancing s \<and>
     e_pc s 0 = GEnter 0 \<and> slot s 0 = new_participant \<and> cached s 0 \<and>
     e_pc s 1 = GIdle \<and> \<not> cached s 1 \<and> cached s 2"

lemma work:
  assumes "working e r s" "r + 1 \<noteq> kRetiresPerAdvance"
  shows "\<exists>s'. leads 3 s s' \<and> working e (r + 1) s'"
proof -
  obtain ns p due where r: "Retire (fresh s) (slot s 2) = (ns, p, due)"
    by (cases "Retire (fresh s) (slot s 2)") auto
  note f = Retire_fields [OF r]
  let ?as = "[(2, Link), (2, Unlink (fresh s)), (2, Go)]"
  obtain s' where s': "e_run ?as s = Some s'" and "working e (r + 1) s'"
    using assms r f by (auto simp: working_def)
  with leadsI [OF s', of 3] show ?thesis by auto
qed

lemma unat_kRetires: "unat kRetiresPerAdvance = 1024"
  by (simp add: kRetiresPerAdvance_def)

lemma work_many:
  assumes "working e 0 s" "k < 1024"
  shows "\<exists>s'. leads (3 * k) s s' \<and> working e (of_nat k) s'"
  using assms(2)
proof (induction k)
  case 0
  with assms(1) leadsI [of "[]" s s 0] show ?case by auto
next
  case (Suc k)
  then obtain s1 where s1: "leads (3 * k) s s1" "working e (of_nat k) s1" by auto
  have "unat (of_nat (k + 1) :: size_t) = k + 1"
    by (rule unat_of_nat_size) (use Suc.prems in simp)
  then have "(of_nat k :: size_t) + 1 \<noteq> kRetiresPerAdvance"
    using Suc.prems unat_kRetires by (metis Suc_eq_plus1 add.commute less_irrefl of_nat_Suc)
  from work [OF s1(2) this] obtain s2 where s2: "leads 3 s1 s2" "working e (of_nat k + 1) s2" by blast
  from leads_trans [OF s1(1) s2(1)] s2(2) show ?case by (auto simp: add.commute)
qed

text \<open>The last retirement of a batch advances the epoch, since thread 0 is not announced.\<close>

lemma advance:
  assumes "working e 1023 s" "e + 1 \<noteq> kInactive"
  shows "\<exists>s'. leads 21 s s' \<and> working (e + 1) 0 s'"
proof -
  obtain ns p due where r: "Retire (fresh s) (slot s 2) = (ns, p, due)"
    by (cases "Retire (fresh s) (slot s 2)") auto
  note f = Retire_fields [OF r]
  obtain ms q where q: "Enter (e + 1) (Leave p) = (ms, q)" by fastforce
  note g = Enter_fields [OF q]
  have due: due and p: "retires p = 0" "p_epoch p = e" "announced p = e"
    using assms f by (simp_all add: working_def kRetiresPerAdvance_def)
  let ?retire = "[(2, Link), (2, Unlink (fresh s)), (2, Go)]"
  let ?scan = "replicate 5 (2, Go)"
  let ?sweep = "(2, Go) # ?scan @ [(2, Fenced True)] @ ?scan @ [(2, Go)]"
  let ?reopen = "[(2, End), (2, Begin), (2, Go), (2, Go), (2, Go)]"
  obtain s1 where s1: "e_run ?retire s = Some s1"
    "e_pc s1 2 = TLoad" "slot s1 2 = p" "working_rest e s1"
    using assms(1) r due by (auto simp: working_def working_rest_def)
  obtain s2 where s2: "e_run ?sweep s1 = Some s2"
    "e_pc s2 2 = GActive" "slot s2 2 = p" "working_rest (e + 1) s2"
    using s1(2-4) p(2) assms(1)
    by (auto simp: working_def working_rest_def at_epoch_def new_epoch numeral_eq_Suc)
  obtain s3 where s3: "e_run ?reopen s2 = Some s3" "working (e + 1) 0 s3"
    using s2(2-4) q g p assms(2)
    by (auto simp: working_def working_rest_def Leave_def Announce_def)
  have "leads 3 s s1" by (rule leadsI [OF s1(1)]) simp
  moreover have "leads 13 s1 s2" by (rule leadsI [OF s2(1)]) simp
  moreover have "leads 5 s2 s3" by (rule leadsI [OF s3(1)]) simp
  ultimately have "leads (3 + (13 + 5)) s s3" using leads_trans by blast
  with s3(2) show ?thesis by auto
qed

lemma work_epoch:
  assumes "working e 0 s" "e + 1 \<noteq> kInactive"
  shows "\<exists>s'. leads 4000 s s' \<and> working (e + 1) 0 s'"
proof -
  from work_many [OF assms(1), of 1023] obtain s1 where s1: "leads 3069 s s1" "working e 1023 s1" by auto
  from advance [OF s1(2) assms(2)] obtain s2 where s2: "leads 21 s1 s2" "working (e + 1) 0 s2" by blast
  have "leads 4000 s s2" by (rule leads_mono [OF leads_trans [OF s1(1) s2(1)]]) simp
  with s2(2) show ?thesis by blast
qed

text \<open>To the start of the work, and from its end to the premature deletion.\<close>

definition open_guard :: "tid \<Rightarrow> (tid \<times> action) list" where
  "open_guard t = [(t, Begin), (t, Go), (t, Go), (t, Go), (t, Go)]"

lemma start_work:
  assumes "construct_reclaimer True = Inr s0"
  shows "\<exists>s. leads 12 s0 s \<and> working 0 0 s"
proof -
  have s0: "s0 = \<lparr>e_epoch = 0, participants = [], slot = (\<lambda>_. new_participant),
      advancing = False, cached = (\<lambda>_. False), freed = [], linked = {}, visible = (\<lambda>_. {}), fresh = 0,
      e_pc = (\<lambda>_. GIdle)\<rparr>"
    using assms by (simp add: construct_reclaimer_def)
  obtain ns q where q: "Enter 0 new_participant = (ns, q)" by fastforce
  note g = Enter_fields [OF q]
  have new: "announced new_participant = 0" "retires new_participant = 0"
    by (simp_all add: new_participant_def)
  have ne: "(0 :: size_t) \<noteq> kInactive" by (simp add: kInactive_def)
  obtain s where s: "e_run (open_guard 0 @ open_guard 2 @ [(2, Go), (2, Go)]) s0 = Some s" "working 0 0 s"
    using q g new ne by (auto simp: s0 open_guard_def working_def new_epoch Announce_def)
  have "leads 12 s0 s" by (rule leadsI [OF s(1)]) (simp add: open_guard_def)
  with s(2) show ?thesis by blast
qed

text \<open>What thread 0 retires at the announced epoch 0 is freed as soon as it sees epoch 3.\<close>

definition stale_participant :: "nat \<Rightarrow> participant" where
  "stale_participant n =
     \<lparr>p_epoch = 0, announced = 0, retires = 1, bag_epochs = [kInactive, 1, kInactive],
      bags = [[], [n], []]\<rparr>"

lemma stale_words:
  "(0 :: size_t) + 1 = 1" "kBags \<noteq> 1" "kInactive \<noteq> 1" "(1 :: size_t) \<noteq> kRetiresPerAdvance"
  "(1 :: size_t) + 2 \<le> 3" "[0..<3] = [0, 1, 2]" "(3 :: size_t) \<noteq> 0"
  by (simp_all add: kBags_def kInactive_def kRetiresPerAdvance_def upt_rec)

lemma stale_retire:
  "Retire n (new_participant\<lparr>p_epoch := 0\<rparr>) = ([], stale_participant n, False)"
  by (simp add: new_participant_eq Retire_def FreeBag_def stale_participant_def push_back_def stale_words)

lemma stale_collect: "fst (Enter 3 (Leave (stale_participant n))) = [n]"
  using stale_words(3)
  by (simp add: Enter_def CollectGarbage_def collect_bag_def FreeBag_def Leave_def stale_participant_def
      stale_words)

lemma finish_stale:
  assumes "working 3 0 s"
  shows "\<exists>s1 s2. leads 20 s s1 \<and> e_pc s1 0 = GEnter 3 \<and> announced (slot s1 0) = 0 \<and>
    fst (Enter 3 (slot s1 0)) = [fresh s] \<and> e_step 0 Go s1 = Some s2 \<and>
    e_pc s2 1 = GActive \<and> fresh s \<in> visible s2 1 \<and> fresh s \<in> set (freed s2)"
proof -
  obtain ns q where q: "Enter 3 new_participant = (ns, q)" by fastforce
  obtain ms r where r: "Enter 3 (Leave (stale_participant (fresh s))) = (ms, r)" by fastforce
  with stale_collect [of "fresh s"] have ms: "ms = [fresh s]" by simp
  have zero: "Enter 0 new_participant = ([], new_participant)"
    by (simp add: Enter_def new_participant_def)
  note ret = stale_retire [of "fresh s"]
  have left: "p_epoch (Leave (stale_participant (fresh s))) = kInactive" by (simp add: Leave_def)
  let ?link = "[(2, Link)]" and ?read = "open_guard 1 @ [(1, Go), (1, Go)]"
    and ?stale = "[(0, Go), (0, Go), (0, Unlink (fresh s)), (0, Go), (0, End)]"
    and ?again = "[(0, Begin), (0, Go)]"
  obtain s1 where s1: "e_run (?link @ ?read @ ?stale @ ?again) s = Some s1"
    "e_pc s1 0 = GEnter 3" "slot s1 0 = Leave (stale_participant (fresh s))"
    "e_pc s1 1 = GActive" "fresh s \<in> visible s1 1"
    using assms q zero ret
    by (auto simp: working_def open_guard_def new_epoch Announce_def stale_words kInactive_def)
  have now: "announced (slot s1 0) = 0" "fst (Enter 3 (slot s1 0)) = [fresh s]"
    using s1(3) stale_collect by (simp_all add: Leave_def stale_participant_def)
  obtain s2 where s2: "e_step 0 Go s1 = Some s2" "e_pc s2 1 = GActive" "fresh s \<in> visible s2 1"
    "fresh s \<in> set (freed s2)"
    using s1(2-5) r ms left by (simp add: jump_def put_def)
  have "leads 20 s s1" by (rule leadsI [OF s1(1)]) (simp add: open_guard_def)
  with s1(2) now s2 show ?thesis by blast
qed

lemma stale_run:
  obtains s0 s1 s2 n where "construct_reclaimer True = Inr s0" "leads 20000 s0 s1"
    "e_pc s1 0 = GEnter 3" "announced (slot s1 0) = 0" "fst (Enter 3 (slot s1 0)) = [n]"
    "e_step 0 Go s1 = Some s2" "e_pc s2 1 = GActive" "n \<in> visible s2 1" "n \<in> set (freed s2)"
proof -
  obtain s0 where s0: "construct_reclaimer True = Inr s0" by (simp add: construct_reclaimer_def)
  from start_work [OF s0] obtain a where a: "leads 12 s0 a" "working 0 0 a" by blast
  have ne: "(0 :: size_t) + 1 \<noteq> kInactive" "(1 :: size_t) + 1 \<noteq> kInactive" "(2 :: size_t) + 1 \<noteq> kInactive"
    by code_simp+
  from work_epoch [OF a(2) ne(1)] obtain b where b: "leads 4000 a b" "working 1 0 b" by auto
  from work_epoch [OF b(2) ne(2)] obtain c where c: "leads 4000 b c" "working 2 0 c" by auto
  from work_epoch [OF c(2) ne(3)] obtain d where d: "leads 4000 c d" "working 3 0 d" by auto
  from finish_stale [OF d(2)] obtain s1 s2 where
    s: "leads 20 d s1" "e_pc s1 0 = GEnter 3" "announced (slot s1 0) = 0"
      "fst (Enter 3 (slot s1 0)) = [fresh d]" "e_step 0 Go s1 = Some s2"
      "e_pc s2 1 = GActive" "fresh d \<in> visible s2 1" "fresh d \<in> set (freed s2)" by blast
  have "leads (12 + (4000 + (4000 + (4000 + 20)))) s0 s1"
    using a(1) b(1) c(1) d(1) s(1) leads_trans by blast
  then have "leads 20000 s0 s1" using leads_mono by fastforce
  from that [OF s0 this s(2-8)] show ?thesis .
qed

section \<open>Properties\<close>

text \<open>
  The reclaimer can free a node under a reader. There is a run of three threads after
  which thread 1 is still in the guard it was in when a node was linked, so that it may be reading the
  node, and the node has been freed. Thread 0 retires it from a guard that has announced epoch 0
  while the epoch is 3, and frees it on entering its next guard.
\<close>

lemma stale_guard_frees_early:
  "\<exists>s0 as s n. construct_reclaimer True = Inr s0 \<and> e_run as s0 = Some s \<and>
     e_pc s 1 = GActive \<and> n \<in> visible s 1 \<and> n \<in> set (freed s)"
proof (rule stale_run)
  fix s0 s1 s2 n assume "construct_reclaimer True = Inr s0" "leads 20000 s0 s1" "e_step 0 Go s1 = Some s2"
    "e_pc s2 1 = GActive" "n \<in> visible s2 1" "n \<in> set (freed s2)"
  moreover from this obtain as where "e_run as s0 = Some s1" by (auto simp: leads_def)
  then have "e_run (as @ [(0, Go)]) s0 = Some s2"
    using \<open>e_step 0 Go s1 = Some s2\<close> by (simp add: e_run_append)
  ultimately show ?thesis by blast
qed

text \<open>
  C15 (functional): a guard that announces a new epoch lets go of everything that is old enough. What
  is left in the participant's bags afterwards has a label less than two behind the announced epoch,
  and it frees nothing younger.
\<close>

theorem enter_collects:
  assumes "construct_reclaimer r = Inr s0" "e_run as s0 = Some s" "length as < 2 ^ 63"
    and "e_pc s t = GEnter e" "e \<noteq> announced (slot s t)"
  shows "\<exists>ns p. Enter e (slot s t) = (ns, p) \<and> announced p = e \<and>
    (\<forall>i<3. bags p ! i \<noteq> [] \<longrightarrow> unat e < unat (bag_epochs p ! i) + 2) \<and>
    (\<forall>n \<in> set ns. \<exists>i<3. n \<in> set (bags (slot s t) ! i) \<and>
       unat (bag_epochs (slot s t) ! i) + 2 \<le> unat e)"
proof -
  note init = construct_reclaimer_inv [OF assms(1)]
  have len: "unat (e_epoch s0) + length as < 2 ^ 63" using assms(3) init(3) by simp
  have base: "e_base s" and E: "unat (e_epoch s) < 2 ^ 63"
    using e_run_base [OF init(1) len assms(2)] e_run_epoch [OF init(1) len assms(2)] len by auto
  have e: "unat e \<le> unat (e_epoch s)" "unat (announced (slot s t)) \<le> unat e"
    using e_baseD(3) [OF base, of t] assms(4) by (auto simp: thread_base_def)
  have part: "part_ok (unat e) (slot s t)"
    using e_baseD(2) [OF base, of t] e(2) by (simp add: part_ok_def)
  obtain ns p where r: "Enter e (slot s t) = (ns, p)" by fastforce
  have "bags_change (unat e) (slot s t) ns {} p \<and> announced p = e"
    using Enter_ok [OF part _ e(2) _ r] e(1) E by simp
  moreover have "unat e < unat (bag_epochs p ! i) + 2" if "i < 3" "bags p ! i \<noteq> []" for i
    using Enter_leaves [OF part _ assms(5) r that] e(1) E by simp
  ultimately show ?thesis using r by (auto simp: bags_change_def)
qed

text \<open>The second guard of thread 0 in the run above.\<close>

theorem enter_collects_witness:
  "\<exists>(s :: reclaimer) ns p. e_pc s 0 = GEnter 3 \<and> Enter 3 (slot s 0) = (ns, p) \<and> announced p = 3 \<and> ns \<noteq> [] \<and>
    (\<exists>i<3. hd ns \<in> set (bags (slot s 0) ! i) \<and> unat (bag_epochs (slot s 0) ! i) + 2 \<le> 3)"
proof (rule stale_run)
  fix s0 s1 s2 n assume s: "construct_reclaimer True = Inr s0" "leads 20000 s0 s1"
    "e_pc s1 0 = GEnter 3" "announced (slot s1 0) = 0" "fst (Enter 3 (slot s1 0)) = [n]"
  from s(2) obtain as where as: "e_run as s0 = Some s1" "length as < 2 ^ 63"
    by (auto simp: leads_def)
  have "(3 :: size_t) \<noteq> announced (slot s1 0)" using s(4) by simp
  from enter_collects [OF s(1) as s(3) this] obtain ns p where p: "Enter 3 (slot s1 0) = (ns, p)"
    "announced p = 3" "\<forall>n \<in> set ns. \<exists>i<3. n \<in> set (bags (slot s1 0) ! i) \<and>
       unat (bag_epochs (slot s1 0) ! i) + 2 \<le> unat (3 :: size_t)" by blast
  with s(5) have "ns = [n]" by simp
  with p(3) have "\<exists>i<3. hd ns \<in> set (bags (slot s1 0) ! i) \<and> unat (bag_epochs (slot s1 0) ! i) + 2 \<le> 3"
    by simp
  with p(1,2) s(3) \<open>ns = [n]\<close> show ?thesis
    by (metis list.discI)
qed

end
