(* ===== verification/ReclaimerCache.thy ===== *)
theory ReclaimerCache
  imports HashSetBase
begin

text \<open>
  \<open>EpochReclaimer.h\<close>: how a thread finds its participant of a reclaimer, with any number of
  reclaimers made and destroyed in between. Each thread has a small array, \<open>cache_\<close>, indexed by the
  reclaimer's id, in front of the walk over the reclaimer's participants. Ids are handed out in
  sequence and never come again, so an entry left behind by a destroyed reclaimer is never used.

  An operation is one step here: the cache belongs to one thread, and how \<open>Adopt\<close> adds a participant
  while other threads do the same is in the theory \<open>EpochReclaimer\<close>. A thread is named by the address
  of its \<open>cache_\<close>, which is what \<open>owner\<close> holds; a participant by the address of its allocation.
\<close>

section \<open>State\<close>

definition kReclaimerCacheSize :: size_t where
  "kReclaimerCacheSize = 16"

record cache_slot =
  cs_reclaimer_id :: size_t
  cs_participant :: "nat option"

definition empty_slot :: cache_slot where
  "empty_slot = \<lparr>cs_reclaimer_id = 0, cs_participant = None\<rparr>"

definition empty_cache :: "cache_slot list" where
  "empty_cache = replicate (unat kReclaimerCacheSize) empty_slot"

text \<open>
  \<open>owners\<close> are the participants allocated so far with their \<open>owner\<close>; \<open>walks\<close> the lists of
  participants of the reclaimers that exist, by id.
\<close>

record reclaimers =
  next_reclaimer_id :: size_t
  owners :: "tid list"
  walks :: "size_t \<rightharpoonup> nat list"
  caches :: "tid \<Rightarrow> cache_slot list"

definition no_reclaimers :: reclaimers where
  "no_reclaimers =
     \<lparr>next_reclaimer_id = 1, owners = [], walks = Map.empty, caches = (\<lambda>_. empty_cache)\<rparr>"

section \<open>Operations\<close>

text \<open>The constructor: the id, \<open>next_reclaimer_id_.fetch_add(1)\<close>.\<close>

definition make_reclaimer :: "reclaimers \<Rightarrow> size_t \<times> reclaimers" where
  "make_reclaimer s =
     (next_reclaimer_id s,
      s\<lparr>next_reclaimer_id := next_reclaimer_id s + 1,
        walks := (walks s)(next_reclaimer_id s \<mapsto> [])\<rparr>)"

text \<open>The destructor: every participant of the reclaimer is deleted. The caches stay as they are.\<close>

definition destroy_walk :: "size_t \<Rightarrow> reclaimers \<Rightarrow> reclaimers" where
  "destroy_walk r s = s\<lparr>walks := (walks s)(r := None)\<rparr>"

text \<open>A thread ends, and another begins at the same address.\<close>

definition restart_thread :: "tid \<Rightarrow> reclaimers \<Rightarrow> reclaimers" where
  "restart_thread t s = s\<lparr>caches := (caches s)(t := empty_cache)\<rparr>"

fun walk :: "tid \<Rightarrow> tid list \<Rightarrow> nat list \<Rightarrow> nat option" where
  "walk t os [] = None"
| "walk t os (p # ps) = (if os ! p = t then Some p else walk t os ps)"

text \<open>\<open>Adopt\<close>; \<open>ps\<close> is the list of participants of the reclaimer \<open>r\<close>.\<close>

definition fill_cache :: "tid \<Rightarrow> size_t \<Rightarrow> nat \<Rightarrow> reclaimers \<Rightarrow> reclaimers" where
  "fill_cache t r p s =
     s\<lparr>caches := (caches s)(t := (caches s t)[unat (r mod kReclaimerCacheSize) :=
       \<lparr>cs_reclaimer_id = r, cs_participant = Some p\<rparr>])\<rparr>"

definition Adopt :: "tid \<Rightarrow> size_t \<Rightarrow> nat list \<Rightarrow> reclaimers \<Rightarrow> nat \<times> reclaimers" where
  "Adopt t r ps s =
     (case walk t (owners s) ps of
        Some p \<Rightarrow> (p, fill_cache t r p s)
      | None \<Rightarrow>
          (let p = length (owners s)
           in (p, fill_cache t r p
                 (s\<lparr>owners := owners s @ [t], walks := (walks s)(r \<mapsto> p # ps)\<rparr>))))"

text \<open>\<open>Self\<close>: \<open>None\<close> when the reclaimer does not exist or a null participant is dereferenced.\<close>

definition Self :: "tid \<Rightarrow> size_t \<Rightarrow> reclaimers \<Rightarrow> (nat \<times> reclaimers) option" where
  "Self t r s =
     (case walks s r of
        None \<Rightarrow> None
      | Some ps \<Rightarrow>
          (let slot = caches s t ! unat (r mod kReclaimerCacheSize)
           in if cs_reclaimer_id slot = r
              then map_option (\<lambda>p. (p, s)) (cs_participant slot)
              else Some (Adopt t r ps s)))"

datatype use = Make | Destroy_reclaimer size_t | Restart tid | Find_self tid size_t

fun use_step :: "use \<Rightarrow> reclaimers \<Rightarrow> reclaimers option" where
  "use_step Make s = Some (snd (make_reclaimer s))"
| "use_step (Destroy_reclaimer r) s = (if walks s r = None then None else Some (destroy_walk r s))"
| "use_step (Restart t) s = Some (restart_thread t s)"
| "use_step (Find_self t r) s = map_option snd (Self t r s)"

fun use_run :: "use list \<Rightarrow> reclaimers \<Rightarrow> reclaimers option" where
  "use_run [] s = Some s"
| "use_run (u # us) s = (case use_step u s of None \<Rightarrow> None | Some s \<Rightarrow> use_run us s)"

section \<open>The invariant\<close>

definition walk_ok :: "reclaimers \<Rightarrow> nat list \<Rightarrow> bool" where
  "walk_ok s ps \<longleftrightarrow> set ps \<subseteq> {..<length (owners s)} \<and> distinct (map (\<lambda>p. owners s ! p) ps)"

definition slot_ok :: "reclaimers \<Rightarrow> tid \<Rightarrow> cache_slot \<Rightarrow> bool" where
  "slot_ok s t c \<longleftrightarrow>
     cs_reclaimer_id c = 0 \<or>
     unat (cs_reclaimer_id c) < unat (next_reclaimer_id s) \<and>
     (\<exists>p. cs_participant c = Some p \<and> p < length (owners s) \<and> owners s ! p = t \<and>
        (\<forall>ps. walks s (cs_reclaimer_id c) = Some ps \<longrightarrow> p \<in> set ps))"

definition caches_ok :: "reclaimers \<Rightarrow> bool" where
  "caches_ok s \<longleftrightarrow>
     next_reclaimer_id s \<noteq> 0 \<and>
     (\<forall>r ps. walks s r = Some ps \<longrightarrow> r \<noteq> 0 \<and> unat r < unat (next_reclaimer_id s) \<and> walk_ok s ps) \<and>
     (\<forall>r q ps qs. walks s r = Some ps \<longrightarrow> walks s q = Some qs \<longrightarrow> r \<noteq> q \<longrightarrow> set ps \<inter> set qs = {}) \<and>
     (\<forall>t. length (caches s t) = 16 \<and> (\<forall>i < 16. slot_ok s t (caches s t ! i)))"

lemma unat_cache_size: "unat kReclaimerCacheSize = 16"
  by (simp add: kReclaimerCacheSize_def)

lemma cache_index: "unat (r mod kReclaimerCacheSize) < 16"
  by (simp add: unat_mod_size unat_cache_size)

lemma walk_some:
  assumes "walk t os ps = Some p"
  shows "p \<in> set ps" "os ! p = t"
  using assms by (induction ps) (auto split: if_splits)

lemma walk_none: "walk t os ps = None \<longleftrightarrow> (\<forall>p \<in> set ps. os ! p \<noteq> t)"
  by (induction ps) auto

lemma length_empty_cache: "length empty_cache = 16"
  by (simp add: empty_cache_def unat_cache_size)

lemma empty_cache_ok: "i < 16 \<Longrightarrow> slot_ok s t (empty_cache ! i)"
  by (simp_all add: empty_cache_def unat_cache_size slot_ok_def empty_slot_def)

lemma caches_okD:
  assumes "caches_ok s"
  shows "next_reclaimer_id s \<noteq> 0"
    "walks s r = Some ps \<Longrightarrow> r \<noteq> 0 \<and> unat r < unat (next_reclaimer_id s) \<and> walk_ok s ps"
    "walks s r = Some ps \<Longrightarrow> walks s q = Some qs \<Longrightarrow> r \<noteq> q \<Longrightarrow> set ps \<inter> set qs = {}"
    "length (caches s t) = 16" "i < 16 \<Longrightarrow> slot_ok s t (caches s t ! i)"
  using assms unfolding caches_ok_def by blast+

lemma no_reclaimers_ok: "caches_ok no_reclaimers"
  by (simp add: caches_ok_def no_reclaimers_def length_empty_cache empty_cache_ok)

lemma make_ok:
  assumes ok: "caches_ok s" and room: "unat (next_reclaimer_id s) + 1 < 2 ^ 64"
  shows "caches_ok (snd (make_reclaimer s))"
proof -
  let ?n = "next_reclaimer_id s"
  have n: "unat (?n + 1) = unat ?n + 1"
    using room by (simp add: unat_word_ariths)
  have new: "?n + 1 \<noteq> 0" using n by (metis Suc_eq_plus1 nat.distinct(1) unat_0)
  have slot: "slot_ok (snd (make_reclaimer s)) t c" if "slot_ok s t c" for t c
    using that n by (auto simp: slot_ok_def make_reclaimer_def)
  show ?thesis
    unfolding caches_ok_def
  proof (intro conjI allI impI)
    show "next_reclaimer_id (snd (make_reclaimer s)) \<noteq> 0" using new by (simp add: make_reclaimer_def)
    fix r ps assume w: "walks (snd (make_reclaimer s)) r = Some ps"
    then show "r \<noteq> 0" "unat r < unat (next_reclaimer_id (snd (make_reclaimer s)))"
      "walk_ok (snd (make_reclaimer s)) ps"
      using caches_okD(1) [OF ok] caches_okD(2) [OF ok, of r ps] n
      by (auto simp: make_reclaimer_def walk_ok_def split: if_splits)
    fix q qs assume "walks (snd (make_reclaimer s)) q = Some qs" "r \<noteq> q"
    with w caches_okD(3) [OF ok, of r ps q qs] show "set ps \<inter> set qs = {}"
      by (auto simp: make_reclaimer_def split: if_splits)
  next
    fix t show "length (caches (snd (make_reclaimer s)) t) = 16"
      using caches_okD(4) [OF ok] by (simp add: make_reclaimer_def)
    fix i :: nat assume "i < 16"
    from slot [OF caches_okD(5) [OF ok this]] show "slot_ok (snd (make_reclaimer s)) t (caches (snd (make_reclaimer s)) t ! i)"
      by (simp add: make_reclaimer_def)
  qed
qed

lemma destroy_ok:
  assumes ok: "caches_ok s"
  shows "caches_ok (destroy_walk r s)"
proof -
  have slot: "slot_ok (destroy_walk r s) u c" if "slot_ok s u c" for u c
    using that by (auto simp: slot_ok_def destroy_walk_def)
  have walk: "walk_ok (destroy_walk r s) ps = walk_ok s ps" for ps
    by (simp add: walk_ok_def destroy_walk_def)
  have old: "walks s x = Some ps" if "walks (destroy_walk r s) x = Some ps" for x ps
    using that by (auto simp: destroy_walk_def split: if_splits)
  have "next_reclaimer_id (destroy_walk r s) = next_reclaimer_id s" "caches (destroy_walk r s) = caches s"
    by (simp_all add: destroy_walk_def)
  with ok slot old show ?thesis unfolding caches_ok_def walk by (metis (no_types, lifting))
qed

lemma restart_ok:
  assumes ok: "caches_ok s"
  shows "caches_ok (restart_thread t s)"
proof -
  have slot: "slot_ok (restart_thread t s) u c" if "slot_ok s u c" for u c
    using that by (simp add: slot_ok_def restart_thread_def)
  have same: "walk_ok (restart_thread t s) ps = walk_ok s ps" "walks (restart_thread t s) = walks s"
    "next_reclaimer_id (restart_thread t s) = next_reclaimer_id s" for ps
    by (simp_all add: walk_ok_def restart_thread_def)
  have cache: "caches (restart_thread t s) u = (if u = t then empty_cache else caches s u)" for u
    by (simp add: restart_thread_def)
  have "length (caches (restart_thread t s) u) = 16 \<and>
      (\<forall>i < 16. slot_ok (restart_thread t s) u (caches (restart_thread t s) u ! i))" for u
    unfolding cache using caches_okD(4) [OF ok] caches_okD(5) [OF ok] slot
    by (simp add: length_empty_cache empty_cache_ok)
  with ok show ?thesis unfolding caches_ok_def same by blast
qed

lemma fill_ok:
  assumes ok: "caches_ok s" and w: "walks s r = Some ps" and p: "p \<in> set ps" "owners s ! p = t"
  shows "caches_ok (fill_cache t r p s)"
proof -
  let ?s = "fill_cache t r p s"
  have "p < length (owners s)" "unat r < unat (next_reclaimer_id s)"
    using caches_okD(2) [OF ok w] p(1) by (auto simp: walk_ok_def)
  then have new: "slot_ok ?s t \<lparr>cs_reclaimer_id = r, cs_participant = Some p\<rparr>"
    using w p by (simp add: slot_ok_def fill_cache_def)
  have old: "slot_ok ?s u c" if "slot_ok s u c" for u c
    using that by (simp add: slot_ok_def fill_cache_def)
  have "slot_ok ?s u (caches ?s u ! i)" if i: "i < 16" for u i
    using new old [OF caches_okD(5) [OF ok i, of u]] caches_okD(4) [OF ok] i
    by (cases "u = t"; cases "i = unat (r mod kReclaimerCacheSize)") (simp_all add: fill_cache_def)
  with ok show ?thesis by (auto simp: caches_ok_def fill_cache_def walk_ok_def)
qed

text \<open>A new participant in front of the list.\<close>

definition push_participant :: "tid \<Rightarrow> size_t \<Rightarrow> nat list \<Rightarrow> reclaimers \<Rightarrow> reclaimers" where
  "push_participant t r ps s =
     s\<lparr>owners := owners s @ [t], walks := (walks s)(r \<mapsto> length (owners s) # ps)\<rparr>"

lemma push_ok:
  assumes ok: "caches_ok s" and w: "walks s r = Some ps" and none: "walk t (owners s) ps = None"
  shows "caches_ok (push_participant t r ps s)"
proof -
  let ?s = "push_participant t r ps s"
  have less: "q < length (owners s)" if "walks s x = Some qs" "q \<in> set qs" for x qs q
    using caches_okD(2) [OF ok that(1)] that(2) by (auto simp: walk_ok_def)
  have keep: "walk_ok ?s qs" if "walk_ok s qs" for qs
  proof -
    have "map (\<lambda>p. owners ?s ! p) qs = map (\<lambda>p. owners s ! p) qs"
      using that by (intro map_cong) (auto simp: walk_ok_def push_participant_def nth_append)
    moreover have "set qs \<subseteq> {..<length (owners ?s)}"
      using that by (auto simp: walk_ok_def push_participant_def)
    ultimately show ?thesis using that unfolding walk_ok_def by (simp only:)
  qed
  have ps: "walk_ok ?s ps" using keep caches_okD(2) [OF ok w] by blast
  have "owners ?s ! p \<noteq> t" if "p \<in> set ps" for p
    using none less [OF w that] that by (auto simp: push_participant_def walk_none nth_append)
  moreover have "owners ?s ! length (owners s) = t" "length (owners s) < length (owners ?s)"
    by (simp_all add: push_participant_def)
  ultimately have new: "walk_ok ?s (length (owners s) # ps)"
    using ps unfolding walk_ok_def by auto metis
  show ?thesis
    unfolding caches_ok_def
  proof (intro conjI allI impI)
    show "next_reclaimer_id ?s \<noteq> 0" using caches_okD(1) [OF ok] by (simp add: push_participant_def)
    fix x xs assume x: "walks ?s x = Some xs"
    show "x \<noteq> 0" "unat x < unat (next_reclaimer_id ?s)" "walk_ok ?s xs"
      using x caches_okD(2) [OF ok, of x xs] caches_okD(2) [OF ok w] keep new
      by (auto simp: push_participant_def split: if_splits)
    fix y ys assume y: "walks ?s y = Some ys" "x \<noteq> y"
    show "set xs \<inter> set ys = {}"
      using x y caches_okD(3) [OF ok, of x _ y] w less [of x xs] less [of y ys]
      by (fastforce simp: push_participant_def split: if_splits)
  next
    fix u show "length (caches ?s u) = 16" using caches_okD(4) [OF ok] by (simp add: push_participant_def)
    fix i :: nat assume "i < 16"
    from caches_okD(5) [OF ok this, of u] w show "slot_ok ?s u (caches ?s u ! i)"
      by (auto simp: slot_ok_def push_participant_def nth_append)
  qed
qed

lemma Adopt_eq:
  "Adopt t r ps s =
     (case walk t (owners s) ps of
        Some p \<Rightarrow> (p, fill_cache t r p s)
      | None \<Rightarrow> (length (owners s), fill_cache t r (length (owners s)) (push_participant t r ps s)))"
  by (simp add: Adopt_def push_participant_def Let_def split: option.split)

lemma Self_finds:
  assumes ok: "caches_ok s" and r: "walks s r = Some ps"
  obtains p s' where "Self t r s = Some (p, s')" "caches_ok s'" "next_reclaimer_id s' = next_reclaimer_id s"
    "\<And>q. q \<noteq> r \<Longrightarrow> walks s' q = walks s q" "\<exists>ps'. walks s' r = Some ps' \<and> p \<in> set ps' \<and> owners s' ! p = t"
    "caches s' t ! unat (r mod kReclaimerCacheSize) = \<lparr>cs_reclaimer_id = r, cs_participant = Some p\<rparr>"
proof -
  let ?i = "unat (r mod kReclaimerCacheSize)"
  let ?c = "caches s t ! ?i"
  have slot: "slot_ok s t ?c" by (rule caches_okD(5) [OF ok cache_index])
  have ne: "r \<noteq> 0" using caches_okD(2) [OF ok r] by blast
  have len: "?i < length (caches s t)" using cache_index caches_okD(4) [OF ok] by simp
  show thesis
  proof (cases "cs_reclaimer_id ?c = r")
    case True
    with slot ne r obtain p where p: "cs_participant ?c = Some p" "owners s ! p = t" "p \<in> set ps"
      by (auto simp: slot_ok_def)
    show thesis
      by (rule that [of p s]) (use True p r ok in \<open>auto simp: Self_def Let_def intro: cache_slot.equality\<close>)
  next
    case False
    then have self: "Self t r s = Some (Adopt t r ps s)" using r by (simp add: Self_def Let_def)
    show thesis
    proof (cases "walk t (owners s) ps")
      case (Some p)
      note p = walk_some [OF Some]
      show thesis
        by (rule that [of p "fill_cache t r p s"])
          (use self Some p r len fill_ok [OF ok r p] in \<open>auto simp: Adopt_eq fill_cache_def\<close>)
    next
      case None
      let ?s = "push_participant t r ps s" and ?p = "length (owners s)"
      have w: "walks ?s r = Some (?p # ps)" "owners ?s ! ?p = t"
        by (simp_all add: push_participant_def)
      have "caches_ok (fill_cache t r ?p ?s)"
        by (rule fill_ok [OF push_ok [OF ok r None] w(1) _ w(2)]) simp
      then show thesis
        by (intro that [of ?p "fill_cache t r ?p ?s"])
          (use self None len in \<open>auto simp: Adopt_eq fill_cache_def push_participant_def\<close>)
    qed
  qed
qed

lemma use_step_ok:
  assumes ok: "caches_ok s" and room: "unat (next_reclaimer_id s) + 1 < 2 ^ 64"
    and step: "use_step u s = Some s'"
  shows "caches_ok s' \<and> unat (next_reclaimer_id s') \<le> unat (next_reclaimer_id s) + 1"
proof (cases u)
  case Make
  have "unat (next_reclaimer_id s + 1) = unat (next_reclaimer_id s) + 1"
    using room by (simp add: unat_word_ariths)
  with make_ok [OF ok room] Make step show ?thesis by (auto simp: make_reclaimer_def)
next
  case (Destroy_reclaimer r)
  with destroy_ok [OF ok, of r] step show ?thesis by (auto simp: destroy_walk_def split: if_splits)
next
  case (Restart t)
  with restart_ok [OF ok, of t] step show ?thesis by (auto simp: restart_thread_def)
next
  case (Find_self t r)
  with step obtain ps where r: "walks s r = Some ps" by (cases "walks s r") (auto simp: Self_def)
  obtain p s1 where "Self t r s = Some (p, s1)" "caches_ok s1" "next_reclaimer_id s1 = next_reclaimer_id s"
    by (rule Self_finds [OF ok r])
  with Find_self step show ?thesis by simp
qed

lemma use_run_ok:
  assumes "use_run us s = Some s'" "caches_ok s" "unat (next_reclaimer_id s) + length us < 2 ^ 64"
  shows "caches_ok s'"
  using assms
proof (induction us arbitrary: s)
  case (Cons u us)
  from Cons.prems(1) obtain s1 where s1: "use_step u s = Some s1" "use_run us s1 = Some s'"
    by (auto simp del: use_step.simps split: option.splits)
  have "unat (next_reclaimer_id s) + 1 < 2 ^ 64" using Cons.prems(3) by simp
  from use_step_ok [OF Cons.prems(2) this s1(1)] Cons.prems(3)
  show ?case by (intro Cons.IH [OF s1(2)]) simp_all
qed simp

section \<open>Property\<close>

text \<open>
  C16 (invariant): a thread always finds its own participant. After any sequence of constructions and
  destructions of reclaimers, restarts of threads and lookups, a lookup in a reclaimer that exists is
  defined; it gives a participant that this reclaimer has and no other one, the only one there that the
  thread owns; the same lookup then hits the cache; and it still does after a lookup in a reclaimer
  whose id has another index in the cache.
\<close>

theorem lookup_finds_own:
  assumes "use_run us no_reclaimers = Some s" "length us < 2 ^ 63" "walks s r = Some ps"
  shows "\<exists>p s' ps'. Self t r s = Some (p, s') \<and> walks s' r = Some ps' \<and>
    (\<forall>q \<in> set ps'. owners s' ! q = t \<longleftrightarrow> q = p) \<and> p \<in> set ps' \<and>
    (\<forall>x qs. x \<noteq> r \<longrightarrow> walks s' x = Some qs \<longrightarrow> p \<notin> set qs) \<and>
    Self t r s' = Some (p, s') \<and>
    (\<forall>x q s''. x mod kReclaimerCacheSize \<noteq> r mod kReclaimerCacheSize \<longrightarrow> Self t x s' = Some (q, s'') \<longrightarrow>
       Self t r s'' = Some (p, s''))"
proof -
  have ok: "caches_ok s"
    by (rule use_run_ok [OF assms(1) no_reclaimers_ok]) (use assms(2) in \<open>simp add: no_reclaimers_def\<close>)
  obtain p s' ps' where f: "Self t r s = Some (p, s')" "caches_ok s'" "walks s' r = Some ps'" "p \<in> set ps'"
      "owners s' ! p = t"
    and c: "caches s' t ! unat (r mod kReclaimerCacheSize) = \<lparr>cs_reclaimer_id = r, cs_participant = Some p\<rparr>"
    using Self_finds [OF ok assms(3), of t] by metis
  have hit: "Self t r s'' = Some (p, s'')"
    if "walks s'' r \<noteq> None" "caches s'' t ! unat (r mod kReclaimerCacheSize) = \<lparr>cs_reclaimer_id = r, cs_participant = Some p\<rparr>"
    for s'' using that by (auto simp: Self_def Let_def)
  have "walk_ok s' ps'" using caches_okD(2) [OF f(2,3)] by blast
  then have "q = p" if "q \<in> set ps'" "owners s' ! q = t" for q
    using that f(4,5) by (auto simp: walk_ok_def distinct_map inj_on_def)
  then have one: "\<forall>q \<in> set ps'. owners s' ! q = t \<longleftrightarrow> q = p" using f(5) by blast
  have other: "\<forall>x qs. x \<noteq> r \<longrightarrow> walks s' x = Some qs \<longrightarrow> p \<notin> set qs"
    using caches_okD(3) [OF f(2,3)] f(4) by blast
  have again: "Self t r s' = Some (p, s')" using hit [of s'] f(3) c by simp
  have "Self t r s'' = Some (p, s'')"
    if x: "x mod kReclaimerCacheSize \<noteq> r mod kReclaimerCacheSize" "Self t x s' = Some (q, s'')" for x q s''
  proof (rule hit)
    have "unat (x mod kReclaimerCacheSize) \<noteq> unat (r mod kReclaimerCacheSize)"
      using x(1) by (simp add: word_unat_eq_iff)
    moreover from x(2) obtain xs where "walks s' x = Some xs" by (cases "walks s' x") (auto simp: Self_def)
    ultimately show "caches s'' t ! unat (r mod kReclaimerCacheSize) = \<lparr>cs_reclaimer_id = r, cs_participant = Some p\<rparr>"
      "walks s'' r \<noteq> None"
      using x(2) c f(3)
      by (auto simp: Self_def Let_def Adopt_eq fill_cache_def push_participant_def split: if_splits option.splits)
  qed
  with f one other again show ?thesis by blast
qed

text \<open>Thread 7 uses the reclaimer 1, which is destroyed, and then 17, which has the same index.\<close>

definition cache_uses :: "use list" where
  "cache_uses = Make # Find_self 7 1 # Destroy_reclaimer 1 # replicate 16 Make"

theorem lookup_finds_own_witness:
  "\<exists>s p s'. use_run cache_uses no_reclaimers = Some s \<and>
    cs_reclaimer_id (caches s 7 ! 1) = 1 \<and> Self 7 17 s = Some (p, s') \<and> p \<noteq> 0 \<and> Self 7 17 s' = Some (p, s')"
proof -
  have "replicate 16 Make = [Make, Make, Make, Make, Make, Make, Make, Make, Make, Make, Make, Make, Make, Make, Make, Make]"
    by (simp add: numeral_eq_Suc)
  then have "\<exists>s. use_run cache_uses no_reclaimers = Some s \<and> walks s 17 = Some [] \<and>
      cs_reclaimer_id (caches s 7 ! 1) = 1 \<and> owners s = [7]"
    by (simp add: cache_uses_def no_reclaimers_def make_reclaimer_def Self_def Adopt_def fill_cache_def
        destroy_walk_def empty_cache_def kReclaimerCacheSize_def empty_slot_def Let_def)
  then obtain s where s: "use_run cache_uses no_reclaimers = Some s" "walks s 17 = Some []"
    "cs_reclaimer_id (caches s 7 ! 1) = 1" "owners s = [7]" by blast
  have "length cache_uses < 2 ^ 63" by (simp add: cache_uses_def)
  from lookup_finds_own [OF s(1) this s(2), of 7] obtain p s' where
    p: "Self 7 17 s = Some (p, s')" "Self 7 17 s' = Some (p, s')" by blast
  have "unat (17 mod kReclaimerCacheSize) = 1" by (simp add: kReclaimerCacheSize_def)
  with p(1) s have "p \<noteq> 0" by (auto simp: Self_def Adopt_def Let_def)
  with s p show ?thesis by blast
qed

end
