(* ===== verification/HashSetReclaimed.thy ===== *)
theory HashSetReclaimed
  imports HashSetLockFree EpochReclaimer
begin

text \<open>
  \<open>HashSetLockFree.h\<close> together with \<open>EpochReclaimer.h\<close>: every operation of the lock-free set runs
  inside a \<open>Guard\<close>, and the nodes its list unlinks are handed to the set's reclaimer. The state is a
  state of the set, a state of the reclaimer, and the addresses of the nodes the reclaimer numbers,
  in the order in which they were linked. A thread moves in one of the two: in the constructor or
  destructor of its guard and in \<open>Retire\<close> it takes the reclaimer's steps, and otherwise, while the
  reclaimer has it in its guard and idle, the set's. The steps that link and unlink a node are
  steps of both.
\<close>

section \<open>State, construction, destruction\<close>

record 'a reclaimed =
  rc_set :: "('a lockfree, 'a hpc) sys"
  rc_epoch :: reclaimer
  rc_nodes :: "addr list"

text \<open>
  The constructor. The reclaimer is a member, constructed before the body runs; the body checks the
  capacities and makes the root inside a guard of the constructing thread.
\<close>

definition constructor_guard :: "tid \<Rightarrow> (tid \<times> action) list" where
  "constructor_guard t =
     [(t, Begin), (t, Go), (t, Go), (t, Go), (t, Go), (t, Go), (t, Go), (t, End)]"

definition construct_reclaimed ::
    "'a \<Rightarrow> tid \<Rightarrow> bool \<Rightarrow> size_t \<Rightarrow> size_t \<Rightarrow> exn + 'a reclaimed" where
  "construct_reclaimed d t registered initial_capacity max_capacity =
     (case construct_reclaimer registered of
        Inl x \<Rightarrow> Inl x
      | Inr e \<Rightarrow>
          (case construct_lockfree d initial_capacity max_capacity of
             Inl x \<Rightarrow> Inl x
           | Inr l \<Rightarrow> Inr \<lparr>rc_set = \<lparr>shared = l, pcs = (\<lambda>_. HIdle)\<rparr>,
                           rc_epoch = the (e_run (constructor_guard t) e), rc_nodes = []\<rparr>))"

text \<open>The nodes the reclaimer has freed, and those the destructors free: the list's, then the bags.\<close>

definition freed_nodes :: "'a reclaimed \<Rightarrow> addr list" where
  "freed_nodes s = map (\<lambda>n. rc_nodes s ! n) (freed (rc_epoch s))"

definition destroy_reclaimed :: "nat \<Rightarrow> 'a reclaimed \<Rightarrow> addr list option" where
  "destroy_reclaimed fuel s =
     map_option (\<lambda>as. as @ map (\<lambda>n. rc_nodes s ! n) (destroy_reclaimer (rc_epoch s)))
       (destroy_lockfree fuel (shared (rc_set s)))"

section \<open>Steps\<close>

text \<open>
  What a step of the set means to the reclaimer: the successful compare-and-set of \<open>LInsert\<close> links
  the new node (\<open>Inl\<close>), those of \<open>LUnlink\<close> and \<open>LDetach\<close> unlink a marked one, which the thread then
  retires (\<open>Inr\<close>).
\<close>

fun list_action :: "'a lpc \<Rightarrow> 'a lpc \<Rightarrow> (addr + addr) option" where
  "list_action (LInsert c p a n) (LRet r) = Some (Inl n)"
| "list_action (LUnlink c p a r) (LRetire c' p' a' r') = Some (Inr a)"
| "list_action (LDetach p a r) (LDispose a') = Some (Inr a)"
| "list_action pc pc' = None"

fun set_action :: "'a hpc \<Rightarrow> 'a hpc \<Rightarrow> (addr + addr) option" where
  "set_action (HSentinel x i js pc) (HSentinel x' i' js' pc') = list_action pc pc'"
| "set_action (HList x pc) (HList x' pc') = list_action pc pc'"
| "set_action pc pc' = None"

definition node_number :: "addr list \<Rightarrow> addr \<Rightarrow> nat" where
  "node_number ns a = length (takeWhile (\<lambda>b. b \<noteq> a) ns)"

definition joint ::
    "('a lockfree, 'a hpc) sys option \<Rightarrow> reclaimer option \<Rightarrow> addr list \<Rightarrow> 'a reclaimed option" where
  "joint s e ns =
     (case s of None \<Rightarrow> None
      | Some s' \<Rightarrow> map_option (\<lambda>e'. \<lparr>rc_set = s', rc_epoch = e', rc_nodes = ns\<rparr>) e)"

text \<open>
  The moves of a thread: it calls an operation, whose first act is the construction of its guard; it
  takes a step in the reclaimer, in which \<open>membarrier\<close> may have succeeded or not; it takes a step of
  its operation; it returns, leaving its guard; an exception of \<open>Retire\<close> leaves the guard and the
  operation for good; it uses another reclaimer in between.
\<close>

datatype 'a move =
    RCall tid "'a op"
  | RGuard tid bool
  | RWork tid
  | RReturn tid
  | RThrow tid
  | REvict tid

fun rc_step :: "('a \<Rightarrow> size_t) \<Rightarrow> 'a \<Rightarrow> 'a move \<Rightarrow> 'a reclaimed \<Rightarrow> 'a reclaimed option" where
  "rc_step hash d (RCall t x) s =
     joint (sched_step (lockfree_program hash d) (CallOp t x) (rc_set s))
       (e_step t Begin (rc_epoch s)) (rc_nodes s)"
| "rc_step hash d (RGuard t fenced) s =
     joint (Some (rc_set s))
       (e_step t (case e_pc (rc_epoch s) t of TFence e \<Rightarrow> Fenced fenced | _ \<Rightarrow> Go) (rc_epoch s))
       (rc_nodes s)"
| "rc_step hash d (RWork t) s =
     (if e_pc (rc_epoch s) t = GActive
      then (case sched_step (lockfree_program hash d) (Tick t) (rc_set s) of
              None \<Rightarrow> None
            | Some s' \<Rightarrow>
                (case set_action (pcs (rc_set s) t) (pcs s' t) of
                   None \<Rightarrow> joint (Some s') (Some (rc_epoch s)) (rc_nodes s)
                 | Some (Inl n) \<Rightarrow> joint (Some s') (e_step t Link (rc_epoch s)) (rc_nodes s @ [n])
                 | Some (Inr a) \<Rightarrow>
                     joint (Some s') (e_step t (Unlink (node_number (rc_nodes s) a)) (rc_epoch s))
                       (rc_nodes s)))
      else None)"
| "rc_step hash d (RReturn t) s =
     (if e_pc (rc_epoch s) t = GActive
      then joint (sched_step (lockfree_program hash d) (Finish t) (rc_set s))
             (e_step t End (rc_epoch s)) (rc_nodes s)
      else None)"
| "rc_step hash d (RThrow t) s =
     (if e_pc (rc_epoch s) t = GThrow
      then joint (Some (rc_set s)) (e_step t End (rc_epoch s)) (rc_nodes s)
      else None)"
| "rc_step hash d (REvict t) s =
     joint (Some (rc_set s)) (e_step t Evict (rc_epoch s)) (rc_nodes s)"

fun rc_event :: "('a \<Rightarrow> size_t) \<Rightarrow> 'a \<Rightarrow> 'a move \<Rightarrow> 'a reclaimed \<Rightarrow> 'a event list" where
  "rc_event hash d (RCall t x) s = [Call t x]"
| "rc_event hash d (RReturn t) s = sched_event (lockfree_program hash d) (Finish t) (rc_set s)"
| "rc_event hash d m s = []"

fun rc_run ::
    "('a \<Rightarrow> size_t) \<Rightarrow> 'a \<Rightarrow> 'a move list \<Rightarrow> 'a reclaimed \<Rightarrow> ('a event list \<times> 'a reclaimed) option" where
  "rc_run hash d [] s = Some ([], s)"
| "rc_run hash d (m # ms) s =
     (case rc_step hash d m s of
        None \<Rightarrow> None
      | Some s1 \<Rightarrow>
          (case rc_run hash d ms s1 of
             None \<Rightarrow> None
           | Some (h, s2) \<Rightarrow> Some (rc_event hash d m s @ h, s2)))"

text \<open>Every guard announces the epoch that is the global one at that moment.\<close>

definition on_time :: "'a move \<Rightarrow> 'a reclaimed \<Rightarrow> bool" where
  "on_time m s =
     (case m of
        RGuard t b \<Rightarrow> (case e_pc (rc_epoch s) t of GAnnounce e \<Rightarrow> e = e_epoch (rc_epoch s) | _ \<Rightarrow> True)
      | _ \<Rightarrow> True)"

fun rc_timely :: "('a \<Rightarrow> size_t) \<Rightarrow> 'a \<Rightarrow> 'a move list \<Rightarrow> 'a reclaimed \<Rightarrow> bool" where
  "rc_timely hash d [] s = True"
| "rc_timely hash d (m # ms) s =
     (on_time m s \<and>
      (case rc_step hash d m s of None \<Rightarrow> True | Some s1 \<Rightarrow> rc_timely hash d ms s1))"

end
