(* ===== verification/ListChanges.thy ===== *)
theory ListChanges
  imports ListCorrect
begin

text \<open>
  Which change of the chain a write of one reference is: what \<open>evolves\<close> leaves open, the new chain and
  the new set of published nodes, is determined by the new heap.
\<close>

section \<open>From the heap to the chain\<close>

text \<open>No published reference or mark changes: the chain is the same.\<close>

lemma evolves_quiet:
  assumes "evolves hash h C P w h' C' P'" "list_inv hash root h C P"
    and "\<And>a. a \<in> P \<Longrightarrow> nxt (h' ! a) = nxt (h ! a)"
  shows "C' = C \<and> P' = P"
  using assms
proof (induction rule: evolves.induct)
  case (ev_link C us p c vs h n P)
  have mem: "p \<in> P" "c \<in> P" using ev_link.prems(1) ev_link.hyps(1) by (auto simp: list_inv_def)
  have "p < length h" by (rule list_inv_less [OF ev_link.prems(1) mem(1)])
  with ev_link.prems(2) [OF mem(1)] ev_link.hyps mem show ?case by (auto simp: nxt_set_next)
next
  case (ev_mark a C h r P)
  have aP: "a \<in> P" using list_inv_subset [OF ev_mark.prems(1) ev_mark.hyps(1)] .
  with ev_mark.prems(2) [OF aP] list_inv_less [OF ev_mark.prems(1) aP] ev_mark.hyps(2) show ?case
    by (simp add: nxt_set_next)
next
  case (ev_unlink C us p c d vs h P)
  have mem: "p \<in> P" using ev_unlink.prems(1) ev_unlink.hyps(1) by (auto simp: list_inv_def)
  have "c \<noteq> d" using list_inv_distinct [OF ev_unlink.prems(1)] ev_unlink.hyps(1) by auto
  with ev_unlink.prems(2) [OF mem] list_inv_less [OF ev_unlink.prems(1) mem] ev_unlink.hyps(2)
  show ?case by (simp add: nxt_set_next)
qed auto


text \<open>A change of a published reference is a link, a mark or an unlinking, at that node.\<close>

lemma evolves_change_at:
  assumes "evolves hash h C P w h' C' P'" "list_inv hash root h C P" "p \<in> P" "nxt (h' ! p) \<noteq> nxt (h ! p)"
  obtains
    us c n vs where "h' = set_next h p (Some n, False)" "C = us @ p # c # vs" "C' = us @ p # n # c # vs"
      "P' = insert n P" "n \<notin> P" "n < length h" "nxt (h ! p) = (Some c, False)" "nxt (h ! n) = (Some c, False)"
  | r where "h' = set_next h p (r, True)" "C' = C" "P' = P" "nxt (h ! p) = (r, False)"
  | us c b vs where "h' = set_next h p (Some b, False)" "C = us @ p # c # b # vs" "C' = us @ p # b # vs"
      "P' = P" "nxt (h ! p) = (Some c, False)" "nxt (h ! c) = (Some b, True)"
  using assms(1)
proof cases
  case ev_same
  with assms(4) show thesis by simp
next
  case (ev_alloc n)
  with assms(4) list_inv_less [OF assms(2,3)] show thesis by (simp add: nth_append)
next
  case (ev_private a r)
  with assms(3) have "nxt (h' ! p) = nxt (h ! p)" by (metis set_next_other)
  with assms(4) show thesis by simp
next
  case (ev_link us q c vs n)
  have "q = p"
  proof (rule ccontr)
    assume "q \<noteq> p"
    with ev_link assms(4) show False by simp
  qed
  with ev_link show thesis by (intro that(1) [of n us c vs]) simp_all
next
  case (ev_mark a r)
  have "a = p"
  proof (rule ccontr)
    assume "a \<noteq> p"
    with ev_mark assms(4) show False by simp
  qed
  with ev_mark show thesis by (intro that(2) [of r]) simp_all
next
  case (ev_unlink us q c b vs)
  have "q = p"
  proof (rule ccontr)
    assume "q \<noteq> p"
    with ev_unlink assms(4) show False by simp
  qed
  with ev_unlink show thesis by (intro that(3) [of b us c vs]) simp_all
qed

lemma evolves_link_at:
  assumes ev: "evolves hash h C P w (set_next h p (Some n, False)) C' P'" and inv: "list_inv hash root h C P"
    and p: "p \<in> P" "nxt (h ! p) = (Some c, False)" and n: "n \<notin> P"
  shows "\<exists>us vs. C = us @ p # c # vs \<and> C' = us @ p # n # c # vs \<and> P' = insert n P \<and>
    n < length h \<and> nxt (h ! n) = (Some c, False)"
proof -
  have len: "p < length h" by (rule list_inv_less [OF inv p(1)])
  have "c \<in> P" using ref_published [OF inv p(1)] p(2) by simp
  with n have cn: "n \<noteq> c" by auto
  then have "nxt (set_next h p (Some n, False) ! p) \<noteq> nxt (h ! p)" using p(2) len by (simp add: nxt_set_next)
  from ev inv p(1) this show ?thesis
  proof (cases rule: evolves_change_at)
    case (1 us c' n' vs)
    then have "nxt (set_next h p (Some n, False) ! p) = nxt (set_next h p (Some n', False) ! p)" by simp
    with len have "n' = n" by (simp add: nxt_set_next)
    with 1 p(2) show ?thesis by auto
  next
    case (2 r)
    then have "nxt (set_next h p (Some n, False) ! p) = nxt (set_next h p (r, True) ! p)" by simp
    with len show ?thesis by (simp add: nxt_set_next)
  next
    case (3 us c' b vs)
    then have "nxt (set_next h p (Some n, False) ! p) = nxt (set_next h p (Some b, False) ! p)" by simp
    with len have "b = n" by (simp add: nxt_set_next)
    with 3 n inv show ?thesis by (auto simp: list_inv_def)
  qed
qed

lemma evolves_unlink_at:
  assumes ev: "evolves hash h C P w (set_next h p (r, False)) C' P'" and inv: "list_inv hash root h C P"
    and p: "p \<in> P" "nxt (h ! p) = (Some a, False)" and a: "nxt (h ! a) = (r, True)"
  shows "\<exists>us b vs. r = Some b \<and> C = us @ p # a # b # vs \<and> C' = us @ p # b # vs \<and> P' = P"
proof -
  have len: "p < length h" by (rule list_inv_less [OF inv p(1)])
  obtain us b vs where C: "C = us @ p # a # b # vs" "r = Some b" using unlinks [OF inv p a] by metis
  with list_inv_distinct [OF inv] inv have b: "b \<noteq> a" "b \<in> P" by (auto simp: list_inv_def)
  then have "nxt (set_next h p (r, False) ! p) \<noteq> nxt (h ! p)" using p(2) len C(2) by (simp add: nxt_set_next)
  from ev inv p(1) this show ?thesis
  proof (cases rule: evolves_change_at)
    case (1 us' c n vs')
    then have "nxt (set_next h p (r, False) ! p) = nxt (set_next h p (Some n, False) ! p)" by simp
    with len C(2) have "n = b" by (simp add: nxt_set_next)
    with 1 b show ?thesis by simp
  next
    case (2 r')
    then have "nxt (set_next h p (r, False) ! p) = nxt (set_next h p (r', True) ! p)" by simp
    with len show ?thesis by (simp add: nxt_set_next)
  next
    case (3 us' c b' vs')
    then have "nxt (set_next h p (r, False) ! p) = nxt (set_next h p (Some b', False) ! p)" by simp
    with len C(2) have "b' = b" by (simp add: nxt_set_next)
    with 3 p(2) C(2) show ?thesis by auto
  qed
qed

lemma evolves_mark_at:
  assumes ev: "evolves hash h C P w (set_next h a (r, True)) C' P'" and inv: "list_inv hash root h C P"
    and a: "a \<in> P" "nxt (h ! a) = (r, False)"
  shows "C' = C \<and> P' = P"
proof -
  have len: "a < length h" by (rule list_inv_less [OF inv a(1)])
  then have ne: "nxt (set_next h a (r, True) ! a) \<noteq> nxt (h ! a)" using a(2) by (simp add: nxt_set_next)
  from ev inv a(1) ne show ?thesis
  proof (cases rule: evolves_change_at)
    case (1 us c n vs)
    then have "nxt (set_next h a (r, True) ! a) = nxt (set_next h a (Some n, False) ! a)" by simp
    with len show ?thesis by (simp add: nxt_set_next)
  next
    case (3 us c b vs)
    then have "nxt (set_next h a (r, True) ! a) = nxt (set_next h a (Some b, False) ! a)" by simp
    with len show ?thesis by (simp add: nxt_set_next)
  qed simp
qed

text \<open>Preparing a node touches no published one.\<close>

lemma prepare_keeps:
  assumes "list_inv hash root (heap s) C P" "call_ok hash (heap s) P c"
    and "prepare_node hash d c a s = (n, s')" "b \<in> P"
  shows "nxt (heap s' ! b) = nxt (heap s ! b)"
proof (cases "c_node c")
  case None
  with assms(3) list_inv_less [OF assms(1,4)] show ?thesis
    by (auto simp: prepare_node_def nth_append)
next
  case (Some m)
  with assms(2,4) have "m \<noteq> b" by (auto simp: call_ok_def node_ok_def)
  with Some assms(3) show ?thesis by (auto simp: prepare_node_def)
qed

end
