(* ===== verification/ReclaimedInv.thy ===== *)
theory ReclaimedInv
  imports HashSetReclaimed LockFreeProps ListChanges EpochSafety
begin

text \<open>
  The set and its reclaimer keep in step. The nodes that are linked for the reclaimer are those of
  the chain; what a thread inside a guard may still read (\<open>visible\<close>) contains the chain, is closed
  under following references, and contains every published node the thread holds an address of.
\<close>

section \<open>What a step does to the chain\<close>

definition relinks ::
    "'a node list \<Rightarrow> addr list \<Rightarrow> addr set \<Rightarrow> (addr + addr) option \<Rightarrow>
     'a node list \<Rightarrow> addr list \<Rightarrow> addr set \<Rightarrow> bool" where
  "relinks h C P act h' C' P' \<longleftrightarrow>
     (\<forall>a \<in> P'. \<forall>b. ref h' a = Some b \<longrightarrow> a \<in> P \<and> ref h a = Some b \<or> b \<in> set C') \<and>
     (case act of
        None \<Rightarrow> C' = C \<and> P' = P
      | Some (Inl n) \<Rightarrow> n \<notin> P \<and> P' = insert n P \<and> set C' = insert n (set C)
      | Some (Inr a) \<Rightarrow> P' = P \<and> a \<in> set C \<and> is_elem (h ! a) \<and> set C' = set C - {a})"

lemma relinks_none:
  assumes "evolves hash h C P w h' C' P'" "list_inv hash root h C P"
    and "\<And>a. a \<in> P \<Longrightarrow> nxt (h' ! a) = nxt (h ! a)"
  shows "relinks h C P None h' C' P'"
  using evolves_quiet [OF assms] assms(3) by (auto simp: relinks_def)

lemma relinks_link:
  assumes ev: "evolves hash h C P w (set_next h p (Some n, False)) C' P'" and inv: "list_inv hash root h C P"
    and p: "p \<in> P" "nxt (h ! p) = (Some c, False)" and n: "n \<notin> P"
  shows "relinks h C P (Some (Inl n)) (set_next h p (Some n, False)) C' P'"
proof -
  have len: "p < length h" by (rule list_inv_less [OF inv p(1)])
  from evolves_link_at [OF ev inv p n] obtain us vs where
    C: "C = us @ p # c # vs" "C' = us @ p # n # c # vs" "P' = insert n P" "nxt (h ! n) = (Some c, False)"
    by blast
  with n p(1) len show ?thesis by (auto simp: relinks_def nxt_set_next)
qed

lemma relinks_unlink:
  assumes ev: "evolves hash h C P w (set_next h p (r, False)) C' P'" and inv: "list_inv hash root h C P"
    and p: "p \<in> P" "nxt (h ! p) = (Some a, False)" and a: "nxt (h ! a) = (r, True)"
  shows "relinks h C P (Some (Inr a)) (set_next h p (r, False)) C' P'"
proof -
  have len: "p < length h" by (rule list_inv_less [OF inv p(1)])
  from evolves_unlink_at [OF ev inv p a] obtain us b vs where
    C: "r = Some b" "C = us @ p # a # b # vs" "C' = us @ p # b # vs" "P' = P" by blast
  have "a \<in> P" using C(2) inv by (auto simp: list_inv_def)
  from list_inv_published [OF inv this] a have "is_elem (h ! a)" by (simp add: published_def)
  moreover have "set C' = set C - {a}" using C list_inv_distinct [OF inv] by auto
  ultimately show ?thesis using C len by (auto simp: relinks_def nxt_set_next)
qed

lemma relinks_mark:
  assumes ev: "evolves hash h C P w (set_next h a (r, True)) C' P'" and inv: "list_inv hash root h C P"
    and a: "a \<in> P" "nxt (h ! a) = (r, False)"
  shows "relinks h C P None (set_next h a (r, True)) C' P'"
  using evolves_mark_at [OF assms] list_inv_less [OF inv a(1)] a by (auto simp: relinks_def nxt_set_next)

lemma found_relinks:
  assumes inv: "list_inv hash root (heap s) C P" and call: "call_ok hash (heap s) P c"
    and f: "found hash d c p a s = (s', pc')" and ev: "evolves hash (heap s) C P w (heap s') C' P'"
  shows "relinks (heap s) C P None (heap s') C' P'"
proof (rule relinks_none [OF ev inv])
  fix b assume b: "b \<in> P"
  obtain n s1 where pr: "prepare_node hash d c a s = (n, s1)" by fastforce
  have "heap s' = heap s \<or> heap s' = heap s1"
    using f pr by (cases "c_op c") (auto simp: found_def split: if_splits)
  with prepare_keeps [OF inv call pr b] show "nxt (heap s' ! b) = nxt (heap s ! b)" by auto
qed

lemma l_step_relinks:
  assumes inv: "list_inv hash root (heap s) C P" and ok: "l_ok hash (heap s) C P x pc"
    and run: "\<And>r. pc \<noteq> LRet r" and ev: "evolves hash (heap s) C P w (heap s') C' P'"
    and step: "l_step hash d s pc = (s', pc')"
  shows "relinks (heap s) C P (list_action pc pc') (heap s') C' P'"
proof (cases pc)
  case (LFind c)
  with step have "heap s' = heap s" "list_action pc pc' = None" by (auto split: if_splits)
  with relinks_none [OF ev inv] show ?thesis by simp
next
  case (LScan c p a)
  have len: "a < length (heap s)" and call: "call_ok hash (heap s) P c"
    using ok list_inv_less [OF inv] LScan by (auto simp: cur_ok_def)
  have act: "list_action pc pc' = None" using LScan by simp
  show ?thesis
  proof (cases "\<not> marked (heap s) a \<and> AtOrPast (heap s ! a) (lop_key hash (c_op c)) (lop_elem (c_op c))")
    case True
    with step len LScan have "found hash d c p a s = (s', pc')" by (auto split: prod.splits)
    from found_relinks [OF inv call this ev] act show ?thesis by simp
  next
    case False
    with step len LScan have "heap s' = heap s" by (auto split: prod.splits if_splits)
    with relinks_none [OF ev inv] act show ?thesis by simp
  qed
next
  case (LUnlink c p a r)
  have P: "p \<in> P" "a \<in> P" and a: "nxt (heap s ! a) = (r, True)" using ok LUnlink by (auto simp: pred_ok_def)
  have len: "p < length (heap s)" by (rule list_inv_less [OF inv P(1)])
  show ?thesis
  proof (cases "nxt (heap s ! p) = (Some a, False)")
    case True
    with step len LUnlink have h': "heap s' = set_next (heap s) p (r, False)" "pc' = LRetire c p a r"
      by (auto simp: cas_next_def mref_cas_def)
    from relinks_unlink [OF ev [unfolded h'(1)] inv P(1) True a] show ?thesis by (simp add: LUnlink h')
  next
    case False
    with step len LUnlink have "s' = s" "pc' = LFind c"
      by (auto simp: cas_next_def mref_cas_def retry_def)
    with relinks_none [OF ev inv] LUnlink show ?thesis by simp
  qed
next
  case (LRetire c p a r)
  with step have "heap s' = heap s" "list_action pc pc' = None" by auto
  with relinks_none [OF ev inv] show ?thesis by simp
next
  case (LInsert c p a n)
  have P: "p \<in> P" and n: "n \<notin> P" using ok LInsert by (auto simp: pred_ok_def call_ok_def node_ok_def)
  have len: "p < length (heap s)" by (rule list_inv_less [OF inv P])
  show ?thesis
  proof (cases "nxt (heap s ! p) = (Some a, False)")
    case True
    with step len LInsert have h': "heap s' = set_next (heap s) p (Some n, False)" "\<exists>r. pc' = LRet r"
      by (auto simp: cas_next_def mref_cas_def)
    from relinks_link [OF ev [unfolded h'(1)] inv P True n] h' show ?thesis by (auto simp: LInsert)
  next
    case False
    with step len LInsert have "s' = s" "pc' = LFind c"
      by (auto simp: cas_next_def mref_cas_def retry_def)
    with relinks_none [OF ev inv] LInsert show ?thesis by simp
  qed
next
  case (LSucc c p a)
  with step have "heap s' = heap s" "list_action pc pc' = None" by (auto split: if_splits)
  with relinks_none [OF ev inv] show ?thesis by simp
next
  case (LMark c p a r)
  have P: "a \<in> P" using ok LMark by auto
  have len: "a < length (heap s)" by (rule list_inv_less [OF inv P])
  show ?thesis
  proof (cases "nxt (heap s ! a) = (r, False)")
    case True
    with step len LMark have h': "heap s' = set_next (heap s) a (r, True)" "pc' = LDetach p a r"
      by (auto simp: mref_attempt_mark_def mref_cas_def)
    from relinks_mark [OF ev [unfolded h'(1)] inv P True] show ?thesis by (simp add: LMark h')
  next
    case False
    with step len LMark have "s' = s" "pc' = LFind c"
      by (auto simp: mref_attempt_mark_def mref_cas_def retry_def)
    with relinks_none [OF ev inv] LMark show ?thesis by simp
  qed
next
  case (LDetach p a r)
  have P: "p \<in> P" and a: "nxt (heap s ! a) = (r, True)" using ok LDetach by auto
  have len: "p < length (heap s)" by (rule list_inv_less [OF inv P])
  show ?thesis
  proof (cases "nxt (heap s ! p) = (Some a, False)")
    case True
    with step len LDetach have h': "heap s' = set_next (heap s) p (r, False)" "pc' = LDispose a"
      by (auto simp: cas_next_def mref_cas_def)
    from relinks_unlink [OF ev [unfolded h'(1)] inv P True a] show ?thesis by (simp add: LDetach h')
  next
    case False
    with step len LDetach have "s' = s" "pc' = LRet (RBool True)"
      by (auto simp: cas_next_def mref_cas_def)
    with relinks_none [OF ev inv] LDetach show ?thesis by simp
  qed
next
  case (LDispose a)
  with step have "heap s' = heap s" "list_action pc pc' = None" by auto
  with relinks_none [OF ev inv] show ?thesis by simp
next
  case (LLook e a)
  with step have "heap s' = heap s" "list_action pc pc' = None" by (auto simp: Let_def split: if_splits)
  with relinks_none [OF ev inv] show ?thesis by simp
qed (use ok run in auto)

section \<open>The addresses a thread holds\<close>

fun l_addrs :: "'a lpc \<Rightarrow> addr set" where
  "l_addrs (LFind c) = insert (c_head c) (set_option (c_node c))"
| "l_addrs (LScan c p a) = {c_head c, p, a} \<union> set_option (c_node c)"
| "l_addrs (LUnlink c p a r) = {c_head c, p, a} \<union> set_option r \<union> set_option (c_node c)"
| "l_addrs (LRetire c p a r) = {c_head c, p, a} \<union> set_option r \<union> set_option (c_node c)"
| "l_addrs (LInsert c p a n) = {c_head c, p, a, n} \<union> set_option (c_node c)"
| "l_addrs (LSucc c p a) = {c_head c, p, a} \<union> set_option (c_node c)"
| "l_addrs (LMark c p a r) = {c_head c, p, a} \<union> set_option r \<union> set_option (c_node c)"
| "l_addrs (LDetach p a r) = {p, a} \<union> set_option r"
| "l_addrs (LDispose a) = {a}"
| "l_addrs (LLook e a) = {a}"
| "l_addrs (LRet r) = (case r of RSentinel a \<Rightarrow> {a} | RBool b \<Rightarrow> {})"
| "l_addrs LUndef = {}"

definition h_addrs :: "'a hpc \<Rightarrow> addr set" where
  "h_addrs pc = (case list_pc pc of None \<Rightarrow> {} | Some p \<Rightarrow> l_addrs p)"

lemma touches_addrs: "touches pc \<subseteq> l_addrs pc"
  by (cases pc rule: touches.cases) auto

text \<open>Where the addresses a step leaves with come from.\<close>

definition derived :: "'a node list \<Rightarrow> addr set \<Rightarrow> addr set \<Rightarrow> addr \<Rightarrow> bool" where
  "derived h P A a \<longleftrightarrow> a \<in> A \<or> (\<exists>b \<in> A \<inter> P. ref h b = Some a) \<or> length h \<le> a"

lemma found_derived:
  assumes "found hash d c p a s = (s', pc')" "b \<in> l_addrs pc'"
  shows "derived (heap s) P (l_addrs (LScan c p a)) b"
  using assms
  by (cases "c_op c"; cases "c_node c")
    (auto simp: found_def prepare_node_def derived_def split: if_splits)

lemma l_step_derived:
  assumes ok: "l_ok hash (heap s) C P x pc" and step: "l_step hash d s pc = (s', pc')"
    and b: "b \<in> l_addrs pc'"
  shows "derived (heap s) P (l_addrs pc) b"
proof (cases pc)
  case (LScan c p a)
  have P: "a \<in> P" using ok LScan by (simp add: cur_ok_def)
  show ?thesis
  proof (cases "found hash d c p a s = (s', pc')")
    case True
    show ?thesis unfolding LScan by (rule found_derived [OF True b])
  next
    case False
    with step b P LScan have "b \<in> l_addrs (LScan c p a) \<or> ref (heap s) a = Some b"
      by (auto simp: goto_def split: if_splits prod.splits option.splits)
    with P LScan show ?thesis unfolding derived_def by auto
  qed
qed (use ok step b in \<open>auto simp: call_ok_def goto_def cas_next_def mref_cas_def mref_attempt_mark_def
      retry_def Let_def derived_def split: if_splits option.splits lop.splits\<close>)

lemma evolves_bounded:
  assumes "evolves hash h C P w h' C' P'" "list_inv hash root h C P" "a \<in> P'"
  shows "a < length h"
  using assms by (induction rule: evolves.induct) (auto dest: list_inv_less)


lemma bucket_found_addrs: "h_addrs (bucket_found x js a l) \<subseteq> {a}"
  by (cases js; cases x)
    (auto simp: bucket_found_def h_addrs_def l_start_def l_find_def SentinelFor_def Let_def)

lemma lf_step_derived:
  assumes inv: "list_inv hash root (heap (lf_list s)) C P" and tab: "table_ok s P"
    and ok: "h_ok hash (lf_max_capacity s) (heap (lf_list s)) C P pc"
    and step: "lf_step hash d s pc = Some (s', pc')" and b: "b \<in> h_addrs pc'"
  shows "derived (heap (lf_list s)) P (h_addrs pc) b \<or> b \<in> set C"
proof (cases pc)
  case (HBucket x i js)
  with ok have i: "i < lf_max_capacity s" by simp
  show ?thesis
  proof (cases "lf_buckets s ! unat i")
    case None
    with HBucket step b show ?thesis by (auto simp: get_bucket_def h_addrs_def split: if_splits)
  next
    case (Some a)
    have "\<not> bit (key (heap (lf_list s) ! a)) 0" "a \<in> P" using table_entry [OF tab i Some] by simp_all
    then have "a \<in> set C" using sentinel_in_chain [OF inv] by blast
    moreover have "b \<in> {a}"
      using HBucket step b Some bucket_found_addrs [of x js a "lf_list s"]
      by (auto simp: get_bucket_def h_addrs_def split: if_splits)
    ultimately show ?thesis by simp
  qed
next
  case (HSentinel x i js p)
  have p: "l_ok hash (heap (lf_list s)) C P (Inr i) p" using ok HSentinel by simp
  show ?thesis
  proof (cases "running p")
    case True
    obtain l p' where l: "l_step hash d (lf_list s) p = (l, p')" by fastforce
    have "pc' = HSentinel x i js p'"
      using step [unfolded HSentinel lf_step_running(1) [OF True l]] by simp
    with l_step_derived [OF p l] b HSentinel show ?thesis by (simp add: h_addrs_def)
  next
    case False
    with p obtain a where a: "p = LRet (RSentinel a)"
      by (cases p) (auto simp: running_def res_ok_def)
    then have "pc' = bucket_found x js a (lf_list s)" using step HSentinel by simp
    with b bucket_found_addrs [of x js a "lf_list s"] have "b = a" by auto
    with a HSentinel show ?thesis by (simp add: h_addrs_def derived_def)
  qed
next
  case (HList x p)
  have p: "l_ok hash (heap (lf_list s)) C P (Inl x) p" using ok HList by simp
  show ?thesis
  proof (cases "running p")
    case True
    obtain l p' where l: "l_step hash d (lf_list s) p = (l, p')" by fastforce
    have "pc' = HList x p'"
      using step [unfolded HList lf_step_running(2) [OF True l]] by simp
    with l_step_derived [OF p l] b HList show ?thesis by (simp add: h_addrs_def)
  next
    case False
    with p obtain r where "p = LRet (RBool r)"
      by (cases p) (auto simp: running_def res_ok_def)
    then have "(s', pc') = list_done s x r" using step HList by simp
    with b show ?thesis by (cases x) (auto simp: list_done_def h_addrs_def split: if_splits)
  qed
qed (use step b in \<open>auto simp: h_addrs_def split: if_splits\<close>)

lemma lf_step_relinks:
  assumes inv: "list_inv hash root (heap (lf_list s)) C P"
    and ok: "h_ok hash (lf_max_capacity s) (heap (lf_list s)) C P pc"
    and ev: "evolves hash (heap (lf_list s)) C P w (heap (lf_list s')) C' P'"
    and step: "lf_step hash d s pc = Some (s', pc')"
  shows "relinks (heap (lf_list s)) C P (set_action pc pc') (heap (lf_list s')) C' P'"
proof (cases "list_pc pc")
  case None
  with step have "lf_list s' = lf_list s" "set_action pc pc' = None"
    by (cases pc; auto)+
  with relinks_none [OF ev inv] show ?thesis by simp
next
  case (Some p)
  then obtain y where p: "l_ok hash (heap (lf_list s)) C P y p"
    using ok by (cases pc) auto
  show ?thesis
  proof (cases "running p")
    case True
    obtain l p' where l: "l_step hash d (lf_list s) p = (l, p')" by fastforce
    have r: "lf_list s' = l" "set_action pc pc' = list_action p p'"
      using step Some lf_step_running [OF True l] by (cases pc; auto)+
    show ?thesis unfolding r
      by (rule l_step_relinks [OF inv p _ ev [unfolded r(1)] l]) (use True in \<open>auto simp: running_def\<close>)
  next
    case False
    with p obtain r where rr: "p = LRet r" by (cases p) (auto simp: running_def)
    have "lf_list s' = lf_list s"
      using step Some rr ok
      by (cases pc; cases r)
        (auto simp: list_done_def publish_bucket_def split: op.splits if_splits)
    moreover have "set_action pc pc' = None"
      using Some rr by (cases pc; cases pc') auto
    ultimately show ?thesis using relinks_none [OF ev inv] by simp
  qed
qed

end
