(* ===== verification/ReclaimedCorrect.thy ===== *)
theory ReclaimedCorrect
  imports ReclaimedInv
begin

text \<open>
  The invariant of the set with its reclaimer, and that every move keeps it.
\<close>

section \<open>The invariant\<close>

text \<open>The published nodes a thread may read: the root, the tail, and what is visible in its guard.\<close>

definition seen :: "'a reclaimed \<Rightarrow> tid \<Rightarrow> addr set" where
  "seen s t = {root, 0} \<union> (\<lambda>n. rc_nodes s ! n) ` visible (rc_epoch s) t"

abbreviation rc_heap :: "'a reclaimed \<Rightarrow> 'a node list" where
  "rc_heap s \<equiv> heap (lf_list (shared (rc_set s)))"

definition reading :: "'a reclaimed \<Rightarrow> addr list \<Rightarrow> addr set \<Rightarrow> tid \<Rightarrow> bool" where
  "reading s C P t \<longleftrightarrow>
     visible (rc_epoch s) t \<subseteq> {..<length (rc_nodes s)} \<and> set C \<subseteq> seen s t \<and>
     (\<forall>a \<in> seen s t. \<forall>b. ref (rc_heap s) a = Some b \<longrightarrow> b \<in> seen s t) \<and>
     h_addrs (pcs (rc_set s) t) \<inter> P \<subseteq> seen s t"

definition guarded :: "'a reclaimed \<Rightarrow> addr list \<Rightarrow> addr set \<Rightarrow> tid \<Rightarrow> bool" where
  "guarded s C P t \<longleftrightarrow>
     (inside (e_pc (rc_epoch s) t) \<longrightarrow> reading s C P t) \<and>
     (\<not> inside (e_pc (rc_epoch s) t) \<and> e_pc (rc_epoch s) t \<noteq> GIdle \<longrightarrow>
        (\<exists>x. pcs (rc_set s) t = HCapacity x)) \<and>
     (pcs (rc_set s) t = HIdle \<longrightarrow> e_pc (rc_epoch s) t = GIdle)"

definition joined :: "'a reclaimed \<Rightarrow> addr list \<Rightarrow> addr set \<Rightarrow> bool" where
  "joined s C P \<longleftrightarrow>
     distinct (rc_nodes s) \<and> length (rc_nodes s) = fresh (rc_epoch s) \<and>
     P = {root, 0} \<union> set (rc_nodes s) \<and> root \<notin> set (rc_nodes s) \<and> 0 \<notin> set (rc_nodes s) \<and>
     {root, 0} \<subseteq> set C \<and>
     linked (rc_epoch s) = {n. n < length (rc_nodes s) \<and> rc_nodes s ! n \<in> set C} \<and>
     \<not> is_elem (rc_heap s ! root) \<and> \<not> is_elem (rc_heap s ! 0)"

definition rc_inv_at :: "('a \<Rightarrow> size_t) \<Rightarrow> addr list \<Rightarrow> addr set \<Rightarrow> 'a reclaimed \<Rightarrow> bool" where
  "rc_inv_at hash C P s \<longleftrightarrow>
     (\<exists>i. lf_sim_at hash C P (rc_set s) i) \<and> joined s C P \<and> (\<forall>t. guarded s C P t)"

definition rc_inv :: "('a \<Rightarrow> size_t) \<Rightarrow> 'a reclaimed \<Rightarrow> bool" where
  "rc_inv hash s \<longleftrightarrow> e_base (rc_epoch s) \<and> (\<exists>C P. rc_inv_at hash C P s)"

lemma node_number_nth: "a \<in> set ns \<Longrightarrow> node_number ns a < length ns \<and> ns ! node_number ns a = a"
proof (induction ns)
  case (Cons b ns)
  then show ?case by (cases "b = a") (auto simp: node_number_def)
qed simp

lemma reading_cong:
  assumes "visible (rc_epoch s') t = visible (rc_epoch s) t" "rc_nodes s' = rc_nodes s"
    and "rc_heap s' = rc_heap s" "h_addrs (pcs (rc_set s') t) \<subseteq> h_addrs (pcs (rc_set s) t)"
  shows "reading s C P t \<Longrightarrow> reading s' C P t"
  using assms by (auto simp: reading_def seen_def)

lemma joined_cong:
  assumes "linked (rc_epoch s') = linked (rc_epoch s)" "fresh (rc_epoch s') = fresh (rc_epoch s)"
    and "rc_nodes s' = rc_nodes s" "rc_heap s' = rc_heap s"
  shows "joined s' C P = joined s C P"
  using assms by (simp add: joined_def)

text \<open>Moves that leave the list and the linked nodes alone.\<close>

lemma rc_inv_quiet:
  assumes inv: "rc_inv_at hash C P s" and sim: "\<exists>i. lf_sim_at hash C P (rc_set s') i"
    and same: "linked (rc_epoch s') = linked (rc_epoch s)" "fresh (rc_epoch s') = fresh (rc_epoch s)"
      "rc_nodes s' = rc_nodes s" "rc_heap s' = rc_heap s"
      "\<And>u. u \<noteq> t \<Longrightarrow> e_pc (rc_epoch s') u = e_pc (rc_epoch s) u \<and>
        visible (rc_epoch s') u = visible (rc_epoch s) u \<and> pcs (rc_set s') u = pcs (rc_set s) u"
    and t: "guarded s' C P t"
  shows "rc_inv_at hash C P s'"
proof -
  have "guarded s' C P u" for u
  proof (cases "u = t")
    case False
    with same(5) have u: "e_pc (rc_epoch s') u = e_pc (rc_epoch s) u"
      "visible (rc_epoch s') u = visible (rc_epoch s) u" "pcs (rc_set s') u = pcs (rc_set s) u" by blast+
    have "guarded s C P u" using inv by (simp add: rc_inv_at_def)
    with u reading_cong [OF u(2) same(3,4)] show ?thesis by (simp add: guarded_def)
  qed (use t in simp)
  with inv sim joined_cong [OF same(1-4)] show ?thesis by (simp add: rc_inv_at_def)
qed

section \<open>Moves in the reclaimer\<close>

lemma guard_frame:
  assumes "e_step t (case e_pc e t of TFence x \<Rightarrow> Fenced b | _ \<Rightarrow> Go) e = Some e'" "e_pc e' t \<noteq> GUndef"
  shows "linked e' = linked e" "fresh e' = fresh e" "e_pc e t \<noteq> GIdle" "e_pc e' t \<noteq> GIdle"
    "u \<noteq> t \<Longrightarrow> e_pc e' u = e_pc e u \<and> visible e' u = visible e u"
    "inside (e_pc e' t) = inside (e_pc e t) \<and> visible e' t = visible e t \<or>
     \<not> inside (e_pc e t) \<and> inside (e_pc e' t) \<and> visible e' t = linked e"
proof -
  have *: "linked e' = linked e \<and> fresh e' = fresh e \<and> e_pc e t \<noteq> GIdle \<and> e_pc e' t \<noteq> GIdle \<and>
    (\<forall>u. u \<noteq> t \<longrightarrow> e_pc e' u = e_pc e u \<and> visible e' u = visible e u) \<and>
    (inside (e_pc e' t) = inside (e_pc e t) \<and> visible e' t = visible e t \<or>
     \<not> inside (e_pc e t) \<and> inside (e_pc e' t) \<and> visible e' t = linked e)"
  proof (cases "e_pc e t")
    case (TScan1 x us)
    with assms show ?thesis by (cases us) (auto split: if_splits)
  next
    case (TScan2 x us)
    with assms show ?thesis by (cases us) (auto split: if_splits)
  qed (use assms in \<open>auto split: if_splits prod.splits\<close>)
  then show "linked e' = linked e" "fresh e' = fresh e" "e_pc e t \<noteq> GIdle" "e_pc e' t \<noteq> GIdle"
    "u \<noteq> t \<Longrightarrow> e_pc e' u = e_pc e u \<and> visible e' u = visible e u"
    "inside (e_pc e' t) = inside (e_pc e t) \<and> visible e' t = visible e t \<or>
     \<not> inside (e_pc e t) \<and> inside (e_pc e' t) \<and> visible e' t = linked e" by blast+
qed

text \<open>A guard that has just been announced sees the chain.\<close>

lemma chain_closed:
  assumes "list_inv hash root h C P" "a \<in> set C" "ref h a = Some b"
  shows "b \<in> set C"
proof -
  obtain us vs where C: "C = us @ a # vs" using assms(2) by (auto simp: in_set_conv_decomp)
  obtain ws where "vs = b # ws" by (rule chain_next [OF list_inv_chain [OF assms(1)] C assms(3)])
  with C show ?thesis by simp
qed

lemma seen_at_start:
  assumes "joined s C P" "set C \<subseteq> P" "visible (rc_epoch s) t = linked (rc_epoch s)"
  shows "seen s t = set C"
proof -
  have l: "linked (rc_epoch s) = {n. n < length (rc_nodes s) \<and> rc_nodes s ! n \<in> set C}"
    and r: "{root, 0} \<subseteq> set C" "P = {root, 0} \<union> set (rc_nodes s)"
    using assms(1) by (simp_all add: joined_def)
  have "seen s t \<subseteq> set C" using r(1) by (auto simp: seen_def assms(3) l)
  moreover have "a \<in> seen s t" if a: "a \<in> set C" for a
  proof (cases "a \<in> set (rc_nodes s)")
    case True
    then obtain n where "n < length (rc_nodes s)" "rc_nodes s ! n = a" by (auto simp: in_set_conv_nth)
    with a have "n \<in> visible (rc_epoch s) t" by (simp add: assms(3) l)
    with \<open>rc_nodes s ! n = a\<close> show ?thesis by (auto simp: seen_def)
  next
    case False
    with a assms(2) r(2) show ?thesis by (auto simp: seen_def)
  qed
  ultimately show ?thesis by blast
qed

lemma rc_guard:
  assumes inv: "rc_inv_at hash C P s" and base: "e_base e'"
    and e': "e_step t (case e_pc (rc_epoch s) t of TFence x \<Rightarrow> Fenced b | _ \<Rightarrow> Go) (rc_epoch s) = Some e'"
  shows "rc_inv_at hash C P (s\<lparr>rc_epoch := e'\<rparr>)"
proof -
  have nu: "e_pc e' t \<noteq> GUndef" using e_baseD(3) [OF base, of t] by (simp add: thread_base_def)
  note fr = guard_frame [OF e' nu]
  let ?s = "s\<lparr>rc_epoch := e'\<rparr>"
  obtain i where at: "lf_sim_at hash C P (rc_set s) i" and j: "joined s C P" and g: "guarded s C P t"
    using inv by (auto simp: rc_inv_at_def)
  have "guarded ?s C P t"
    using fr(6)
  proof
    assume "inside (e_pc e' t) = inside (e_pc (rc_epoch s) t) \<and> visible e' t = visible (rc_epoch s) t"
    with g fr(3,4) reading_cong [of ?s t s C P] show ?thesis by (auto simp: guarded_def)
  next
    assume a: "\<not> inside (e_pc (rc_epoch s) t) \<and> inside (e_pc e' t) \<and> visible e' t = linked (rc_epoch s)"
    with g fr(3) obtain x where pc: "pcs (rc_set s) t = HCapacity x" by (auto simp: guarded_def)
    note sim = lf_sim_atD(1) [OF at]
    have sub: "set C \<subseteq> P" using sim by (simp add: list_inv_def)
    have "joined ?s C P" using joined_cong [of ?s s] fr(1,2) j by simp
    from seen_at_start [OF this sub, of t] a fr(1) have "seen ?s t = set C" by simp
    moreover have "visible e' t \<subseteq> {..<length (rc_nodes s)}" using a j by (auto simp: joined_def)
    ultimately have "reading ?s C P t"
      using chain_closed [OF sim] pc by (auto simp: reading_def h_addrs_def)
    with a pc show ?thesis by (simp add: guarded_def)
  qed
  then show ?thesis
    by (intro rc_inv_quiet [OF inv, of ?s t]) (use at fr in auto)
qed

section \<open>Moves in the set\<close>

lemma nth_appended: "(\<lambda>n. (xs @ ys) ! n) ` {length xs..<length (xs @ ys)} = set ys"
proof (intro equalityI subsetI)
  fix a assume "a \<in> (\<lambda>n. (xs @ ys) ! n) ` {length xs..<length (xs @ ys)}"
  then show "a \<in> set ys" by (auto simp: nth_append)
next
  fix a assume "a \<in> set ys"
  then obtain k where "k < length ys" "ys ! k = a" by (auto simp: in_set_conv_nth)
  then show "a \<in> (\<lambda>n. (xs @ ys) ! n) ` {length xs..<length (xs @ ys)}"
    by (intro image_eqI [of _ _ "length xs + k"]) auto
qed

text \<open>What a thread may read after a change of the chain.\<close>

lemma reading_step:
  assumes rd: "reading s C P u" and links: "relinks (rc_heap s) C P act (rc_heap s') C' P'"
    and P: "P = {root, 0} \<union> set (rc_nodes s)"
    and nodes: "rc_nodes s' = rc_nodes s @ new" "set new = P' - P"
    and vis: "visible (rc_epoch s') u =
      visible (rc_epoch s) u \<union> {length (rc_nodes s)..<length (rc_nodes s')}"
    and C': "set C' \<subseteq> set C \<union> set new"
    and addrs: "\<And>a. a \<in> h_addrs (pcs (rc_set s') u) \<Longrightarrow>
      derived (rc_heap s) P (h_addrs (pcs (rc_set s) u)) a \<or> a \<in> set C"
    and bound: "P' \<subseteq> {..<length (rc_heap s)}"
  shows "reading s' C' P' u"
proof -
  have sub: "visible (rc_epoch s) u \<subseteq> {..<length (rc_nodes s)}" using rd by (simp add: reading_def)
  have old: "rc_nodes s' ! n = rc_nodes s ! n" if "n \<in> visible (rc_epoch s) u" for n
    using that sub nodes(1) by (auto simp: nth_append)
  have "(\<lambda>n. rc_nodes s' ! n) ` {length (rc_nodes s)..<length (rc_nodes s')} = set new"
    unfolding nodes(1) by (rule nth_appended)
  then have seen: "seen s' u = seen s u \<union> set new"
    using old by (auto simp: seen_def vis image_Un)
  have chain: "set C' \<subseteq> seen s' u" using C' rd seen by (auto simp: reading_def)
  have seenP: "seen s u \<subseteq> P" using P sub by (auto simp: seen_def)
  have closed: "b \<in> seen s' u" if a: "a \<in> seen s' u" and b: "ref (rc_heap s') a = Some b" for a b
  proof -
    have "a \<in> P'" using a seenP seen nodes(2) links
      by (auto simp: relinks_def split: option.splits sum.splits)
    with links b have "a \<in> P \<and> ref (rc_heap s) a = Some b \<or> b \<in> set C'"
      by (auto simp: relinks_def)
    then show ?thesis
    proof
      assume r: "a \<in> P \<and> ref (rc_heap s) a = Some b"
      then have "a \<in> seen s u" using a seen nodes(2) by auto
      with r rd have "b \<in> seen s u" by (auto simp: reading_def)
      with seen show ?thesis by simp
    qed (use chain in blast)
  qed
  have held: "a \<in> seen s' u" if a: "a \<in> h_addrs (pcs (rc_set s') u)" "a \<in> P'" for a
  proof (cases "a \<in> P")
    case False
    with a nodes(2) seen show ?thesis by simp
  next
    case True
    have "derived (rc_heap s) P (h_addrs (pcs (rc_set s) u)) a \<or> a \<in> set C" by (rule addrs [OF a(1)])
    moreover have "\<not> length (rc_heap s) \<le> a" using bound a(2) by auto
    ultimately have "a \<in> h_addrs (pcs (rc_set s) u) \<or> a \<in> set C \<or>
        (\<exists>b \<in> h_addrs (pcs (rc_set s) u) \<inter> P. ref (rc_heap s) b = Some a)"
      by (auto simp: derived_def)
    then have "a \<in> seen s u"
      using rd True by (auto simp: reading_def)
    with seen show ?thesis by simp
  qed
  have "visible (rc_epoch s') u \<subseteq> {..<length (rc_nodes s')}" using sub nodes(1) by (auto simp: vis)
  with chain closed held show ?thesis by (auto simp: reading_def)
qed

text \<open>The nodes the reclaimer counts as linked after each kind of change.\<close>

lemma joined_step:
  assumes j: "joined s C P" and sub: "set C \<subseteq> P"
    and links: "relinks (rc_heap s) C P act (rc_heap s') C' P'"
    and elems: "\<And>a. a \<in> P \<Longrightarrow> is_elem (rc_heap s' ! a) = is_elem (rc_heap s ! a)"
    and nodes: "rc_nodes s' = rc_nodes s @ new" "new = (case act of Some (Inl n) \<Rightarrow> [n] | _ \<Rightarrow> [])"
    and fresh: "fresh (rc_epoch s') = length (rc_nodes s')"
    and linked: "linked (rc_epoch s') =
      (case act of None \<Rightarrow> linked (rc_epoch s)
       | Some (Inl n) \<Rightarrow> insert (fresh (rc_epoch s)) (linked (rc_epoch s))
       | Some (Inr a) \<Rightarrow> linked (rc_epoch s) - {node_number (rc_nodes s) a})"
  shows "joined s' C' P'" "set new = P' - P" "set C' \<subseteq> set C \<union> set new"
proof -
  let ?ns = "rc_nodes s"
  have dist: "distinct ?ns" and len: "length ?ns = fresh (rc_epoch s)"
    and P: "P = {root, 0} \<union> set ?ns" and out: "root \<notin> set ?ns" "0 \<notin> set ?ns"
    and ends: "{root, 0} \<subseteq> set C" "\<not> is_elem (rc_heap s ! root)" "\<not> is_elem (rc_heap s ! 0)"
    and lk: "linked (rc_epoch s) = {n. n < length ?ns \<and> ?ns ! n \<in> set C}"
    using j by (simp_all add: joined_def)
  have rest: "\<not> is_elem (rc_heap s' ! root)" "\<not> is_elem (rc_heap s' ! 0)"
    using elems [of root] elems [of 0] P ends(2,3) by simp_all
  have "joined s' C' P' \<and> set new = P' - P \<and> set C' \<subseteq> set C \<union> set new"
  proof (cases act)
    case None
    with links have "C' = C" "P' = P" by (simp_all add: relinks_def)
    with None nodes fresh linked dist len P out ends(1) lk rest show ?thesis by (simp add: joined_def)
  next
    case (Some b)
    show ?thesis
    proof (cases b)
      case (Inl n)
      with Some links have r: "n \<notin> P" "P' = insert n P" "set C' = insert n (set C)"
        by (simp_all add: relinks_def)
      from Some Inl nodes have ns: "rc_nodes s' = ?ns @ [n]" "new = [n]" by simp_all
      have n: "n \<notin> set ?ns" "n \<noteq> root" "n \<noteq> 0" using r(1) P by auto
      have "{k. k < length (rc_nodes s') \<and> rc_nodes s' ! k \<in> set C'} = insert (length ?ns) (linked (rc_epoch s))"
        using n(1) by (auto simp: ns lk r(3) nth_append less_Suc_eq)
      with Some Inl linked len have "linked (rc_epoch s') = {k. k < length (rc_nodes s') \<and> rc_nodes s' ! k \<in> set C'}"
        by simp
      then show ?thesis
        using ns n dist fresh P out ends(1) rest r by (auto simp: joined_def)
    next
      case (Inr a)
      with Some links have r: "P' = P" "a \<in> set C" "is_elem (rc_heap s ! a)" "set C' = set C - {a}"
        by (simp_all add: relinks_def)
      from Some Inr nodes have ns: "rc_nodes s' = ?ns" "new = []" by simp_all
      have a: "a \<noteq> root" "a \<noteq> 0" by (rule notI; use r(3) ends(2,3) in simp)+
      have "a \<in> set ?ns" using r(2) sub P a by auto
      note num = node_number_nth [OF this]
      have "?ns ! k = a \<longleftrightarrow> k = node_number ?ns a" if "k < length ?ns" for k
        using nth_eq_iff_index_eq [OF dist that, of "node_number ?ns a"] num by simp
      then have "{k. k < length ?ns \<and> ?ns ! k \<in> set C'} = linked (rc_epoch s) - {node_number ?ns a}"
        by (auto simp: lk r(4))
      with Some Inr linked have "linked (rc_epoch s') = {k. k < length (rc_nodes s') \<and> rc_nodes s' ! k \<in> set C'}"
        by (simp add: ns)
      then show ?thesis
        using ns a dist fresh P out ends(1) rest r by (auto simp: joined_def)
    qed
  qed
  then show "joined s' C' P'" "set new = P' - P" "set C' \<subseteq> set C \<union> set new" by blast+
qed

text \<open>The reclaimer's part of a step of the set is always possible.\<close>

definition act_on :: "tid \<Rightarrow> (addr + addr) option \<Rightarrow> addr list \<Rightarrow> reclaimer \<Rightarrow> reclaimer option" where
  "act_on t act ns e =
     (case act of None \<Rightarrow> Some e
      | Some (Inl n) \<Rightarrow> e_step t Link e
      | Some (Inr a) \<Rightarrow> e_step t (Unlink (node_number ns a)) e)"

lemma act_on_frame:
  assumes "e_pc e t = GActive" "fresh e = length ns"
    and "\<And>a. act = Some (Inr a) \<Longrightarrow> node_number ns a \<in> linked e"
    and "new = (case act of Some (Inl n) \<Rightarrow> [n] | _ \<Rightarrow> [])"
  obtains e' where "act_on t act ns e = Some e'"
    "fresh e' = length (ns @ new)"
    "linked e' = (case act of None \<Rightarrow> linked e | Some (Inl n) \<Rightarrow> insert (fresh e) (linked e)
       | Some (Inr a) \<Rightarrow> linked e - {node_number ns a})"
    "\<And>u. visible e' u = visible e u \<union> {length ns..<length (ns @ new)}"
    "\<And>u. u \<noteq> t \<Longrightarrow> e_pc e' u = e_pc e u" "inside (e_pc e' t)"
proof (cases act)
  case None
  with assms show thesis by (intro that [of e]) (auto simp: act_on_def)
next
  case (Some b)
  show thesis
  proof (cases b)
    case (Inl n)
    with Some assms show thesis
      by (intro that [of "e\<lparr>linked := insert (fresh e) (linked e),
            visible := (\<lambda>u. insert (fresh e) (visible e u)), fresh := fresh e + 1\<rparr>"])
        (auto simp: act_on_def)
  next
    case (Inr a)
    with Some assms show thesis
      by (intro that [of "jump t (GRetire (node_number ns a)) (e\<lparr>linked := linked e - {node_number ns a}\<rparr>)"])
        (auto simp: act_on_def)
  qed
qed

lemma rc_work:
  assumes inv: "rc_inv_at hash C P s" and act: "e_pc (rc_epoch s) t = GActive"
    and step: "lf_step hash d (shared (rc_set s)) (pcs (rc_set s) t) = Some (sh, pc)"
    and a: "a = set_action (pcs (rc_set s) t) pc"
  obtains C' P' e' where "act_on t a (rc_nodes s) (rc_epoch s) = Some e'"
    "rc_inv_at hash C' P' \<lparr>rc_set = (rc_set s)\<lparr>shared := sh, pcs := (pcs (rc_set s))(t := pc)\<rparr>,
       rc_epoch = e', rc_nodes = rc_nodes s @ (case a of Some (Inl n) \<Rightarrow> [n] | _ \<Rightarrow> [])\<rparr>"
proof -
  obtain i where at: "lf_sim_at hash C P (rc_set s) i" and j: "joined s C P"
    and g: "\<And>u. guarded s C P u"
    using inv by (auto simp: rc_inv_at_def)
  note sim = lf_sim_atD [OF at]
  let ?h' = "heap (lf_list sh)" and ?new = "case a of Some (Inl n) \<Rightarrow> [n] | _ \<Rightarrow> []"
  let ?S = "(rc_set s)\<lparr>shared := sh, pcs := (pcs (rc_set s))(t := pc)\<rparr>"
  from lf_step_goes [OF sim(2,1,6) step] obtain C' P' where
    mv: "h_move hash C P (shared (rc_set s)) (pcs (rc_set s) t) C' P' sh pc"
    and ac: "h_acts hash C (shared (rc_set s)) (pcs (rc_set s) t) C' sh pc"
    by (auto simp: lf_goes_def)
  from mv obtain w where ev: "evolves hash (rc_heap s) C P w ?h' C' P'" by (auto simp: h_move_def Let_def)
  have links: "relinks (rc_heap s) C P a ?h' C' P'"
    unfolding a by (rule lf_step_relinks [OF sim(1,6) ev step])
  obtain i' where at': "lf_sim_at hash C' P' ?S i'" using lf_sim_thread [OF at mv ac] by blast
  have fr: "fresh (rc_epoch s) = length (rc_nodes s)" using j by (simp add: joined_def)
  have num: "node_number (rc_nodes s) b \<in> linked (rc_epoch s)" if "a = Some (Inr b)" for b
  proof -
    have b: "b \<in> set C" "is_elem (rc_heap s ! b)" using links that by (simp_all add: relinks_def)
    then have "b \<in> P" using sim(1) by (auto simp: list_inv_def)
    with b j have "b \<in> set (rc_nodes s)" by (auto simp: joined_def)
    with node_number_nth [OF this] b j show ?thesis by (simp add: joined_def)
  qed
  obtain e' where e': "act_on t a (rc_nodes s) (rc_epoch s) = Some e'"
    "fresh e' = length (rc_nodes s @ ?new)"
    "linked e' = (case a of None \<Rightarrow> linked (rc_epoch s)
       | Some (Inl n) \<Rightarrow> insert (fresh (rc_epoch s)) (linked (rc_epoch s))
       | Some (Inr b) \<Rightarrow> linked (rc_epoch s) - {node_number (rc_nodes s) b})"
    "\<And>u. visible e' u = visible (rc_epoch s) u \<union> {length (rc_nodes s)..<length (rc_nodes s @ ?new)}"
    "\<And>u. u \<noteq> t \<Longrightarrow> e_pc e' u = e_pc (rc_epoch s) u" "inside (e_pc e' t)"
    by (rule act_on_frame [OF act fr num refl]) blast+
  let ?s = "\<lparr>rc_set = ?S, rc_epoch = e', rc_nodes = rc_nodes s @ ?new\<rparr>"
  have el: "is_elem (rc_heap ?s ! b) = is_elem (rc_heap s ! b)" if "b \<in> P" for b
    using evolves_derived(3) [OF ev list_inv_less [OF sim(1) that]] by simp
  have sub: "set C \<subseteq> P" using sim(1) by (simp add: list_inv_def)
  have js: "joined ?s C' P'" "set ?new = P' - P" "set C' \<subseteq> set C \<union> set ?new"
    by (rule joined_step [OF j sub, of a ?s C' P' ?new]; use links el e'(2,3) in simp)+
  have P: "P = {root, 0} \<union> set (rc_nodes s)" using j by (simp add: joined_def)
  have bound: "P' \<subseteq> {..<length (rc_heap s)}" using evolves_bounded [OF ev sim(1)] by blast
  have rd: "reading ?s C' P' u" if "reading s C P u" for u
  proof (rule reading_step [OF that, of a ?s C' P' ?new])
    fix b assume b: "b \<in> h_addrs (pcs (rc_set ?s) u)"
    show "derived (rc_heap s) P (h_addrs (pcs (rc_set s) u)) b \<or> b \<in> set C"
    proof (cases "u = t")
      case True
      with b lf_step_derived [OF sim(1,2,6) step] show ?thesis by simp
    next
      case False
      with b show ?thesis by (simp add: derived_def)
    qed
  qed (use links P js e'(4) bound in simp_all)
  have "guarded ?s C' P' u" for u
  proof (cases "u = t")
    case True
    have "reading s C P t" using g [of t] act by (simp add: guarded_def)
    moreover have "pc \<noteq> HIdle" by (rule lf_step_not_idle [OF step])
    ultimately show ?thesis using True rd e'(6) by (auto simp: guarded_def)
  next
    case False
    with g [of u] rd [of u] e'(5) show ?thesis by (simp add: guarded_def)
  qed
  with at' js(1) have "rc_inv_at hash C' P' ?s" by (auto simp: rc_inv_at_def)
  with e'(1) that show thesis by blast
qed

section \<open>Every move\<close>

lemma joint_some: "joint a b ns = Some s' \<longleftrightarrow>
    (\<exists>x e. a = Some x \<and> b = Some e \<and> s' = \<lparr>rc_set = x, rc_epoch = e, rc_nodes = ns\<rparr>)"
  by (cases a; cases b) (auto simp: joint_def)

lemma rc_work_eq:
  assumes "e_pc (rc_epoch s) t = GActive"
    and "sched_step (lockfree_program hash d) (Tick t) (rc_set s) = Some x"
    and "a = set_action (pcs (rc_set s) t) (pcs x t)"
  shows "rc_step hash d (RWork t) s =
    joint (Some x) (act_on t a (rc_nodes s) (rc_epoch s))
      (rc_nodes s @ (case a of Some (Inl n) \<Rightarrow> [n] | _ \<Rightarrow> []))"
  using assms by (auto simp: act_on_def split: option.split sum.split)

lemma tick_some: "sched_step (lockfree_program hash d) (Tick t) x = Some y \<longleftrightarrow>
    (\<exists>sh pc. lf_step hash d (shared x) (pcs x t) = Some (sh, pc) \<and>
       y = x\<lparr>shared := sh, pcs := (pcs x)(t := pc)\<rparr>)"
  by (auto simp: lockfree_program_def split: option.splits)

lemma rc_work_cases:
  assumes "rc_step hash d (RWork t) s = Some s'"
  obtains x a where "e_pc (rc_epoch s) t = GActive"
    "sched_step (lockfree_program hash d) (Tick t) (rc_set s) = Some x"
    "a = set_action (pcs (rc_set s) t) (pcs x t)"
    "act_on t a (rc_nodes s) (rc_epoch s) = Some (rc_epoch s')" "rc_set s' = x"
    "rc_nodes s' = rc_nodes s @ (case a of Some (Inl n) \<Rightarrow> [n] | _ \<Rightarrow> [])"
proof -
  have act: "e_pc (rc_epoch s) t = GActive" using assms by (auto split: if_splits)
  with assms obtain x where x: "sched_step (lockfree_program hash d) (Tick t) (rc_set s) = Some x"
    by (auto simp del: sched_step.simps split: option.splits)
  from assms [unfolded rc_work_eq [OF act x refl]] show thesis
    by (intro that [OF act x refl]) (auto simp: joint_some)
qed

text \<open>Each move is at most one step of the reclaimer and at most one step of the set.\<close>

lemma rc_step_epoch:
  assumes "rc_step hash d m s = Some s'"
  shows "rc_epoch s' = rc_epoch s \<or>
    (\<exists>t a. e_step t a (rc_epoch s) = Some (rc_epoch s') \<and>
      (on_time m s \<longrightarrow> (\<forall>e. a = Go \<and> e_pc (rc_epoch s) t = GAnnounce e \<longrightarrow> e = e_epoch (rc_epoch s))))"
proof (cases m)
  case (RGuard t b)
  then have "e_step t (case e_pc (rc_epoch s) t of TFence e \<Rightarrow> Fenced b | _ \<Rightarrow> Go) (rc_epoch s) = Some (rc_epoch s')"
    using assms by (auto simp: joint_some)
  moreover have "on_time m s \<longrightarrow> (\<forall>e. e_pc (rc_epoch s) t = GAnnounce e \<longrightarrow> e = e_epoch (rc_epoch s))"
    using RGuard by (auto simp: on_time_def)
  ultimately show ?thesis by blast
next
  case (RWork t)
  from rc_work_cases [OF assms [unfolded RWork]] obtain a where
    "act_on t a (rc_nodes s) (rc_epoch s) = Some (rc_epoch s')" by metis
  then show ?thesis unfolding act_on_def
    by (auto split: option.splits sum.splits simp del: e_step.simps intro!: exI [of _ t])
next
  case (RCall t x)
  with assms have "e_step t Begin (rc_epoch s) = Some (rc_epoch s')" by (auto simp: joint_some simp del: e_step.simps)
  then show ?thesis by blast
next
  case (RReturn t)
  with assms have "e_step t End (rc_epoch s) = Some (rc_epoch s')"
    by (auto simp: joint_some simp del: e_step.simps split: if_splits)
  then show ?thesis by blast
next
  case (RThrow t)
  with assms have "e_step t End (rc_epoch s) = Some (rc_epoch s')"
    by (auto simp: joint_some simp del: e_step.simps split: if_splits)
  then show ?thesis by blast
next
  case (REvict t)
  with assms have "e_step t Evict (rc_epoch s) = Some (rc_epoch s')"
    by (auto simp: joint_some simp del: e_step.simps)
  then show ?thesis by blast
qed

lemma rc_step_base:
  assumes step: "rc_step hash d m s = Some s'" and base: "e_base (rc_epoch s)"
    and E: "unat (e_epoch (rc_epoch s)) < 2 ^ 63 - 1"
  shows "e_base (rc_epoch s')" "unat (e_epoch (rc_epoch s')) \<le> unat (e_epoch (rc_epoch s)) + 1"
    "e_time (rc_epoch s) \<Longrightarrow> on_time m s \<Longrightarrow> e_time (rc_epoch s')"
proof -
  have "e_base (rc_epoch s') \<and> unat (e_epoch (rc_epoch s')) \<le> unat (e_epoch (rc_epoch s)) + 1 \<and>
    (e_time (rc_epoch s) \<longrightarrow> on_time m s \<longrightarrow> e_time (rc_epoch s'))"
    using rc_step_epoch [OF step]
  proof
    assume "\<exists>t a. e_step t a (rc_epoch s) = Some (rc_epoch s') \<and>
      (on_time m s \<longrightarrow> (\<forall>e. a = Go \<and> e_pc (rc_epoch s) t = GAnnounce e \<longrightarrow> e = e_epoch (rc_epoch s)))"
    then obtain t a where st: "e_step t a (rc_epoch s) = Some (rc_epoch s')"
      and tm: "on_time m s \<Longrightarrow> a = Go \<Longrightarrow> e_pc (rc_epoch s) t = GAnnounce e \<Longrightarrow> e = e_epoch (rc_epoch s)" for e
      by blast
    have "e_time (rc_epoch s')" if "e_time (rc_epoch s)" "on_time m s"
      by (rule step_time [OF base that(1) E _ st]) (rule tm [OF that(2)])
    with e_base_step [OF base step_is_base(1) [OF base E st]] step_is_base(2) [OF base E st]
    show ?thesis by blast
  qed (use base in simp)
  then show "e_base (rc_epoch s')" "unat (e_epoch (rc_epoch s')) \<le> unat (e_epoch (rc_epoch s)) + 1"
    "e_time (rc_epoch s) \<Longrightarrow> on_time m s \<Longrightarrow> e_time (rc_epoch s')" by blast+
qed

lemma rc_step_set:
  assumes "rc_step hash d m s = Some s'"
  shows "sys_run (lockfree_program hash d) (rc_set s) (rc_event hash d m s) (rc_set s')"
proof -
  have one: "sys_run (lockfree_program hash d) (rc_set s) (sched_event (lockfree_program hash d) c (rc_set s)) x"
    if "sched_step (lockfree_program hash d) c (rc_set s) = Some x" for c x
    by (rule sched_run_sound [of _ "[c]"]) (simp add: that del: sched_step.simps)
  show ?thesis
  proof (cases m)
    case (RCall t x)
    with assms have "sched_step (lockfree_program hash d) (CallOp t x) (rc_set s) = Some (rc_set s')"
      by (auto simp: joint_some simp del: sched_step.simps)
    from one [OF this] RCall show ?thesis by simp
  next
    case (RReturn t)
    with assms have "sched_step (lockfree_program hash d) (Finish t) (rc_set s) = Some (rc_set s')"
      by (auto simp: joint_some simp del: sched_step.simps split: if_splits)
    from one [OF this] RReturn show ?thesis by simp
  next
    case (RWork t)
    obtain x where "sched_step (lockfree_program hash d) (Tick t) (rc_set s) = Some x" "rc_set s' = x"
      using rc_work_cases [OF assms [unfolded RWork]] by metis
    with one [of "Tick t"] RWork show ?thesis by simp
  qed (use assms in \<open>auto simp: joint_some intro: run_start split: if_splits\<close>)
qed

lemma guarded_idle:
  "e_pc (rc_epoch s) t = GIdle \<Longrightarrow> guarded s C P t"
  by (simp add: guarded_def)

lemma rc_step_inv_at:
  assumes step: "rc_step hash d m s = Some s'" and inv: "rc_inv_at hash C P s"
    and base: "e_base (rc_epoch s')"
  shows "\<exists>C P. rc_inv_at hash C P s'"
proof -
  obtain i where at: "lf_sim_at hash C P (rc_set s) i" and g: "\<And>u. guarded s C P u"
    using inv by (auto simp: rc_inv_at_def)
  show ?thesis
  proof (cases m)
    case (RCall t x)
    with step have pc: "pcs (rc_set s) t = HIdle" "e_pc (rc_epoch s) t = GIdle"
      and s': "s' = \<lparr>rc_set = (rc_set s)\<lparr>pcs := (pcs (rc_set s))(t := HCapacity x)\<rparr>,
        rc_epoch = jump t (if cached (rc_epoch s) t then GLoad else ALookup) (rc_epoch s), rc_nodes = rc_nodes s\<rparr>"
      by (auto simp: joint_some lockfree_program_def split: if_splits)
    have "rc_inv_at hash C P s'"
      by (rule rc_inv_quiet [OF inv, of s' t])
        (use lf_sim_call [OF at pc(1), of x] in \<open>auto simp: s' guarded_def\<close>)
    then show ?thesis by blast
  next
    case (RGuard t b)
    with step obtain e' where e': "e_step t (case e_pc (rc_epoch s) t of TFence e \<Rightarrow> Fenced b | _ \<Rightarrow> Go) (rc_epoch s) = Some e'"
      "s' = s\<lparr>rc_epoch := e'\<rparr>"
      by (auto simp: joint_some simp del: e_step.simps)
    from rc_guard [OF inv _ e'(1)] base show ?thesis by (auto simp: e'(2))
  next
    case (RWork t)
    from rc_work_cases [OF step [unfolded RWork]] obtain x a where x: "e_pc (rc_epoch s) t = GActive"
      "sched_step (lockfree_program hash d) (Tick t) (rc_set s) = Some x"
      "a = set_action (pcs (rc_set s) t) (pcs x t)"
      "act_on t a (rc_nodes s) (rc_epoch s) = Some (rc_epoch s')" "rc_set s' = x"
      "rc_nodes s' = rc_nodes s @ (case a of Some (Inl n) \<Rightarrow> [n] | _ \<Rightarrow> [])" by metis
    from x(2) obtain sh pc where st: "lf_step hash d (shared (rc_set s)) (pcs (rc_set s) t) = Some (sh, pc)"
      and xs: "x = (rc_set s)\<lparr>shared := sh, pcs := (pcs (rc_set s))(t := pc)\<rparr>"
      unfolding tick_some by blast
    have a: "a = set_action (pcs (rc_set s) t) pc" using x(3) by (simp add: xs)
    obtain C' P' e' where "act_on t a (rc_nodes s) (rc_epoch s) = Some e'"
      "rc_inv_at hash C' P' \<lparr>rc_set = x, rc_epoch = e',
        rc_nodes = rc_nodes s @ (case a of Some (Inl n) \<Rightarrow> [n] | _ \<Rightarrow> [])\<rparr>"
      unfolding xs by (rule rc_work [OF inv x(1) st a])
    with x(4-6) show ?thesis by (cases s') auto
  next
    case (RReturn t)
    with step obtain r where pc: "pcs (rc_set s) t = HRet r"
      and s': "s' = \<lparr>rc_set = (rc_set s)\<lparr>pcs := (pcs (rc_set s))(t := HIdle)\<rparr>,
        rc_epoch = jump t GIdle ((rc_epoch s)\<lparr>slot := (slot (rc_epoch s))(t := Leave (slot (rc_epoch s) t))\<rparr>),
        rc_nodes = rc_nodes s\<rparr>"
      by (auto simp: joint_some lockfree_program_def split: if_splits hpc.splits)
    have "rc_inv_at hash C P s'"
      by (rule rc_inv_quiet [OF inv, of s' t])
        (use lf_sim_return [OF at pc] in \<open>auto simp: s' intro: guarded_idle\<close>)
    then show ?thesis by blast
  next
    case (RThrow t)
    with step have s': "s' = s\<lparr>rc_epoch := jump t GIdle
        ((rc_epoch s)\<lparr>slot := (slot (rc_epoch s))(t := Leave (slot (rc_epoch s) t))\<rparr>)\<rparr>"
      by (auto simp: joint_some split: if_splits)
    have "rc_inv_at hash C P s'"
      by (rule rc_inv_quiet [OF inv, of s' t]) (use at in \<open>auto simp: s' intro: guarded_idle\<close>)
    then show ?thesis by blast
  next
    case (REvict t)
    with step have s': "s' = s\<lparr>rc_epoch := (rc_epoch s)\<lparr>cached := (cached (rc_epoch s))(t := False)\<rparr>\<rparr>"
      and idle: "e_pc (rc_epoch s) t = GIdle"
      by (auto simp: joint_some split: if_splits)
    have "rc_inv_at hash C P s'"
      by (rule rc_inv_quiet [OF inv, of s' t]) (use at idle in \<open>auto simp: s' intro: guarded_idle\<close>)
    then show ?thesis by blast
  qed
qed

text \<open>Runs.\<close>

lemma rc_run_inv:
  assumes "rc_run hash d ms s = Some (h, s')" "rc_inv hash s"
    and "unat (e_epoch (rc_epoch s)) + length ms < 2 ^ 63"
  shows "rc_inv hash s' \<and> sys_run (lockfree_program hash d) (rc_set s) h (rc_set s') \<and>
    (e_time (rc_epoch s) \<longrightarrow> rc_timely hash d ms s \<longrightarrow> e_time (rc_epoch s'))"
  using assms
proof (induction ms arbitrary: s h)
  case Nil
  then show ?case by (auto intro: run_start)
next
  case (Cons m ms)
  from Cons.prems(1) obtain s1 h1 where s1: "rc_step hash d m s = Some s1"
    "rc_run hash d ms s1 = Some (h1, s')" "h = rc_event hash d m s @ h1"
    by (auto simp del: rc_step.simps split: option.splits)
  have E: "unat (e_epoch (rc_epoch s)) < 2 ^ 63 - 1" using Cons.prems(3) by simp
  obtain C P where base: "e_base (rc_epoch s)" and at: "rc_inv_at hash C P s"
    using Cons.prems(2) by (auto simp: rc_inv_def)
  note b = rc_step_base [OF s1(1) base E]
  have "rc_inv hash s1" using b(1) rc_step_inv_at [OF s1(1) at b(1)] by (simp add: rc_inv_def)
  moreover have "unat (e_epoch (rc_epoch s1)) + length ms < 2 ^ 63" using b(2) Cons.prems(3) by simp
  ultimately have IH: "rc_inv hash s' \<and> sys_run (lockfree_program hash d) (rc_set s1) h1 (rc_set s') \<and>
    (e_time (rc_epoch s1) \<longrightarrow> rc_timely hash d ms s1 \<longrightarrow> e_time (rc_epoch s'))"
    using Cons.IH [OF s1(2)] by blast
  have "sys_run (lockfree_program hash d) (rc_set s) h (rc_set s')"
    unfolding s1(3) using sys_run_trans [OF rc_step_set [OF s1(1)]] IH by blast
  moreover have "e_time (rc_epoch s) \<longrightarrow> rc_timely hash d (m # ms) s \<longrightarrow> e_time (rc_epoch s')"
    using IH b(3) s1(1) by (simp del: rc_step.simps)
  ultimately show ?case using IH by blast
qed

section \<open>Construction\<close>

lemma constructor_guard_run:
  assumes "construct_reclaimer r = Inr e"
  obtains e' where "e_run (constructor_guard t) e = Some e'" "timely (constructor_guard t) e"
    "e_pc e' = (\<lambda>_. GIdle)" "linked e' = {}" "fresh e' = 0" "e_epoch e' = 0"
proof -
  from assms have e: "e = \<lparr>e_epoch = 0, participants = [], slot = (\<lambda>_. new_participant),
      advancing = False, cached = (\<lambda>_. False), freed = [], linked = {}, visible = (\<lambda>_. {}), fresh = 0,
      e_pc = (\<lambda>_. GIdle)\<rparr>"
    by (simp add: construct_reclaimer_def split: if_splits)
  have "timely (constructor_guard t) e"
    by (simp add: e constructor_guard_def new_participant_def Enter_def Announce_def kInactive_def)
  moreover have "\<exists>e'. e_run (constructor_guard t) e = Some e' \<and> e_pc e' = (\<lambda>_. GIdle) \<and> linked e' = {} \<and>
      fresh e' = 0 \<and> e_epoch e' = 0"
    by (simp add: e constructor_guard_def new_participant_def Enter_def Announce_def Leave_def fun_eq_iff)
  ultimately show thesis using that by blast
qed

lemma construct_reclaimed_inv:
  assumes "construct_reclaimed d t r ic mc = Inr s"
  obtains l where "construct_lockfree d ic mc = Inr l" "rc_set s = sys_init (lockfree_program hash d) l"
    "rc_inv hash s" "e_time (rc_epoch s)" "e_epoch (rc_epoch s) = 0"
proof -
  from assms obtain e l where e: "construct_reclaimer r = Inr e" and l: "construct_lockfree d ic mc = Inr l"
    and s: "s = \<lparr>rc_set = \<lparr>shared = l, pcs = (\<lambda>_. HIdle)\<rparr>,
      rc_epoch = the (e_run (constructor_guard t) e), rc_nodes = []\<rparr>"
    by (auto simp: construct_reclaimed_def split: sum.splits)
  obtain e' where e': "e_run (constructor_guard t) e = Some e'" "timely (constructor_guard t) e"
    "e_pc e' = (\<lambda>_. GIdle)" "linked e' = {}" "fresh e' = 0" "e_epoch e' = 0"
    by (rule constructor_guard_run [OF e])
  note init = construct_reclaimer_inv [OF e]
  have len: "unat (e_epoch e) + length (constructor_guard t) < 2 ^ 63"
    using init(3) by (simp add: constructor_guard_def)
  have ep: "rc_epoch s = e'" using e'(1) by (simp add: s)
  have set: "rc_set s = sys_init (lockfree_program hash d) l"
    by (simp add: s sys_init_def lockfree_program_def)
  have at: "lf_sim_at hash [root, 0] {root, 0} (rc_set s) (i_init {})"
    unfolding set by (rule lf_sim_at_init) (use l in \<open>auto simp: lf_start_def\<close>)
  have hl: "lf_list l = fst (MakeRoot d)" by (rule construct_cases [OF l])
  have ends: "\<not> is_elem (rc_heap s ! root)" "\<not> is_elem (rc_heap s ! 0)"
    by (simp_all add: s hl MakeRoot_def root_def is_elem_def)
  have "joined s [root, 0] {root, 0}"
    using ends e'(4,5) by (simp add: joined_def ep) (simp add: s)
  moreover have "guarded s C P u" for C P u by (rule guarded_idle) (simp add: ep e'(3))
  ultimately have "rc_inv_at hash [root, 0] {root, 0} s" using at by (auto simp: rc_inv_at_def)
  moreover have "e_base (rc_epoch s)" unfolding ep by (rule e_run_base [OF init(1) len e'(1)])
  ultimately have "rc_inv hash s" by (auto simp: rc_inv_def)
  moreover have "e_time (rc_epoch s)" unfolding ep by (rule e_run_time [OF init(1,2) len e'(1,2)])
  ultimately show thesis using that [OF l set] e'(6) by (simp add: ep)
qed

end
