(* ===== verification/ReclaimedProps.thy ===== *)
theory ReclaimedProps
  imports ReclaimedCorrect
begin

text \<open>
  The properties of the lock-free set together with its reclaimer: an address that a thread in an
  operation holds is never that of a freed node, so no node is used after it has been freed and none
  comes back under an address a compare-and-set still expects; and every node is freed exactly once.
\<close>

section \<open>A concrete execution\<close>

text \<open>
  Thread 0 constructs the set. Thread 1 adds 0; thread 2 begins to look for it and is delayed at its
  node; thread 1 removes it and retires the node; thread 2 returns.
\<close>

definition rx_enter :: "tid \<Rightarrow> nat \<Rightarrow> nat move list" where
  "rx_enter t k = replicate k (RGuard t True)"

definition rx_work :: "tid \<Rightarrow> nat \<Rightarrow> nat move list" where
  "rx_work t k = replicate k (RWork t)"

definition rx_add :: "nat move list" where
  "rx_add = RCall 1 (Add 0) # rx_enter 1 6 @ rx_work 1 8 @ [RReturn 1]"

definition rx_look :: "nat move list" where
  "rx_look = RCall 2 (Contains 0) # rx_enter 2 6 @ rx_work 2 3"

definition rx_remove :: "nat move list" where
  "rx_remove = RCall 1 (Remove 0) # rx_enter 1 3 @ rx_work 1 7 @ rx_enter 1 1 @ rx_work 1 2 @ [RReturn 1]"

definition rx_end :: "nat move list" where
  "rx_end = rx_work 2 2 @ [RReturn 2]"

definition rx_start :: "nat reclaimed" where
  "rx_start = (case construct_reclaimed 0 0 True 2 4 of Inr s \<Rightarrow> s)"

lemma rx_construct: "construct_reclaimed 0 0 True 2 4 = Inr rx_start"
proof -
  obtain e where "construct_reclaimer True = Inr e" by (auto simp: construct_reclaimer_def)
  then have "\<exists>s. construct_reclaimed (0 :: nat) 0 True 2 4 = Inr s"
    by (simp add: construct_reclaimed_def ex_construct)
  then show ?thesis by (auto simp: rx_start_def)
qed

lemmas rx_simps = ex_simps construct_reclaimed_def construct_reclaimer_def constructor_guard_def
  Enter_def Announce_def Leave_def Retire_def FreeBag_def new_participant_def joint_def node_number_def
  push_back_def kRetiresPerAdvance_def kBags_def kInactive_def on_time_def ex_construct

lemma rx_replicate:
  "replicate 1 x = [x]" "replicate 2 x = [x, x]" "replicate 3 x = [x, x, x]"
  "replicate 6 x = [x, x, x, x, x, x]" "replicate 7 x = [x, x, x, x, x, x, x]"
  "replicate 8 x = [x, x, x, x, x, x, x, x]"
  by (simp_all add: numeral_eq_Suc)

lemmas rx_moves = rx_add_def rx_look_def rx_remove_def rx_end_def rx_enter_def rx_work_def rx_replicate

lemma rx_run_mid:
  "\<exists>s. rc_run of_nat 0 (rx_add @ rx_look @ rx_remove) rx_start =
      Some ([Call 1 (Add 0), Return 1 True, Call 2 (Contains 0), Call 1 (Remove 0), Return 1 True], s) \<and>
    e_pc (rc_epoch s) 2 = GActive \<and> pcs (rc_set s) 2 = HList (Contains 0) (LLook 0 2) \<and>
    retired (lf_list (shared (rc_set s))) = [2]"
  by (simp add: rx_moves rx_start_def rx_simps)

lemma rx_timely: "rc_timely of_nat 0 (rx_add @ rx_look @ rx_remove) rx_start"
  by (simp add: rx_moves rx_start_def rx_simps)

lemma rx_run_all:
  "\<exists>s. rc_run of_nat 0 (rx_add @ rx_look @ rx_remove @ rx_end) rx_start =
      Some ([Call 1 (Add 0), Return 1 True, Call 2 (Contains 0), Call 1 (Remove 0), Return 1 True,
        Return 2 False], s) \<and>
    pcs (rc_set s) = (\<lambda>_. HIdle) \<and> length (heap (lf_list (shared (rc_set s)))) = 3"
  by (simp add: rx_moves rx_start_def rx_simps)

section \<open>Properties\<close>

lemma freed_seen:
  assumes inv: "rc_inv_at hash C P s" and base: "e_base (rc_epoch s)" and time: "e_time (rc_epoch s)"
    and t: "inside (e_pc (rc_epoch s) t)"
  shows "set (freed_nodes s) \<inter> seen s t = {}" "set (freed_nodes s) \<subseteq> P - set C"
proof -
  have j: "joined s C P" and g: "guarded s C P t" using inv by (simp_all add: rc_inv_at_def)
  have dist: "distinct (rc_nodes s)" and len: "length (rc_nodes s) = fresh (rc_epoch s)"
    and P: "P = {root, 0} \<union> set (rc_nodes s)" "root \<notin> set (rc_nodes s)" "0 \<notin> set (rc_nodes s)"
    and lk: "linked (rc_epoch s) = {n. n < length (rc_nodes s) \<and> rc_nodes s ! n \<in> set C}"
    using j by (simp_all add: joined_def)
  have rd: "visible (rc_epoch s) t \<subseteq> {..<length (rc_nodes s)}"
    using g t by (simp add: guarded_def reading_def)
  have old: "n < length (rc_nodes s) \<and> n \<notin> linked (rc_epoch s)" if "n \<in> set (freed (rc_epoch s))" for n
    using stock_node [OF base, of n undefined] that len by simp
  have hid: "set (freed (rc_epoch s)) \<inter> visible (rc_epoch s) t = {}"
    using e_timeD(2) [OF time, of t] t by (simp add: reader_ok_def)
  show "set (freed_nodes s) \<subseteq> P - set C"
    using old P(1) lk by (auto simp: freed_nodes_def)
  show "set (freed_nodes s) \<inter> seen s t = {}"
  proof (rule ccontr)
    assume "\<not> ?thesis"
    then obtain n where n: "n \<in> set (freed (rc_epoch s))" "rc_nodes s ! n \<in> seen s t"
      by (auto simp: freed_nodes_def)
    have "rc_nodes s ! n \<in> set (rc_nodes s)" using old [OF n(1)] by simp
    with n(2) P obtain m where m: "m \<in> visible (rc_epoch s) t" "rc_nodes s ! n = rc_nodes s ! m"
      by (auto simp: seen_def)
    with old [OF n(1)] rd nth_eq_iff_index_eq [OF dist] have "n = m" by auto
    with n(1) m(1) hid show False by blast
  qed
qed

text \<open>Inside a guard no address in the hands of the thread, or in a bucket, is that of a freed node.\<close>

lemma held_not_freed:
  assumes at: "rc_inv_at hash C P s" and "e_base (rc_epoch s)" "e_time (rc_epoch s)"
    and ins: "inside (e_pc (rc_epoch s) t)"
  shows "h_addrs (pcs (rc_set s) t) \<inter> set (freed_nodes s) = {} \<and>
    (\<forall>a. Some a \<in> set (lf_buckets (shared (rc_set s))) \<longrightarrow> a \<notin> set (freed_nodes s))"
proof -
  obtain i where "lf_sim_at hash C P (rc_set s) i" using at by (auto simp: rc_inv_at_def)
  note lf = lf_sim_atD [OF this] and fs = freed_seen [OF assms]
  have "h_addrs (pcs (rc_set s) t) \<inter> P \<subseteq> seen s t"
    using at ins by (auto simp: rc_inv_at_def guarded_def reading_def)
  with fs have "h_addrs (pcs (rc_set s) t) \<inter> set (freed_nodes s) = {}" by blast
  moreover have "a \<in> set C" if "Some a \<in> set (lf_buckets (shared (rc_set s)))" for a
  proof -
    from that obtain k where k: "k < length (lf_buckets (shared (rc_set s)))"
      "lf_buckets (shared (rc_set s)) ! k = Some a" by (auto simp: in_set_conv_nth)
    then have "a \<in> P" "key (rc_heap s ! a) = MakeSentinelKey (of_nat k)"
      using lf(2) by (auto simp: table_ok_def)
    with sentinel_in_chain [OF lf(1)] show ?thesis by simp
  qed
  ultimately show ?thesis using fs(2) by blast
qed

text \<open>The reclaimer follows every step of the set.\<close>

lemma work_not_refused:
  assumes at: "rc_inv_at hash C P s" and act: "e_pc (rc_epoch s) t = GActive"
    and "lf_step hash d (shared (rc_set s)) (pcs (rc_set s) t) \<noteq> None"
  shows "rc_step hash d (RWork t) s \<noteq> None"
proof -
  from assms(3) obtain sh pc where st: "lf_step hash d (shared (rc_set s)) (pcs (rc_set s) t) = Some (sh, pc)"
    by fast
  let ?x = "(rc_set s)\<lparr>shared := sh, pcs := (pcs (rc_set s))(t := pc)\<rparr>"
  have x: "sched_step (lockfree_program hash d) (Tick t) (rc_set s) = Some ?x"
    unfolding tick_some using st by blast
  obtain e' where "act_on t (set_action (pcs (rc_set s) t) pc) (rc_nodes s) (rc_epoch s) = Some e'"
    by (rule rc_work [OF at act st refl])
  then show ?thesis unfolding rc_work_eq [OF act x refl] by (simp add: joint_def)
qed

text \<open>At rest the nodes the reclaimer has freed or still keeps are those that were in the list and are no longer.\<close>

lemma retired_addresses:
  assumes base: "e_base (rc_epoch s)" and j: "joined s C P" and idle: "\<And>t. e_pc (rc_epoch s) t = GIdle"
  shows "distinct (map (\<lambda>n. rc_nodes s ! n) (freed (rc_epoch s) @ destroy_reclaimer (rc_epoch s))) \<and>
    set (map (\<lambda>n. rc_nodes s ! n) (freed (rc_epoch s) @ destroy_reclaimer (rc_epoch s))) = P - set C"
proof -
  let ?e = "rc_epoch s" and ?ns = "rc_nodes s"
  have book: "distinct (freed ?e @ destroy_reclaimer ?e) \<and>
      set (freed ?e @ destroy_reclaimer ?e) = {..<fresh ?e} - linked ?e"
    by (rule retired_once [OF base]) (simp add: idle)
  have ns: "distinct ?ns" "length ?ns = fresh ?e" "P = {root, 0} \<union> set ?ns" "{root, 0} \<subseteq> set C"
    "linked ?e = {n. n < length ?ns \<and> ?ns ! n \<in> set C}"
    using j by (simp_all add: joined_def)
  let ?old = "map (\<lambda>n. ?ns ! n) (freed ?e @ destroy_reclaimer ?e)"
  have "inj_on (\<lambda>n. ?ns ! n) {..<length ?ns}" using ns(1) by (auto simp: inj_on_def nth_eq_iff_index_eq)
  then have "inj_on (\<lambda>n. ?ns ! n) (set (freed ?e @ destroy_reclaimer ?e))"
    using book ns(2) by (auto intro: inj_on_subset)
  then have dist: "distinct ?old" using book by (simp add: distinct_map del: map_append)
  have "set ?old = (\<lambda>n. ?ns ! n) ` ({..<length ?ns} - linked ?e)"
    using book ns(2) by (simp del: map_append set_append)
  also have "\<dots> = set ?ns - set C" by (auto simp: ns(5) in_set_conv_nth)
  also have "\<dots> = P - set C" using ns(3,4) by auto
  finally show ?thesis using dist by blast
qed

lemma h_touches_held:
  assumes "table_ok s P" "h_ok hash (lf_max_capacity s) h C P pc"
  shows "h_touches s pc \<subseteq> h_addrs pc \<union> {a. Some a \<in> set (lf_buckets s)}"
proof (cases pc)
  case (HBucket x i js)
  with assms have "unat i < length (lf_buckets s)" by (simp add: table_ok_def word_less_nat_alt)
  with HBucket show ?thesis by (auto dest: nth_mem)
qed (use touches_addrs in \<open>force simp: h_addrs_def\<close>)+

text \<open>What holds after a run in which every guard has announced the current epoch.\<close>

lemma timely_inv:
  assumes "construct_reclaimed d t0 r initial_capacity max_capacity = Inr s0"
    and "rc_run hash d ms s0 = Some (h, s)" "length ms < 2 ^ 63" "rc_timely hash d ms s0"
  obtains C P where "e_base (rc_epoch s)" "rc_inv_at hash C P s" "e_time (rc_epoch s)"
proof -
  obtain l where l: "rc_inv hash s0" "e_time (rc_epoch s0)" "e_epoch (rc_epoch s0) = 0"
    by (rule construct_reclaimed_inv [OF assms(1)])
  have "unat (e_epoch (rc_epoch s0)) + length ms < 2 ^ 63" using l(3) assms(3) by simp
  from rc_run_inv [OF assms(2) l(1) this] l(2) assms(4) that show thesis by (auto simp: rc_inv_def)
qed

text \<open>Every history of the set over its reclaimer is one of the set, whatever the guards announce.\<close>

lemma reclaimed_history:
  assumes "construct_reclaimed d t0 r initial_capacity max_capacity = Inr s0"
    and "rc_run hash d ms s0 = Some (h, s)"
  obtains l where "construct_lockfree d initial_capacity max_capacity = Inr l"
    "sys_run (lockfree_program hash d) (sys_init (lockfree_program hash d) l) h (rc_set s)"
proof -
  obtain l where l: "construct_lockfree d initial_capacity max_capacity = Inr l"
    "rc_set s0 = sys_init (lockfree_program hash d) l" by (rule construct_reclaimed_inv [OF assms(1)])
  have "sys_run (lockfree_program hash d) (rc_set s0) h (rc_set s)"
    using assms(2)
  proof (induction ms arbitrary: s0 h)
    case Nil
    then show ?case by (auto intro: run_start)
  next
    case (Cons m ms)
    from Cons.prems obtain s1 h1 where s1: "rc_step hash d m s0 = Some s1" "rc_run hash d ms s1 = Some (h1, s)"
      "h = rc_event hash d m s0 @ h1"
      by (auto simp del: rc_step.simps rc_event.simps split: option.splits)
    from sys_run_trans [OF rc_step_set [OF s1(1)] Cons.IH [OF s1(2)]] show ?case unfolding s1(3) .
  qed
  with l that show thesis by simp
qed

text \<open>
  C2 (safety): the set and its reclaimer are safe together. While every guard announces the current
  epoch: histories are linearizable; no address that a thread inside a guard holds, to read, to write
  or to compare, is that of a freed node, nor is any entry of the bucket table, so no freed node is
  used and none can come back under an address that is still expected; and whatever the list unlinks
  the reclaimer accepts, so a step of the set is never refused.
\<close>

theorem reclaimed_safe:
  assumes "construct_reclaimed d t0 r initial_capacity max_capacity = Inr s0"
    and "rc_run hash d ms s0 = Some (h, s)" "length ms < 2 ^ 63" "rc_timely hash d ms s0"
  shows "(\<exists>b. atomic_run (a_init {}) h b) \<and>
    (inside (e_pc (rc_epoch s) t) \<longrightarrow> h_addrs (pcs (rc_set s) t) \<inter> set (freed_nodes s) = {} \<and>
       (\<forall>a. Some a \<in> set (lf_buckets (shared (rc_set s))) \<longrightarrow> a \<notin> set (freed_nodes s))) \<and>
    (e_pc (rc_epoch s) t = GActive \<longrightarrow>
       lf_step hash d (shared (rc_set s)) (pcs (rc_set s) t) \<noteq> None \<longrightarrow>
       rc_step hash d (RWork t) s \<noteq> None)"
proof -
  from timely_inv [OF assms] obtain C P where base: "e_base (rc_epoch s)" and at: "rc_inv_at hash C P s"
    and time: "e_time (rc_epoch s)" .
  obtain l where l: "construct_lockfree d initial_capacity max_capacity = Inr l"
    "sys_run (lockfree_program hash d) (sys_init (lockfree_program hash d) l) h (rc_set s)"
    by (rule reclaimed_history [OF assms(1,2)])
  moreover have "linearizable (lockfree_program hash d) l {}"
    by (rule lf.sim_linearizable) (use l(1) in \<open>auto simp: lf_start_def\<close>)
  ultimately have "\<exists>b. atomic_run (a_init {}) h b" unfolding linearizable_def by blast
  with held_not_freed [OF at base time, of t] work_not_refused [OF at, of t d] show ?thesis by blast
qed

theorem reclaimed_safe_witness:
  "\<exists>s. h_addrs (pcs (rc_set (s :: nat reclaimed)) 2) = {2} \<and> 2 \<notin> set (freed_nodes s) \<and>
    retired (lf_list (shared (rc_set s))) = [2]"
proof -
  obtain h s where s: "rc_run of_nat 0 (rx_add @ rx_look @ rx_remove) rx_start = Some (h, s)"
    "e_pc (rc_epoch s) 2 = GActive" "pcs (rc_set s) 2 = HList (Contains 0) (LLook 0 2)"
    "retired (lf_list (shared (rc_set s))) = [2]"
    using rx_run_mid by blast
  have "length (rx_add @ rx_look @ rx_remove) < 2 ^ 63" by (simp add: rx_moves)
  from reclaimed_safe [OF rx_construct s(1) this rx_timely, of 2] s(2,3)
  have "2 \<notin> set (freed_nodes s)" by (simp add: h_addrs_def)
  moreover have "h_addrs (pcs (rc_set s) 2) = {2}" by (simp add: s(3) h_addrs_def)
  ultimately show ?thesis using s(4) by blast
qed

text \<open>
  C4 (safety): the set over its reclaimer has no undefined behaviour. While every guard announces the
  current epoch: no null or invalid node is dereferenced and no assertion fails, in the set (a sentinel
  out of order, a bucket index out of range, the parent of bucket 0) or in the reclaimer; and every node
  that the next step of a thread inside its guard reads, writes, links or retires is allocated, has not
  been deleted on the spot and has not been freed by the reclaimer.
\<close>

theorem reclaimed_memory_safe:
  assumes "construct_reclaimed d t0 r initial_capacity max_capacity = Inr s0"
    and "rc_run hash d ms s0 = Some (h, s)" "length ms < 2 ^ 63" "rc_timely hash d ms s0"
  shows "pcs (rc_set s) t \<noteq> HUndef \<and> list_pc (pcs (rc_set s) t) \<noteq> Some LUndef \<and> e_pc (rc_epoch s) t \<noteq> GUndef \<and>
    (inside (e_pc (rc_epoch s) t) \<longrightarrow>
       h_touches (shared (rc_set s)) (pcs (rc_set s) t) \<subseteq>
         {..<length (heap (lf_list (shared (rc_set s))))} -
           (set (deleted (lf_list (shared (rc_set s)))) \<union> set (freed_nodes s)))"
proof -
  let ?l = "lf_list (shared (rc_set s))"
  from timely_inv [OF assms] obtain C P where base: "e_base (rc_epoch s)" and at: "rc_inv_at hash C P s"
    and time: "e_time (rc_epoch s)" .
  obtain i where "lf_sim_at hash C P (rc_set s) i" using at by (auto simp: rc_inv_at_def)
  note sim = lf_sim_atD [OF this] and touch = h_touches_ok [OF sim(1,2,6)]
  have "P \<union> h_owned (pcs (rc_set s) t) \<subseteq> {..<length (heap ?l)} - set (deleted ?l)"
    using list_inv_less [OF sim(1)] sim(4) balanced_held(1,2) [OF sim(4)] by (auto simp: balanced_def)
  moreover have "h_touches (shared (rc_set s)) (pcs (rc_set s) t) \<inter> set (freed_nodes s) = {}"
    if "inside (e_pc (rc_epoch s) t)"
    using held_not_freed [OF at base time that] h_touches_held [OF sim(2,6)] by blast
  moreover have "e_pc (rc_epoch s) t \<noteq> GUndef" using e_baseD(3) [OF base] by (simp add: thread_base_def)
  ultimately show ?thesis using touch by blast
qed

text \<open>Thread 2 at the node that thread 1 has removed and retired.\<close>

theorem reclaimed_memory_safe_witness:
  "\<exists>s. retired (lf_list (shared (rc_set (s :: nat reclaimed)))) = [2] \<and>
    h_touches (shared (rc_set s)) (pcs (rc_set s) 2) = {2} \<and>
    2 < length (heap (lf_list (shared (rc_set s)))) \<and> 2 \<notin> set (freed_nodes s)"
proof -
  obtain h s where s: "rc_run of_nat 0 (rx_add @ rx_look @ rx_remove) rx_start = Some (h, s)"
    "e_pc (rc_epoch s) 2 = GActive" "pcs (rc_set s) 2 = HList (Contains 0) (LLook 0 2)"
    "retired (lf_list (shared (rc_set s))) = [2]"
    using rx_run_mid by blast
  have "length (rx_add @ rx_look @ rx_remove) < 2 ^ 63" by (simp add: rx_moves)
  from reclaimed_memory_safe [OF rx_construct s(1) this rx_timely, of 2] s(2-4) show ?thesis by auto
qed

text \<open>
  C7 (safety): with its reclaimer the set frees every node it has ever allocated exactly once. When
  no operation is running, the nodes deleted on the spot, those the reclaimer has freed and those the
  two destructors free are all the nodes, each once, whatever the guards have announced.
\<close>

theorem reclaimed_frees_once:
  assumes "construct_reclaimed d t0 r initial_capacity max_capacity = Inr s0"
    and "rc_run hash d ms s0 = Some (h, s)" "length ms < 2 ^ 63"
    and "\<And>t. pcs (rc_set s) t = HIdle"
  shows "\<exists>as. destroy_reclaimed (length (heap (lf_list (shared (rc_set s))))) s = Some as \<and>
    distinct (deleted (lf_list (shared (rc_set s))) @ freed_nodes s @ as) \<and>
    set (deleted (lf_list (shared (rc_set s))) @ freed_nodes s @ as) =
      {..<length (heap (lf_list (shared (rc_set s))))}"
proof -
  let ?del = "deleted (lf_list (shared (rc_set s)))" and ?e = "rc_epoch s" and ?ns = "rc_nodes s"
  obtain l where l: "rc_inv hash s0" "e_epoch (rc_epoch s0) = 0"
    by (rule construct_reclaimed_inv [OF assms(1)])
  have "unat (e_epoch (rc_epoch s0)) + length ms < 2 ^ 63" using l(2) assms(3) by simp
  from rc_run_inv [OF assms(2) l(1) this] obtain C P where base: "e_base ?e" and at: "rc_inv_at hash C P s"
    by (auto simp: rc_inv_def)
  obtain i where sim: "lf_sim_at hash C P (rc_set s) i" and j: "joined s C P"
    and g: "\<And>t. guarded s C P t"
    using at by (auto simp: rc_inv_at_def)
  note lf = lf_sim_atD [OF sim]
  have idle: "e_pc ?e t = GIdle" for t using g [of t] assms(4) by (simp add: guarded_def)
  have del: "distinct ?del \<and> set ?del = {..<length (rc_heap s)} - P"
    by (rule balanced_closed [OF lf(4)]) (simp add: assms(4) h_owned_def)
  let ?old = "map (\<lambda>n. ?ns ! n) (freed ?e @ destroy_reclaimer ?e)"
  have old: "distinct ?old" "set ?old = P - set C" using retired_addresses [OF base j idle] by simp_all
  have C: "distinct C" "set C \<subseteq> P" "P \<subseteq> {..<length (rc_heap s)}"
    using list_inv_distinct [OF lf(1)] lf(1) list_inv_less [OF lf(1)] by (auto simp: list_inv_def)
  have "destroy_reclaimed (length (rc_heap s)) s = Some (C @ map (\<lambda>n. ?ns ! n) (destroy_reclaimer ?e))"
    using destroys_chain [OF lf(1,2)] by (simp add: destroy_reclaimed_def)
  moreover have "mset (?del @ freed_nodes s @ C @ map (\<lambda>n. ?ns ! n) (destroy_reclaimer ?e)) =
      mset (?del @ ?old @ C)"
    by (simp add: freed_nodes_def)
  moreover have "distinct (?del @ ?old @ C)" "set (?del @ ?old @ C) = {..<length (rc_heap s)}"
    using del old C unfolding distinct_append set_append by blast+
  ultimately show ?thesis by (metis mset_eq_imp_distinct_iff mset_eq_setD)
qed

theorem reclaimed_frees_once_witness:
  "\<exists>s as. destroy_reclaimed 3 (s :: nat reclaimed) = Some as \<and>
    set (deleted (lf_list (shared (rc_set s))) @ freed_nodes s @ as) = {..<3}"
proof -
  obtain h s where s: "rc_run of_nat 0 (rx_add @ rx_look @ rx_remove @ rx_end) rx_start = Some (h, s)"
    "pcs (rc_set s) = (\<lambda>_. HIdle)" "length (heap (lf_list (shared (rc_set s)))) = 3"
    using rx_run_all by blast
  have "length (rx_add @ rx_look @ rx_remove @ rx_end) < 2 ^ 63" by (simp add: rx_moves)
  from reclaimed_frees_once [OF rx_construct s(1) this] s(2,3) show ?thesis by auto
qed

end
