(* ===== verification/ListProgress.thy ===== *)
theory ListProgress
  imports ListChanges
begin

text \<open>
  Progress in the list. A search moves forward along the references, through nodes that may have
  left the chain, and starts again only when a compare-and-set has failed, that is when another
  thread has changed the reference since it was read. So between two changes of the published nodes
  each thread makes finitely many steps, and every change is an insertion or a marking, of which an
  operation makes at most one, or the unlinking of a marked node of the chain.
\<close>

section \<open>Distances\<close>

text \<open>A number for each node that falls along the references of the published nodes.\<close>

definition descends :: "(addr \<Rightarrow> nat) \<Rightarrow> 'a node list \<Rightarrow> addr set \<Rightarrow> bool" where
  "descends \<rho> h P \<longleftrightarrow> (\<forall>a \<in> P. \<forall>b. ref h a = Some b \<longrightarrow> \<rho> b < \<rho> a)"

lemma descendsD: "descends \<rho> h P \<Longrightarrow> a \<in> P \<Longrightarrow> ref h a = Some b \<Longrightarrow> \<rho> b < \<rho> a"
  by (auto simp: descends_def)

lemma descends_cong:
  "descends \<rho> h P \<Longrightarrow> (\<And>a. a \<in> P \<Longrightarrow> nxt (h' ! a) = nxt (h ! a)) \<Longrightarrow> descends \<rho> h' P"
  by (simp add: descends_def)

lemma evolves_descends:
  assumes "evolves hash h C P w h' C' P'" "list_inv hash root h C P" "descends \<rho> h P"
  shows "\<exists>\<rho>'. descends \<rho>' h' P'"
  using assms
proof (induction rule: evolves.induct)
  case (ev_alloc h C P n)
  then show ?case
    by (intro exI [of _ \<rho>], elim descends_cong) (simp add: nth_append list_inv_less [OF ev_alloc.prems(1)])
next
  case (ev_private a P h C r)
  then have "nxt (set_next h a r ! b) = nxt (h ! b)" if "b \<in> P" for b
    using that by (cases "b = a") auto
  with descends_cong [OF ev_private.prems(2)] show ?case by blast
next
  case (ev_link C us p c vs h n P)
  have mem: "p \<in> P" "c \<in> P" using ev_link.prems(1) ev_link.hyps(1) by (auto simp: list_inv_def)
  have pc: "\<rho> c < \<rho> p" using descendsD [OF ev_link.prems(2) mem(1), of c] ev_link.hyps(2) by simp
  have np: "n \<noteq> p" "n \<noteq> c" using mem ev_link.hyps(3) by auto
  have out: "b \<noteq> n" if "a \<in> P" "ref h a = Some b" for a b
    using ref_published [OF ev_link.prems(1) that] ev_link.hyps(3) by blast
  let ?\<rho> = "\<lambda>a. if a = n then 2 * \<rho> c + 1 else 2 * \<rho> a"
  have "descends ?\<rho> (set_next h p (Some n, False)) (insert n P)"
    unfolding descends_def
  proof (intro ballI allI impI)
    fix a b assume a: "a \<in> insert n P" and b: "ref (set_next h p (Some n, False)) a = Some b"
    have len: "p < length h" by (rule list_inv_less [OF ev_link.prems(1) mem(1)])
    consider "a = n" | "a = p" "a \<noteq> n" | "a \<in> P" "a \<noteq> p" "a \<noteq> n" using a by blast
    then show "?\<rho> b < ?\<rho> a"
    proof cases
      case 1
      with b np ev_link.hyps(5) len have "b = c" by (simp add: nxt_set_next)
      with 1 np show ?thesis by simp
    next
      case 2
      with b len have "b = n" by (simp add: nxt_set_next)
      with 2 pc show ?thesis by simp
    next
      case 3
      then have r: "ref h a = Some b" using b len by (simp add: nxt_set_next)
      from 3 descendsD [OF ev_link.prems(2) 3(1) r] out [OF 3(1) r] show ?thesis by simp
    qed
  qed
  then show ?case by blast
next
  case (ev_mark a C h r P)
  have "a < length h" using list_inv_less [OF ev_mark.prems(1) list_inv_subset [OF ev_mark.prems(1)]] ev_mark.hyps(1) by blast
  then have "ref (set_next h a (r, True)) b = ref h b" for b using ev_mark.hyps(2) by (simp add: nxt_set_next)
  with ev_mark.prems(2) show ?case by (auto simp: descends_def)
next
  case (ev_unlink C us p c d vs h P)
  have mem: "p \<in> P" "c \<in> P" using ev_unlink.prems(1) ev_unlink.hyps(1) by (auto simp: list_inv_def)
  have len: "p < length h" by (rule list_inv_less [OF ev_unlink.prems(1) mem(1)])
  have "\<rho> d < \<rho> c" "\<rho> c < \<rho> p"
    using descendsD [OF ev_unlink.prems(2) mem(1)] descendsD [OF ev_unlink.prems(2) mem(2)]
      ev_unlink.hyps by simp_all
  with ev_unlink.prems(2) len show ?case
    by (intro exI [of _ \<rho>]) (auto simp: descends_def nxt_set_next)
qed auto

text \<open>The marked nodes of the chain; unlinking one is the only change that a thread can repeat.\<close>

definition dead :: "'a node list \<Rightarrow> addr list \<Rightarrow> addr set" where
  "dead h C = {a \<in> set C. marked h a}"

lemma unlink_dead:
  assumes ev: "evolves hash h C P w (set_next h p (r, False)) C' P'" and inv: "list_inv hash root h C P"
    and p: "p \<in> P" "nxt (h ! p) = (Some a, False)" and a: "nxt (h ! a) = (r, True)"
  shows "card (dead (set_next h p (r, False)) C') < card (dead h C)"
proof -
  have len: "p < length h" by (rule list_inv_less [OF inv p(1)])
  from evolves_unlink_at [OF ev inv p a] obtain us b vs where
    C: "C = us @ p # a # b # vs" "C' = us @ p # b # vs" by blast
  with list_inv_distinct [OF inv] have "a \<notin> set C'" "a \<noteq> p" by auto
  then have "a \<in> dead h C - dead (set_next h p (r, False)) C'" using C(1) a by (simp add: dead_def)
  moreover have "dead (set_next h p (r, False)) C' \<subseteq> dead h C"
    unfolding dead_def using C p(2) len by (auto simp: nxt_set_next)
  ultimately have "dead (set_next h p (r, False)) C' \<subset> dead h C" by blast
  then show ?thesis by (intro psubset_card_mono) (simp add: dead_def)
qed

section \<open>Ranks\<close>

text \<open>
  \<open>l_budget\<close> bounds the steps of an operation that do not search. \<open>l_rank\<close> counts down the search: the
  distance of the current node, and a penalty while the reference that the next compare-and-set
  expects is no longer there, worth a whole search from the head.
\<close>

fun l_budget :: "'a lpc \<Rightarrow> nat" where
  "l_budget (LDetach p a r) = 2"
| "l_budget (LDispose a) = 1"
| "l_budget (LRet r) = 0"
| "l_budget LUndef = 0"
| "l_budget pc = 3"

definition penalty :: "(addr \<Rightarrow> nat) \<Rightarrow> 'a call \<Rightarrow> bool \<Rightarrow> nat" where
  "penalty \<rho> c still = (if still then 0 else 5 * \<rho> (c_head c) + 6)"

fun l_rank :: "(addr \<Rightarrow> nat) \<Rightarrow> 'a node list \<Rightarrow> 'a lpc \<Rightarrow> nat" where
  "l_rank \<rho> h (LFind c) = 5 * \<rho> (c_head c) + 5"
| "l_rank \<rho> h (LScan c p a) = penalty \<rho> c (nxt (h ! p) = (Some a, False)) + 5 * \<rho> a + 4"
| "l_rank \<rho> h (LUnlink c p a r) = penalty \<rho> c (nxt (h ! p) = (Some a, False)) + 5 * \<rho> a + 3"
| "l_rank \<rho> h (LRetire c p a r) = penalty \<rho> c (nxt (h ! p) = (r, False)) + 5 * \<rho> a + 4"
| "l_rank \<rho> h (LInsert c p a n) = penalty \<rho> c (nxt (h ! p) = (Some a, False)) + 5 * \<rho> a"
| "l_rank \<rho> h (LSucc c p a) = penalty \<rho> c (\<not> marked h a) + 5 * \<rho> a + 3"
| "l_rank \<rho> h (LMark c p a r) = penalty \<rho> c (nxt (h ! a) = (r, False)) + 5 * \<rho> a + 2"
| "l_rank \<rho> h (LLook e a) = \<rho> a"
| "l_rank \<rho> h pc = 0"

lemma l_rank_cong:
  assumes "l_ok hash h C P x pc" "\<And>a. a \<in> P \<Longrightarrow> nxt (h' ! a) = nxt (h ! a)"
  shows "l_rank \<rho> h' pc = l_rank \<rho> h pc"
  using assms by (cases pc) (auto simp: pred_ok_def cur_ok_def)

definition l_lowers ::
    "(addr \<Rightarrow> nat) \<Rightarrow> 'a node list \<Rightarrow> addr list \<Rightarrow> addr set \<Rightarrow> 'a lpc \<Rightarrow>
     'a node list \<Rightarrow> addr list \<Rightarrow> 'a lpc \<Rightarrow> bool" where
  "l_lowers \<rho> h C P pc h' C' pc' \<longleftrightarrow>
     l_budget pc' < l_budget pc \<or>
     l_budget pc' = l_budget pc \<and>
     (card (dead h' C') < card (dead h C) \<or>
      (\<forall>a \<in> P. nxt (h' ! a) = nxt (h ! a)) \<and> l_rank \<rho> h' pc' < l_rank \<rho> h pc)"

lemma l_lowers_search:
  "l_budget pc' = l_budget pc \<Longrightarrow> (\<And>a. a \<in> P \<Longrightarrow> nxt (h' ! a) = nxt (h ! a)) \<Longrightarrow>
   l_rank \<rho> h' pc' < l_rank \<rho> h pc \<Longrightarrow> l_lowers \<rho> h C P pc h' C' pc'"
  by (simp add: l_lowers_def)

lemma found_lowers:
  assumes inv: "list_inv hash root (heap s) C P" and ok: "l_ok hash (heap s) C P x (LScan c p a)"
    and a: "\<not> marked (heap s) a"
    and f: "found hash d c p a s = (s', pc')"
  shows "l_lowers \<rho> (heap s) C P (LScan c p a) (heap s') C' pc'"
proof (cases "Matches (heap s ! a) (lop_key hash (c_op c)) (lop_elem (c_op c))")
  case True
  with f a show ?thesis
    by (cases "c_op c") (auto simp: found_def l_lowers_def penalty_def)
next
  case False
  show ?thesis
  proof (cases "\<exists>e. c_op c = LRemove e")
    case True
    with f False show ?thesis by (auto simp: found_def l_lowers_def)
  next
    case ins: False
    obtain n s1 where pr: "prepare_node hash d c a s = (n, s1)" by fastforce
    have res: "s' = s1" "pc' = LInsert (c\<lparr>c_node := Some n\<rparr>) p a n"
      using f False ins pr by (cases "c_op c"; simp add: found_def)+
    have keep: "nxt (heap s1 ! b) = nxt (heap s ! b)" if "b \<in> P" for b
      using ok by (intro prepare_keeps [OF inv _ pr that]) simp
    have "p \<in> P" using ok by (simp add: pred_ok_def)
    with keep [OF this] show ?thesis
      by (intro l_lowers_search) (auto simp: res keep penalty_def)
  qed
qed

lemma l_step_lowers:
  assumes inv: "list_inv hash root (heap s) C P" and desc: "descends \<rho> (heap s) P"
    and ok: "l_ok hash (heap s) C P x pc" and run: "\<And>r. pc \<noteq> LRet r"
    and ev: "evolves hash (heap s) C P w (heap s') C' P'"
    and step: "l_step hash d s pc = (s', pc')"
  shows "l_lowers \<rho> (heap s) C P pc (heap s') C' pc'"
proof (cases pc)
  case (LFind c)
  then have call: "call_ok hash (heap s) P c" using ok by simp
  note head = call_head [OF inv call]
  obtain b where b: "ref (heap s) (c_head c) = Some b" "b \<in> P"
    using ref_not_null [OF inv head(3) lop_target head(4)] by blast
  from descendsD [OF desc head(3) b(1)] head(2) b list_inv_less [OF inv head(3)] step show ?thesis
    unfolding LFind
    by (intro l_lowers_search) (auto simp: goto_def penalty_def prod_eq_iff)
next
  case (LScan c p a)
  have P: "a \<in> P" and len: "a < length (heap s)"
    using ok list_inv_less [OF inv] LScan by (auto simp: cur_ok_def)
  obtain r m where n: "nxt (heap s ! a) = (r, m)" by fastforce
  consider "m" | "\<not> m" "AtOrPast (heap s ! a) (lop_key hash (c_op c)) (lop_elem (c_op c))"
    | "\<not> m" "\<not> AtOrPast (heap s ! a) (lop_key hash (c_op c)) (lop_elem (c_op c))" by blast
  then show ?thesis
  proof cases
    case 1
    with step len n show ?thesis unfolding LScan by (intro l_lowers_search) auto
  next
    case 2
    with step len n LScan have "found hash d c p a s = (s', pc')" by simp
    with found_lowers [OF inv ok [unfolded LScan]] 2 n show ?thesis unfolding LScan by simp
  next
    case 3
    obtain b where b: "ref (heap s) a = Some b" using ref_not_null [OF inv P lop_target 3(2)] by blast
    with descendsD [OF desc P b] 3 step len n show ?thesis
      unfolding LScan by (intro l_lowers_search) (auto simp: goto_def penalty_def)
  qed
next
  case (LUnlink c p a r)
  have P: "p \<in> P" "a \<in> P" and a: "nxt (heap s ! a) = (r, True)" using ok LUnlink by (auto simp: pred_ok_def)
  have len: "p < length (heap s)" by (rule list_inv_less [OF inv P(1)])
  show ?thesis
  proof (cases "nxt (heap s ! p) = (Some a, False)")
    case True
    with step len LUnlink have h': "heap s' = set_next (heap s) p (r, False)" "pc' = LRetire c p a r"
      by (auto simp: cas_next_def mref_cas_def)
    from unlink_dead [OF ev [unfolded h'(1)] inv P(1) True a] show ?thesis
      by (simp add: l_lowers_def LUnlink h')
  next
    case False
    with step len LUnlink have "s' = s" "pc' = LFind c"
      by (auto simp: cas_next_def mref_cas_def retry_def)
    with False LUnlink show ?thesis by (intro l_lowers_search) (auto simp: penalty_def)
  qed
next
  case (LRetire c p a r)
  then obtain b where b: "r = Some b" using ok by auto
  have "\<rho> b < \<rho> a" using descendsD [OF desc, of a b] ok LRetire b by auto
  with b step show ?thesis unfolding LRetire by (intro l_lowers_search) (auto simp: goto_def)
next
  case (LInsert c p a n)
  have P: "p \<in> P" using ok LInsert by (auto simp: pred_ok_def)
  with list_inv_less [OF inv P] step LInsert show ?thesis
    by (cases "nxt (heap s ! p) = (Some a, False)")
      (auto simp: l_lowers_def cas_next_def mref_cas_def retry_def penalty_def)
next
  case (LSucc c p a)
  have P: "a \<in> P" using ok LSucc by auto
  with list_inv_less [OF inv P] step show ?thesis
    unfolding LSucc by (intro l_lowers_search) (auto simp: penalty_def prod_eq_iff)
next
  case (LMark c p a r)
  have P: "a \<in> P" using ok LMark by auto
  with list_inv_less [OF inv P] step LMark show ?thesis
    by (cases "nxt (heap s ! a) = (r, False)")
      (auto simp: l_lowers_def mref_attempt_mark_def mref_cas_def retry_def penalty_def)
next
  case (LDetach p a r)
  have P: "p \<in> P" using ok LDetach by auto
  with list_inv_less [OF inv P] step LDetach show ?thesis
    by (auto simp: l_lowers_def split: if_splits prod.splits)
next
  case (LLook e a)
  have P: "a \<in> P" and len: "a < length (heap s)" using ok LLook list_inv_less [OF inv] by auto
  show ?thesis
  proof (cases "AtOrPast (heap s ! a) (MakeOrdinaryKey hash e) (Some e)")
    case True
    with step len LLook show ?thesis by (auto simp: l_lowers_def Let_def)
  next
    case False
    obtain b where b: "ref (heap s) a = Some b" using ref_not_null [OF inv P op_target False] by blast
    with descendsD [OF desc P b] False step len show ?thesis
      unfolding LLook by (intro l_lowers_search) (auto simp: goto_def Let_def)
  qed
qed (use ok run step in \<open>auto simp: l_lowers_def\<close>)

end
