(* ===== verification/Progress.thy ===== *)
theory Progress
  imports Concurrency
begin

text \<open>
  Termination of the operations of a program, however they are interleaved: a bound on the number of
  times each thread may still disturb the others, and a rank that every other step lowers.
\<close>

definition internal_forever :: "('a, 'sh, 'pc) program \<Rightarrow> ('sh, 'pc) sys \<Rightarrow> bool" where
  "internal_forever P s \<longleftrightarrow> (\<exists>f. f 0 = s \<and> (\<forall>k. sys_step P (f k) None (f (Suc k))))"

lemma sum_change:
  fixes f g :: "tid \<Rightarrow> nat"
  assumes "finite S" "t \<in> S" "\<And>u. u \<noteq> t \<Longrightarrow> g u = f u"
  shows "sum g S + f t = sum f S + g t"
proof -
  have "sum g (S - {t}) = sum f (S - {t})" by (rule sum.cong) (use assms(3) in auto)
  with sum.remove [OF assms(1,2), of f] sum.remove [OF assms(1,2), of g] show ?thesis by simp
qed

text \<open>
  The general form. A ghost \<open>g\<close> holds what the proof needs to know of a state besides the state; \<open>pot\<close>
  bounds the changes of the shared state that threads make for one another.
\<close>

definition lowers ::
    "('pc \<Rightarrow> nat) \<Rightarrow> ('g \<Rightarrow> 'sh \<Rightarrow> nat) \<Rightarrow> ('g \<Rightarrow> 'sh \<Rightarrow> 'pc \<Rightarrow> nat) \<Rightarrow> tid \<Rightarrow>
     ('sh, 'pc) sys \<Rightarrow> 'g \<Rightarrow> ('sh, 'pc) sys \<Rightarrow> 'g \<Rightarrow> bool" where
  "lowers budget pot rank t s g s' g' \<longleftrightarrow>
     budget (pcs s' t) < budget (pcs s t) \<or>
     budget (pcs s' t) = budget (pcs s t) \<and>
     (pot g' (shared s') < pot g (shared s) \<or>
      pot g' (shared s') = pot g (shared s) \<and>
      rank g' (shared s') (pcs s' t) < rank g (shared s) (pcs s t) \<and>
      (\<forall>u. u \<noteq> t \<longrightarrow> rank g' (shared s') (pcs s u) = rank g (shared s) (pcs s u)))"

text \<open>The measure of a state, over a finite set of threads, that such a step lowers.\<close>

definition pace ::
    "tid set \<Rightarrow> ('pc \<Rightarrow> nat) \<Rightarrow> ('g \<Rightarrow> 'sh \<Rightarrow> nat) \<Rightarrow> ('g \<Rightarrow> 'sh \<Rightarrow> 'pc \<Rightarrow> nat) \<Rightarrow>
     ('sh, 'pc) sys \<Rightarrow> 'g \<Rightarrow> nat \<times> nat \<times> nat" where
  "pace S budget pot rank s g =
     ((\<Sum>t\<in>S. budget (pcs s t)), pot g (shared s), (\<Sum>t\<in>S. rank g (shared s) (pcs s t)))"

abbreviation pace_less :: "((nat \<times> nat \<times> nat) \<times> nat \<times> nat \<times> nat) set" where
  "pace_less \<equiv> less_than <*lex*> less_than <*lex*> less_than"

lemma lowers_pace:
  assumes "finite S" "t \<in> S" "lowers budget pot rank t s g s' g'"
    and other: "\<And>u. u \<noteq> t \<Longrightarrow> pcs s' u = pcs s u"
  shows "(pace S budget pot rank s' g', pace S budget pot rank s g) \<in> pace_less"
proof -
  have b: "(\<Sum>u\<in>S. budget (pcs s' u)) + budget (pcs s t) = (\<Sum>u\<in>S. budget (pcs s u)) + budget (pcs s' t)"
    by (rule sum_change [OF assms(1,2)]) (simp add: other)
  have r: "(\<Sum>u\<in>S. rank g' (shared s') (pcs s' u)) + rank g (shared s) (pcs s t) =
      (\<Sum>u\<in>S. rank g (shared s) (pcs s u)) + rank g' (shared s') (pcs s' t)"
    if "\<And>u. u \<noteq> t \<Longrightarrow> rank g' (shared s') (pcs s u) = rank g (shared s) (pcs s u)"
    by (rule sum_change [OF assms(1,2)]) (simp add: other that)
  show ?thesis using assms(3) b r unfolding lowers_def pace_def by auto
qed

text \<open>Finitely many steps in which a measure falls, among others in which it does not rise.\<close>

lemma falls_finitely:
  fixes I :: "nat \<Rightarrow> 'g \<Rightarrow> bool" and m :: "nat \<Rightarrow> 'g \<Rightarrow> 'm"
  assumes wf: "wf R" and init: "I n g"
    and step: "\<And>k g. I k g \<Longrightarrow> n \<le> k \<Longrightarrow>
      \<exists>g'. I (Suc k) g' \<and> ((m (Suc k) g', m k g) \<in> R \<or> m (Suc k) g' = m k g \<and> \<not> falling k)"
  shows "\<exists>k \<ge> n. \<forall>j \<ge> k. \<not> falling j"
proof -
  have "\<exists>k \<ge> i. \<forall>j \<ge> k. \<not> falling j" if "I i g" "n \<le> i" for i g
    using that
  proof (induction "m i g" arbitrary: i g rule: wf_induct_rule [OF wf])
    case (1 i g)
    have keep: "\<exists>g'. I j g' \<and> m j g' = m i g" if "i \<le> j" "\<And>k. i \<le> k \<Longrightarrow> k < j \<Longrightarrow> \<not> (\<exists>g'. I (Suc k) g' \<and> (m (Suc k) g', m i g) \<in> R)" for j
      using that
    proof (induction j rule: dec_induct)
      case base
      with 1(2) show ?case by blast
    next
      case (step j)
      then obtain g1 where g1: "I j g1" "m j g1 = m i g" by auto
      obtain g2 where g2: "I (Suc j) g2" "(m (Suc j) g2, m j g1) \<in> R \<or> m (Suc j) g2 = m j g1"
        using assms(3) [OF g1(1)] 1(3) step.hyps(1) by fastforce
      have "\<not> (\<exists>g'. I (Suc j) g' \<and> (m (Suc j) g', m i g) \<in> R)" by (rule step.prems) (use step.hyps in auto)
      with g1 g2 show ?case by auto
    qed
    show ?case
    proof (cases "\<exists>k \<ge> i. \<exists>g'. I (Suc k) g' \<and> (m (Suc k) g', m i g) \<in> R")
      case True
      then obtain k g' where k: "i \<le> k" "I (Suc k) g'" "(m (Suc k) g', m i g) \<in> R" by blast
      have "n \<le> Suc k" using k(1) 1(3) by simp
      from 1(1) [OF k(3,2) this] obtain j where "Suc k \<le> j" "\<forall>j' \<ge> j. \<not> falling j'" by blast
      with k(1) show ?thesis by (intro exI [of _ j]) simp
    next
      case False
      have "\<not> falling j" if j: "i \<le> j" for j
      proof -
        obtain g1 where g1: "I j g1" "m j g1 = m i g" using keep [OF j] False by blast
        have "n \<le> j" using 1(3) j by simp
        from assms(3) [OF g1(1) this] obtain g2 where
          "I (Suc j) g2" "(m (Suc j) g2, m j g1) \<in> R \<or> m (Suc j) g2 = m j g1 \<and> \<not> falling j" by blast
        with False j g1(2) show ?thesis by auto
      qed
      then show ?thesis by blast
    qed
  qed
  with init show ?thesis by blast
qed

lemma interference_terminates:
  fixes P :: "('a, 'sh, 'pc) program" and I :: "('sh, 'pc) sys \<Rightarrow> 'g \<Rightarrow> bool"
  assumes fin: "finite (active P s)" and init: "I s g"
    and idle: "\<And>t sh. p_step P t sh (p_idle P) = None"
    and dec: "\<And>s g t sh pc s'. I s g \<Longrightarrow> p_step P t (shared s) (pcs s t) = Some (sh, pc) \<Longrightarrow>
      s' = s\<lparr>shared := sh, pcs := (pcs s)(t := pc)\<rparr> \<Longrightarrow>
      \<exists>g'. I s' g' \<and> lowers budget pot rank t s g s' g'"
  shows "\<not> internal_forever P s"
proof
  assume "internal_forever P s"
  then obtain f where f: "f 0 = s" "\<And>k. sys_step P (f k) None (f (Suc k))"
    by (auto simp: internal_forever_def)
  define S where "S = active P s"
  let ?I = "\<lambda>k g. I (f k) g \<and> active P (f k) \<subseteq> S"
  have "\<exists>g'. ?I (Suc k) g' \<and> (pace S budget pot rank (f (Suc k)) g', pace S budget pot rank (f k) g) \<in> pace_less"
    if I: "?I k g" for k g
    using f(2) [of k]
  proof cases
    case (step_internal t sh pc)
    with idle have "pcs (f k) t \<noteq> p_idle P" by auto
    then have t: "t \<in> S" using I by (auto simp: active_def)
    from dec [OF conjunct1 [OF I] step_internal(2,1)] obtain g' where
      g': "I (f (Suc k)) g'" "lowers budget pot rank t (f k) g (f (Suc k)) g'" by blast
    have fS: "finite S" using fin by (simp add: S_def)
    have "active P (f (Suc k)) \<subseteq> S"
      using I t step_internal(1) by (auto simp: active_def split: if_splits)
    with g' lowers_pace [OF fS t g'(2)] step_internal(1) show ?thesis by auto
  qed
  note dec' = this
  have "\<exists>k \<ge> (0 :: nat). \<forall>j \<ge> k. \<not> (\<lambda>_. True) j"
  proof (rule falls_finitely [where I = ?I and m = "\<lambda>k. pace S budget pot rank (f k)" and
        R = pace_less and falling = "\<lambda>_. True" and g = g])
    show "wf pace_less" by (intro wf_lex_prod wf_less_than)
    show "?I 0 g" using init f(1) by (simp add: S_def)
    fix k g assume "?I k g"
    from dec' [OF this] show "\<exists>g'. ?I (Suc k) g' \<and>
        ((pace S budget pot rank (f (Suc k)) g', pace S budget pot rank (f k) g) \<in> pace_less \<or>
         pace S budget pot rank (f (Suc k)) g' = pace S budget pot rank (f k) g \<and> \<not> (\<lambda>_. True) k)"
      by blast
  qed
  then show False by blast
qed

text \<open>The case without a ghost, in which the rank is kept by the steps of the others.\<close>

lemma internal_terminates:
  fixes P :: "('a, 'sh, 'pc) program" and budget :: "'pc \<Rightarrow> nat" and rank :: "'sh \<Rightarrow> 'pc \<Rightarrow> nat"
  assumes fin: "finite (active P s)"
    and idle: "\<And>t sh. p_step P t sh (p_idle P) = None"
    and dec: "\<And>t sh pc sh' pc'. p_step P t sh pc = Some (sh', pc') \<Longrightarrow>
      budget pc' < budget pc \<or>
      budget pc' = budget pc \<and> rank sh' = rank sh \<and> rank sh' pc' < rank sh pc"
  shows "\<not> internal_forever P s"
  by (rule interference_terminates [where I = "\<lambda>_ _. True" and g = "()" and budget = budget and
        pot = "\<lambda>_ _. 0" and rank = "\<lambda>_. rank"])
    (use fin idle dec in \<open>fastforce simp: lowers_def\<close>)+

section \<open>Returning for ever\<close>

lemma grows_finitely:
  assumes "finite T" "\<And>j. k \<le> j \<Longrightarrow> A j \<subseteq> A (Suc j) \<and> A j \<subseteq> T"
  shows "\<exists>n \<ge> k. \<forall>j \<ge> n. A (Suc j) = A j"
proof -
  have "\<exists>i \<ge> k. \<forall>j \<ge> i. \<not> A j \<subset> A (Suc j)"
  proof (rule falls_finitely [where R = less_than and I = "\<lambda>_ _. True" and m = "\<lambda>j _. card (T - A j)"])
    fix j assume j: "k \<le> j"
    have sub: "A j \<subseteq> A (Suc j)" "A j \<subseteq> T" "A (Suc j) \<subseteq> T"
      using assms(2) [OF j] assms(2) [of "Suc j"] j by auto
    show "\<exists>g'. True \<and> ((card (T - A (Suc j)), card (T - A j)) \<in> less_than \<or>
        card (T - A (Suc j)) = card (T - A j) \<and> \<not> A j \<subset> A (Suc j))"
    proof (cases "A j \<subset> A (Suc j)")
      case True
      then have "T - A (Suc j) \<subset> T - A j" using sub by blast
      then have "card (T - A (Suc j)) < card (T - A j)" using assms(1) by (intro psubset_card_mono) auto
      then show ?thesis by simp
    next
      case False
      with sub(1) have "A (Suc j) = A j" by blast
      then show ?thesis by simp
    qed
  qed auto
  then obtain i where i: "k \<le> i" "\<And>j. i \<le> j \<Longrightarrow> \<not> A j \<subset> A (Suc j)" by blast
  have "A (Suc j) = A j" if "i \<le> j" for j using assms(2) [of j] i(1) i(2) [OF that] that by auto
  with i(1) show ?thesis by blast
qed

text \<open>
  If the steps between two calls are always finite, then in an infinite run of finitely many threads
  operations return again and again.
\<close>

lemma returns_forever:
  fixes P :: "('a, 'sh, 'pc) program"
  assumes run: "\<And>k. sys_step P (f k) (l k) (f (Suc k))"
    and calls: "\<And>k t x. l k = Some (Call t x) \<Longrightarrow> t \<in> T" and fin: "finite T"
    and ends: "\<And>k. \<not> internal_forever P (f k)"
    and start: "\<And>x. p_start P x \<noteq> p_idle P"
    and stay: "\<And>t sh pc sh' pc'. p_step P t sh pc = Some (sh', pc') \<Longrightarrow> pc' \<noteq> p_idle P"
  shows "\<exists>j \<ge> k. \<exists>t r. l j = Some (Return t r)"
proof (rule ccontr)
  assume "\<not> ?thesis"
  then have none: "l j \<noteq> Some (Return t r)" if "k \<le> j" for j t r using that by blast
  let ?A = "\<lambda>j. active P (f j) \<inter> T"
  have one: "?A j \<subseteq> ?A (Suc j) \<and> (l j \<noteq> None \<longrightarrow> ?A j \<subset> ?A (Suc j))" if "k \<le> j" for j
    using run [of j]
  proof cases
    case (step_call t x)
    then have "t \<in> T" using calls by blast
    with step_call start [of x] show ?thesis by (auto simp: active_def)
  next
    case (step_internal t sh pc)
    with stay [OF step_internal(3)] show ?thesis by (auto simp: active_def)
  next
    case (step_return t r)
    with none [OF that] show ?thesis by blast
  qed
  obtain n where n: "k \<le> n" "\<And>j. n \<le> j \<Longrightarrow> ?A (Suc j) = ?A j"
    using grows_finitely [OF fin, of k ?A] one by blast
  have "sys_step P (f (n + i)) None (f (Suc (n + i)))" for i
    using one [of "n + i"] n(1) n(2) [of "n + i"] run [of "n + i"] by auto
  then have "internal_forever P (f n)"
    unfolding internal_forever_def by (intro exI [of _ "\<lambda>i. f (n + i)"]) simp
  with ends show False by blast
qed

end
