(* ===== verification/LockFreeProgress.thy ===== *)
theory LockFreeProgress
  imports LockFreeProps ListProgress Progress
begin

text \<open>
  The lock-free set is lock-free: without new calls every interleaving of its operations is finite,
  so in an infinite run of finitely many threads operations return for ever. A budget counts the
  sentinels and the node an operation may still insert, the node it may still mark and its last
  steps; the marked nodes of the chain bound the unlinking; and between the changes of the published
  nodes the ranks of \<open>ListProgress\<close> fall.
\<close>

fun h_budget :: "'a hpc \<Rightarrow> nat" where
  "h_budget (HCapacity x) = 8 * 2 ^ 64 + 9"
| "h_budget (HBucket x i js) = 8 * unat i + 4 * length js + 8"
| "h_budget (HSentinel x i js pc) = 4 * length js + 8 + l_budget pc"
| "h_budget (HList x pc) = 4 + l_budget pc"
| "h_budget HResizeCap = 3"
| "h_budget (HResizeSize c) = 2"
| "h_budget (HResizeCas c) = 1"
| "h_budget pc = 0"

definition h_rank :: "(addr \<Rightarrow> nat) \<Rightarrow> 'a node list \<Rightarrow> 'a hpc \<Rightarrow> nat" where
  "h_rank \<rho> h pc = (case list_pc pc of None \<Rightarrow> 0 | Some p \<Rightarrow> l_rank \<rho> h p)"

lemma h_rank_cong:
  assumes "h_ok hash m h C P pc" "\<And>a. a \<in> P \<Longrightarrow> nxt (h' ! a) = nxt (h ! a)"
  shows "h_rank \<rho> h' pc = h_rank \<rho> h pc"
  using assms by (cases pc) (auto simp: h_rank_def intro: l_rank_cong)

lemma l_budget_le: "l_budget pc \<le> 3"
  by (cases pc) auto

lemma bucket_found_budget:
  "h_budget (bucket_found x js a l) < 4 * length js + 8"
  using le_less_trans [OF l_budget_le, of 4 "l_start x a"]
    le_less_trans [OF l_budget_le, of 4 "SentinelFor l a (hd js)"]
  by (cases js) (auto simp: bucket_found_def)

definition h_lowers ::
    "(addr \<Rightarrow> nat) \<Rightarrow> 'a node list \<Rightarrow> addr list \<Rightarrow> addr set \<Rightarrow> 'a hpc \<Rightarrow>
     'a node list \<Rightarrow> addr list \<Rightarrow> 'a hpc \<Rightarrow> bool" where
  "h_lowers \<rho> h C P pc h' C' pc' \<longleftrightarrow>
     h_budget pc' < h_budget pc \<or>
     h_budget pc' = h_budget pc \<and>
     (card (dead h' C') < card (dead h C) \<or>
      (\<forall>a \<in> P. nxt (h' ! a) = nxt (h ! a)) \<and> h_rank \<rho> h' pc' < h_rank \<rho> h pc)"

lemma lf_step_lowers:
  assumes inv: "list_inv hash root (heap (lf_list s)) C P" and tab: "table_ok s P"
    and desc: "descends \<rho> (heap (lf_list s)) P"
    and ok: "h_ok hash (lf_max_capacity s) (heap (lf_list s)) C P pc"
    and ev: "evolves hash (heap (lf_list s)) C P w (heap (lf_list s')) C' P'"
    and step: "lf_step hash d s pc = Some (s', pc')"
  shows "h_lowers \<rho> (heap (lf_list s)) C P pc (heap (lf_list s')) C' pc'"
proof (cases pc)
  case (HCapacity x)
  have "unat (hash (op_elem x) mod lf_capacity s) < 2 ^ 64" by (rule order_less_le_trans [OF unsigned_less]) simp
  with HCapacity step frames_mod(3) [OF tab] show ?thesis by (auto simp: h_lowers_def)
next
  case (HBucket x i js)
  have i: "unat i < length (lf_buckets s)" "i < lf_max_capacity s"
    using ok tab HBucket by (auto simp: table_ok_def word_less_nat_alt)
  show ?thesis
  proof (cases "lf_buckets s ! unat i")
    case None
    then have "i \<noteq> 0" using tab by (auto simp: table_ok_def)
    with parent_less [OF this] have "unat (GetParentIndex i) < unat i" by (simp add: word_less_nat_alt)
    with None \<open>i \<noteq> 0\<close> i step HBucket show ?thesis by (auto simp: h_lowers_def get_bucket_def)
  next
    case (Some a)
    with i step HBucket bucket_found_budget [of x js a "lf_list s"] show ?thesis
      by (auto simp: h_lowers_def get_bucket_def)
  qed
next
  case (HSentinel x i js p)
  have p: "l_ok hash (heap (lf_list s)) C P (Inr i) p" using ok HSentinel by simp
  show ?thesis
  proof (cases "running p")
    case True
    obtain l p' where l: "l_step hash d (lf_list s) p = (l, p')" by fastforce
    have r: "s' = s\<lparr>lf_list := l\<rparr>" "pc' = HSentinel x i js p'"
      using step [unfolded HSentinel lf_step_running(1) [OF True l]] by simp_all
    have "l_lowers \<rho> (heap (lf_list s)) C P p (heap l) C' p'"
      by (rule l_step_lowers [OF inv desc p _ _ l]) (use True ev r in \<open>auto simp: running_def\<close>)
    then show ?thesis by (auto simp: l_lowers_def h_lowers_def HSentinel r h_rank_def)
  next
    case False
    with p obtain a where a: "p = LRet (RSentinel a)"
      by (cases p) (auto simp: running_def res_ok_def)
    then have "pc' = bucket_found x js a (lf_list s)" using step HSentinel by simp
    with bucket_found_budget [of x js a "lf_list s"] show ?thesis
      by (simp add: h_lowers_def HSentinel a)
  qed
next
  case (HList x p)
  have p: "l_ok hash (heap (lf_list s)) C P (Inl x) p" using ok HList by simp
  show ?thesis
  proof (cases "running p")
    case True
    obtain l p' where l: "l_step hash d (lf_list s) p = (l, p')" by fastforce
    have r: "s' = s\<lparr>lf_list := l\<rparr>" "pc' = HList x p'"
      using step [unfolded HList lf_step_running(2) [OF True l]] by simp_all
    have "l_lowers \<rho> (heap (lf_list s)) C P p (heap l) C' p'"
      by (rule l_step_lowers [OF inv desc p _ _ l]) (use True ev r in \<open>auto simp: running_def\<close>)
    then show ?thesis by (auto simp: l_lowers_def h_lowers_def HList r h_rank_def)
  next
    case False
    with p obtain b where b: "p = LRet (RBool b)"
      by (cases p) (auto simp: running_def res_ok_def)
    then have "(s', pc') = list_done s x b" using step HList by simp
    then have "h_budget pc' < 4" by (cases x) (auto simp: list_done_def split: if_splits)
    then show ?thesis by (simp add: h_lowers_def HList)
  qed
qed (use step in \<open>auto simp: h_lowers_def split: if_splits\<close>)

text \<open>The ghost: the chain, the published nodes, and numbers that fall along the references.\<close>

definition paced ::
    "('a \<Rightarrow> size_t) \<Rightarrow> ('a lockfree, 'a hpc) sys \<Rightarrow> addr list \<times> addr set \<times> (addr \<Rightarrow> nat) \<Rightarrow> bool" where
  "paced hash s g \<longleftrightarrow>
     (case g of (C, P, \<rho>) \<Rightarrow>
        (\<exists>i. lf_sim_at hash C P s i) \<and> descends \<rho> (heap (lf_list (shared s))) P)"

lemma paced_same:
  "lf_sim_at hash C P (s\<lparr>pcs := f\<rparr>) i \<Longrightarrow> descends \<rho> (heap (lf_list (shared s))) P \<Longrightarrow>
   paced hash (s\<lparr>pcs := f\<rparr>) (C, P, \<rho>)"
  by (auto simp: paced_def)

lemma paced_step:
  assumes g: "paced hash s (C, P, \<rho>)"
    and step: "lf_step hash d (shared s) (pcs s t) = Some (sh, pc)"
  obtains C' P' \<rho>' where
    "paced hash (s\<lparr>shared := sh, pcs := (pcs s)(t := pc)\<rparr>) (C', P', \<rho>')"
    "h_lowers \<rho> (heap (lf_list (shared s))) C P (pcs s t) (heap (lf_list sh)) C' pc"
    "(\<And>a. a \<in> P \<Longrightarrow> nxt (heap (lf_list sh) ! a) = nxt (heap (lf_list (shared s)) ! a)) \<Longrightarrow>
       C' = C \<and> P' = P \<and> \<rho>' = \<rho>"
proof -
  let ?h = "heap (lf_list (shared s))" and ?h' = "heap (lf_list sh)"
  from g obtain i where at: "lf_sim_at hash C P s i" and desc: "descends \<rho> ?h P"
    by (auto simp: paced_def)
  note sim = lf_sim_atD [OF at]
  from lf_step_goes [OF sim(2,1,6) step] obtain C' P' where
    mv: "h_move hash C P (shared s) (pcs s t) C' P' sh pc" and ac: "h_acts hash C (shared s) (pcs s t) C' sh pc"
    by (auto simp: lf_goes_def)
  from mv obtain w where ev: "evolves hash ?h C P w ?h' C' P'" by (auto simp: h_move_def Let_def)
  have low: "h_lowers \<rho> ?h C P (pcs s t) ?h' C' pc"
    by (rule lf_step_lowers [OF sim(1,2) desc sim(6) ev step])
  obtain i' where at': "lf_sim_at hash C' P' (s\<lparr>shared := sh, pcs := (pcs s)(t := pc)\<rparr>) i'"
    using lf_sim_thread [OF at mv ac] by blast
  show thesis
  proof (cases "\<forall>a \<in> P. nxt (?h' ! a) = nxt (?h ! a)")
    case True
    have q: "C' = C" "P' = P" using evolves_quiet [OF ev sim(1)] True by blast+
    have "descends \<rho> ?h' P" using descends_cong [OF desc] True by blast
    with at' q have "paced hash (s\<lparr>shared := sh, pcs := (pcs s)(t := pc)\<rparr>) (C, P, \<rho>)"
      by (auto simp: paced_def)
    from that [OF this] low q show thesis by simp
  next
    case False
    obtain \<rho>' where "descends \<rho>' ?h' P'" using evolves_descends [OF ev sim(1) desc] by blast
    with at' have "paced hash (s\<lparr>shared := sh, pcs := (pcs s)(t := pc)\<rparr>) (C', P', \<rho>')"
      by (auto simp: paced_def)
    from that [OF this low] False show thesis by blast
  qed
qed

lemma paced_lowers:
  assumes g: "paced hash s g" and step: "lf_step hash d (shared s) (pcs s t) = Some (sh, pc)"
    and s': "s' = s\<lparr>shared := sh, pcs := (pcs s)(t := pc)\<rparr>"
  shows "\<exists>g'. paced hash s' g' \<and>
    lowers h_budget (\<lambda>(C, P, \<rho>) sh. card (dead (heap (lf_list sh)) C))
      (\<lambda>(C, P, \<rho>) sh. h_rank \<rho> (heap (lf_list sh))) t s g s' g'"
proof -
  obtain C P \<rho> where gd: "g = (C, P, \<rho>)" by (cases g)
  from paced_step [OF g [unfolded gd] step] obtain C' P' \<rho>' where
    g': "paced hash s' (C', P', \<rho>')" and
    low: "h_lowers \<rho> (heap (lf_list (shared s))) C P (pcs s t) (heap (lf_list sh)) C' pc" and
    q: "(\<And>a. a \<in> P \<Longrightarrow> nxt (heap (lf_list sh) ! a) = nxt (heap (lf_list (shared s)) ! a)) \<Longrightarrow>
       C' = C \<and> P' = P \<and> \<rho>' = \<rho>"
    unfolding s' by blast
  have ok: "h_ok hash (lf_max_capacity (shared s)) (heap (lf_list (shared s))) C P (pcs s u)" for u
    using g lf_sim_atD(6) by (auto simp: paced_def gd)
  have same: "C' = C \<and> P' = P \<and> \<rho>' = \<rho> \<and> card (dead (heap (lf_list sh)) C) = card (dead (heap (lf_list (shared s))) C) \<and>
      (\<forall>u. h_rank \<rho> (heap (lf_list sh)) (pcs s u) = h_rank \<rho> (heap (lf_list (shared s))) (pcs s u))"
    if n: "\<forall>a \<in> P. nxt (heap (lf_list sh) ! a) = nxt (heap (lf_list (shared s)) ! a)"
  proof -
    obtain i where "lf_sim_at hash C P s i" using g by (auto simp: paced_def gd)
    from lf_sim_atD(1) [OF this] have "set C \<subseteq> P" by (simp add: list_inv_def)
    then have "dead (heap (lf_list sh)) C = dead (heap (lf_list (shared s))) C"
      using n by (auto simp: dead_def)
    moreover have "C' = C \<and> P' = P \<and> \<rho>' = \<rho>" by (rule q) (use n in blast)
    moreover have "h_rank \<rho> (heap (lf_list sh)) (pcs s u) = h_rank \<rho> (heap (lf_list (shared s))) (pcs s u)"
      for u by (rule h_rank_cong [OF ok]) (use n in blast)
    ultimately show ?thesis by simp
  qed
  have "lowers h_budget (\<lambda>(C, P, \<rho>) sh. card (dead (heap (lf_list sh)) C))
      (\<lambda>(C, P, \<rho>) sh. h_rank \<rho> (heap (lf_list sh))) t s g s' (C', P', \<rho>')"
  proof -
    from low consider
      "h_budget pc < h_budget (pcs s t)"
    | "h_budget pc = h_budget (pcs s t)"
        "card (dead (heap (lf_list sh)) C') < card (dead (heap (lf_list (shared s))) C)"
    | "h_budget pc = h_budget (pcs s t)"
        "\<forall>a \<in> P. nxt (heap (lf_list sh) ! a) = nxt (heap (lf_list (shared s)) ! a)"
        "h_rank \<rho> (heap (lf_list sh)) pc < h_rank \<rho> (heap (lf_list (shared s))) (pcs s t)"
      unfolding h_lowers_def by blast
    then show ?thesis
    proof cases
      case 3
      from same [OF 3(2)] 3(1,3) show ?thesis by (simp add: lowers_def gd s')
    qed (simp_all add: lowers_def gd s')
  qed
  with g' show ?thesis by blast
qed

lemma lockfree_paced:
  assumes "construct_lockfree d ic mc = Inr s0"
    and "sys_run (lockfree_program hash d) (sys_init (lockfree_program hash d) s0) h s"
  shows "\<exists>g. paced hash s g"
proof (rule sys_run_invariant [OF assms(2)])
  let ?s = "sys_init (lockfree_program hash d) s0"
  have l: "lf_list s0 = fst (MakeRoot d)" by (rule construct_cases [OF assms(1)])
  have "lf_sim_at hash [root, 0] {root, 0} ?s (i_init {})"
    by (rule lf_sim_at_init) (use assms(1) in \<open>auto simp: lf_start_def\<close>)
  moreover have "descends (\<lambda>a. a) (heap (lf_list s0)) {root, 0}"
    by (simp add: l MakeRoot_def root_def descends_def)
  ultimately show "\<exists>g. paced hash ?s g"
    by (intro exI [of _ "([root, 0], {root, 0}, \<lambda>a. a)"]) (auto simp: paced_def sys_init_def)
next
  fix s1 l s2 assume "\<exists>g. paced hash s1 g" and step: "sys_step (lockfree_program hash d) s1 l s2"
  then obtain C P \<rho> where g: "paced hash s1 (C, P, \<rho>)" by auto
  then obtain i where at: "lf_sim_at hash C P s1 i" and desc: "descends \<rho> (heap (lf_list (shared s1))) P"
    by (auto simp: paced_def)
  from step show "\<exists>g. paced hash s2 g"
  proof cases
    case (step_call t x)
    then have pc: "pcs s1 t = HIdle" by (simp add: lockfree_program_def)
    from lf_sim_call [OF at pc, of x] obtain i' where
      "lf_sim_at hash C P (s1\<lparr>pcs := (pcs s1)(t := HCapacity x)\<rparr>) i'" by blast
    with paced_same [OF this desc] step_call(2) show ?thesis by (auto simp: lockfree_program_def)
  next
    case (step_internal t sh pc)
    then have "lf_step hash d (shared s1) (pcs s1 t) = Some (sh, pc)" by (simp add: lockfree_program_def)
    then obtain C' P' \<rho>' where
      "paced hash (s1\<lparr>shared := sh, pcs := (pcs s1)(t := pc)\<rparr>) (C', P', \<rho>')"
      by (rule paced_step [OF g])
    then show ?thesis unfolding step_internal(2) by (rule exI)
  next
    case (step_return t r)
    then have pc: "pcs s1 t = HRet r" by (simp add: lockfree_program_def split: hpc.splits)
    from lf_sim_return [OF at pc] obtain i' where
      "lf_sim_at hash C P (s1\<lparr>pcs := (pcs s1)(t := HIdle)\<rparr>) i'" by blast
    with paced_same [OF this desc] step_return(2) show ?thesis by (auto simp: lockfree_program_def)
  qed
qed


lemma lockfree_internal_ends:
  assumes "construct_lockfree d ic mc = Inr s0"
    and run: "sys_run (lockfree_program hash d) (sys_init (lockfree_program hash d) s0) h s"
  shows "\<not> internal_forever (lockfree_program hash d) s"
proof -
  obtain g where g: "paced hash s g" using lockfree_paced [OF assms] by blast
  show ?thesis
  proof (rule interference_terminates [where I = "paced hash" and g = g and budget = h_budget and
        pot = "\<lambda>(C, P, \<rho>) sh. card (dead (heap (lf_list sh)) C)" and
        rank = "\<lambda>(C, P, \<rho>) sh. h_rank \<rho> (heap (lf_list sh))"])
    show "finite (active (lockfree_program hash d) s)" by (rule finite_active [OF run])
    show "paced hash s g" by (rule g)
    fix t sh
    show "p_step (lockfree_program hash d) t sh (p_idle (lockfree_program hash d)) = None"
      by (simp add: lockfree_program_def)
  next
    fix s1 g1 t sh pc s2
    assume "paced hash s1 g1" "p_step (lockfree_program hash d) t (shared s1) (pcs s1 t) = Some (sh, pc)"
      and "s2 = s1\<lparr>shared := sh, pcs := (pcs s1)(t := pc)\<rparr>"
    then show "\<exists>g'. paced hash s2 g' \<and>
        lowers h_budget (\<lambda>(C, P, \<rho>) sh. card (dead (heap (lf_list sh)) C))
          (\<lambda>(C, P, \<rho>) sh. h_rank \<rho> (heap (lf_list sh))) t s1 g1 s2 g'"
      by (intro paced_lowers [of hash s1 g1 d t sh pc]) (simp_all add: lockfree_program_def)
  qed
qed

section \<open>Lock-freedom\<close>

text \<open>
  The set is lock-free. In every infinite run of finitely many threads, scheduled in
  any way, with threads delayed for ever anywhere, operations return again and again.
\<close>

lemma lockfree_progress:
  assumes "construct_lockfree d initial_capacity max_capacity = Inr s0"
    and "f 0 = sys_init (lockfree_program hash d) s0"
    and "\<forall>k. sys_step (lockfree_program hash d) (f k) (l k) (f (Suc k))"
    and "finite T" and "\<forall>k t x. l k = Some (Call t x) \<longrightarrow> t \<in> T"
  shows "\<forall>k. \<exists>j \<ge> k. \<exists>t r. l j = Some (Return t r)"
proof
  fix k
  have reach: "\<exists>h. sys_run (lockfree_program hash d) (sys_init (lockfree_program hash d) s0) h (f n)" for n
  proof (induction n)
    case 0
    show ?case unfolding assms(2) by (blast intro: run_start)
  next
    case (Suc n)
    with assms(3) show ?case by (blast intro: run_step)
  qed
  show "\<exists>j \<ge> k. \<exists>t r. l j = Some (Return t r)"
  proof (rule returns_forever [where T = T])
    fix n
    show "\<not> internal_forever (lockfree_program hash d) (f n)"
      using reach [of n] lockfree_internal_ends [OF assms(1)] by blast
  next
    fix t sh pc sh' pc'
    assume "p_step (lockfree_program hash d) t sh pc = Some (sh', pc')"
    then have "pc' \<noteq> HIdle" by (intro lf_step_not_idle [of hash d sh pc sh']) (simp add: lockfree_program_def)
    then show "pc' \<noteq> p_idle (lockfree_program hash d)" by (simp add: lockfree_program_def)
  qed (use assms(3-5) in \<open>auto simp: lockfree_program_def\<close>)
qed

end
