(* ===== verification/ReclaimedProgress.thy ===== *)
theory ReclaimedProgress
  imports ReclaimedProps LockFreeProgress
begin

text \<open>
  The set with its reclaimer is lock-free as well: finding or adding a participant, retiring a node
  and advancing the epoch make an operation longer by a bounded number of steps. The retry loop of
  \<open>Adopt\<close> is charged to the participant another thread has added.
\<close>

section \<open>The steps of the reclaimer\<close>

fun e_rank :: "tid list \<Rightarrow> epc \<Rightarrow> nat" where
  "e_rank ps ALookup = 8"
| "e_rank ps ANext = 7"
| "e_rank ps (APush l) = (if l = ps then 5 else 6)"
| "e_rank ps GLoad = 4"
| "e_rank ps (GEnter e) = 3"
| "e_rank ps (GAnnounce e) = 2"
| "e_rank ps (GRetire n) = 2 * length ps + 16"
| "e_rank ps TLoad = 2 * length ps + 15"
| "e_rank ps (THead1 e) = 2 * length ps + 14"
| "e_rank ps (TScan1 e us) = length ps + 12 + length us"
| "e_rank ps (TExchange e) = length ps + 11"
| "e_rank ps (TFence e) = length ps + 10"
| "e_rank ps (THead2 e) = length ps + 9"
| "e_rank ps (TScan2 e us) = 8 + length us"
| "e_rank ps (TCas e) = 7"
| "e_rank ps (TStore b) = 6"
| "e_rank ps pc = 0"

text \<open>A thread that is adding its participant has none yet.\<close>

definition joins :: "reclaimer \<Rightarrow> bool" where
  "joins e \<longleftrightarrow> (\<forall>t. joining (e_pc e t) \<longrightarrow> t \<notin> set (participants e))"

lemma joins_move:
  assumes "joins e" "\<And>u. u \<noteq> t \<Longrightarrow> e_pc e' u = e_pc e u"
    and "participants e' = participants e \<or> participants e' = t # participants e \<and> \<not> joining (e_pc e' t)"
    and "joining (e_pc e' t) \<Longrightarrow> t \<notin> set (participants e)"
  shows "joins e'"
  unfolding joins_def
proof (intro allI impI)
  fix u assume u: "joining (e_pc e' u)"
  show "u \<notin> set (participants e')"
  proof (cases "u = t")
    case True
    with u assms(3,4) show ?thesis by auto
  next
    case False
    with u assms(1,2) have "u \<notin> set (participants e)" by (auto simp: joins_def)
    with False assms(3) show ?thesis by auto
  qed
qed

lemma e_step_frame:
  assumes "e_step t a e = Some e'"
  shows "u \<noteq> t \<Longrightarrow> e_pc e' u = e_pc e u"
    "joins e \<Longrightarrow> participants e' = participants e \<or>
       participants e' = t # participants e \<and> t \<notin> set (participants e) \<and> \<not> joining (e_pc e' t)"
    "joins e \<Longrightarrow> joining (e_pc e' t) \<Longrightarrow> t \<notin> set (participants e)"
proof -
  have j: "t \<notin> set (participants e)" if "joins e" "e_pc e t = ANext \<or> (\<exists>l. e_pc e t = APush l)"
    using that by (auto simp: joins_def)
  have "(\<forall>u. u \<noteq> t \<longrightarrow> e_pc e' u = e_pc e u) \<and>
    (joins e \<longrightarrow> (participants e' = participants e \<or>
       participants e' = t # participants e \<and> t \<notin> set (participants e) \<and> \<not> joining (e_pc e' t)) \<and>
      (joining (e_pc e' t) \<longrightarrow> t \<notin> set (participants e)))"
  proof (cases a)
    case Go
    show ?thesis
    proof (cases "e_pc e t")
      case (TScan1 x us)
      with Go assms show ?thesis by (cases us) (auto split: if_splits)
    next
      case (TScan2 x us)
      with Go assms show ?thesis by (cases us) (auto split: if_splits)
    qed (use Go assms j in \<open>auto split: if_splits prod.splits\<close>)
  qed (use assms in \<open>auto split: if_splits epc.splits\<close>)
  then show "u \<noteq> t \<Longrightarrow> e_pc e' u = e_pc e u"
    "joins e \<Longrightarrow> participants e' = participants e \<or>
       participants e' = t # participants e \<and> t \<notin> set (participants e) \<and> \<not> joining (e_pc e' t)"
    "joins e \<Longrightarrow> joining (e_pc e' t) \<Longrightarrow> t \<notin> set (participants e)" by blast+
qed

lemma e_step_joins: "e_step t a e = Some e' \<Longrightarrow> joins e \<Longrightarrow> joins e'"
  using e_step_frame [of t a e e'] by (intro joins_move [of e t e']) blast+

lemma guard_rank:
  assumes "e_step t (case e_pc e t of TFence x \<Rightarrow> Fenced b | _ \<Rightarrow> Go) e = Some e'"
    and "participants e' = participants e"
  shows "e_rank (participants e) (e_pc e' t) < e_rank (participants e) (e_pc e t)"
proof (cases "e_pc e t")
  case (APush l)
  show ?thesis
  proof (cases "participants e = l")
    case True
    with APush assms(1) have "participants e' = t # l" by auto
    with True assms(2) show ?thesis by simp
  qed (use APush assms in auto)
next
  case (TScan1 x us)
  with assms show ?thesis by (cases us) (auto split: if_splits)
next
  case (TScan2 x us)
  with assms show ?thesis by (cases us) (auto split: if_splits)
qed (use assms in \<open>auto split: if_splits prod.splits\<close>)

section \<open>The measure\<close>

text \<open>The threads that have no participant yet, and the steps in the reclaimer that are left.\<close>

definition e_pace :: "tid set \<Rightarrow> reclaimer \<Rightarrow> nat \<times> nat" where
  "e_pace T e = (card {t \<in> T. t \<notin> set (participants e)},
     (\<Sum>t\<in>T. e_rank (participants e) (e_pc e t)))"

lemma guard_pace:
  assumes "finite T" "t \<in> T" "joins e"
    and e': "e_step t (case e_pc e t of TFence x \<Rightarrow> Fenced b | _ \<Rightarrow> Go) e = Some e'"
  shows "(e_pace T e', e_pace T e) \<in> less_than <*lex*> less_than"
proof (cases "participants e' = participants e")
  case True
  have "(\<Sum>u\<in>T. e_rank (participants e) (e_pc e' u)) + e_rank (participants e) (e_pc e t) =
      (\<Sum>u\<in>T. e_rank (participants e) (e_pc e u)) + e_rank (participants e) (e_pc e' t)"
    by (rule sum_change [OF assms(1,2)]) (simp add: e_step_frame(1) [OF e'])
  with guard_rank [OF e' True] True show ?thesis by (simp add: e_pace_def)
next
  case False
  with e_step_frame(2) [OF e' assms(3)] have "participants e' = t # participants e" "t \<notin> set (participants e)" by auto
  then have "{u \<in> T. u \<notin> set (participants e')} \<subset> {u \<in> T. u \<notin> set (participants e)}" using assms(2) by auto
  then have "card {u \<in> T. u \<notin> set (participants e')} < card {u \<in> T. u \<notin> set (participants e)}"
    using assms(1) by (intro psubset_card_mono) auto
  then show ?thesis by (simp add: e_pace_def)
qed

definition rc_pace ::
    "tid set \<Rightarrow> 'a reclaimed \<Rightarrow> addr list \<times> addr set \<times> (addr \<Rightarrow> nat) \<Rightarrow> (nat \<times> nat \<times> nat) \<times> nat \<times> nat" where
  "rc_pace T s g =
     (pace T h_budget (\<lambda>(C, P, \<rho>) sh. card (dead (heap (lf_list sh)) C))
        (\<lambda>(C, P, \<rho>) sh. h_rank \<rho> (heap (lf_list sh))) (rc_set s) g,
      e_pace T (rc_epoch s))"

abbreviation rc_less :: "(((nat \<times> nat \<times> nat) \<times> nat \<times> nat) \<times> (nat \<times> nat \<times> nat) \<times> nat \<times> nat) set" where
  "rc_less \<equiv> pace_less <*lex*> less_than <*lex*> less_than"

text \<open>Only the threads in \<open>T\<close> are in an operation or in a guard.\<close>

definition rc_busy :: "tid set \<Rightarrow> 'a reclaimed \<Rightarrow> bool" where
  "rc_busy T s \<longleftrightarrow> joins (rc_epoch s) \<and>
     (\<forall>t. pcs (rc_set s) t \<noteq> HIdle \<or> e_pc (rc_epoch s) t \<noteq> GIdle \<longrightarrow> t \<in> T)"

lemma tick_pcs:
  assumes "sched_step (lockfree_program hash d) (Tick t) x = Some y"
  shows "pcs y t \<noteq> HIdle" "u \<noteq> t \<Longrightarrow> pcs y u = pcs x u"
proof -
  obtain sh pc where "lf_step hash d (shared x) (pcs x t) = Some (sh, pc)"
    and y: "y = x\<lparr>shared := sh, pcs := (pcs x)(t := pc)\<rparr>"
    using assms unfolding tick_some by blast
  with lf_step_not_idle show "pcs y t \<noteq> HIdle" by simp
  show "u \<noteq> t \<Longrightarrow> pcs y u = pcs x u" by (simp add: y)
qed

lemma act_on_step: "act_on t a ns e = Some e' \<Longrightarrow> e' = e \<or> (\<exists>b. e_step t b e = Some e')"
  unfolding act_on_def by (auto simp del: e_step.simps split: option.splits sum.splits)

lemma rc_busy_step:
  assumes step: "rc_step hash d m s = Some s'" and busy: "rc_busy T s"
    and call: "\<And>t x. m = RCall t x \<Longrightarrow> t \<in> T"
  shows "rc_busy T s'"
proof -
  obtain t where t: "t \<in> T \<or> e_pc (rc_epoch s') t = GIdle \<and> pcs (rc_set s') t = pcs (rc_set s) t"
    and others: "\<And>u. u \<noteq> t \<Longrightarrow> pcs (rc_set s') u = pcs (rc_set s) u \<and> e_pc (rc_epoch s') u = e_pc (rc_epoch s) u"
  proof (cases m)
    case (RWork t)
    from rc_work_cases [OF step [unfolded RWork]] obtain x a where w: "e_pc (rc_epoch s) t = GActive"
      "sched_step (lockfree_program hash d) (Tick t) (rc_set s) = Some x"
      "act_on t a (rc_nodes s) (rc_epoch s) = Some (rc_epoch s')" "rc_set s' = x" by metis
    have "t \<in> T" using busy w(1) by (auto simp: rc_busy_def)
    moreover have "e_pc (rc_epoch s') u = e_pc (rc_epoch s) u" if "u \<noteq> t" for u
      using act_on_step [OF w(3)] e_step_frame(1) [OF _ that] by metis
    ultimately show thesis using tick_pcs(2) [OF w(2)] w(4) by (intro that [of t]) auto
  next
    case (RGuard t b)
    with step obtain e' where e': "e_step t (case e_pc (rc_epoch s) t of TFence e \<Rightarrow> Fenced b | _ \<Rightarrow> Go) (rc_epoch s) = Some e'"
      "s' = s\<lparr>rc_epoch := e'\<rparr>"
      by (auto simp: joint_some simp del: e_step.simps)
    have "e_pc (rc_epoch s) t \<noteq> GIdle" using e'(1) by auto
    with busy e' e_step_frame(1) [OF e'(1)] show thesis by (intro that [of t]) (auto simp: rc_busy_def)
  next
    case (RCall t x)
    with step call show thesis
      by (intro that [of t]) (auto simp: joint_some lockfree_program_def split: if_splits)
  next
    case (RReturn t)
    with step busy show thesis
      by (intro that [of t]) (auto simp: rc_busy_def joint_some lockfree_program_def split: if_splits option.splits)
  next
    case (RThrow t)
    with step show thesis
      by (intro that [of t]) (auto simp: joint_some split: if_splits)
  next
    case (REvict t)
    with step show thesis
      by (intro that [of t]) (auto simp: joint_some split: if_splits)
  qed
  have "joins (rc_epoch s')"
    using rc_step_epoch [OF step] busy e_step_joins by (auto simp: rc_busy_def)
  moreover have "u \<in> T" if "pcs (rc_set s') u \<noteq> HIdle \<or> e_pc (rc_epoch s') u \<noteq> GIdle" for u
    using that t others [of u] busy by (cases "u = t") (auto simp: rc_busy_def)
  ultimately show ?thesis by (auto simp: rc_busy_def)
qed

lemma rc_pace_step:
  assumes step: "rc_step hash d m s = Some s'" and busy: "rc_busy T s" and fin: "finite T"
    and paced: "paced hash (rc_set s) g"
    and m: "(\<exists>t b. m = RGuard t b) \<or> (\<exists>t. m = RWork t) \<or> (\<exists>t. m = REvict t)"
  shows "\<exists>g'. paced hash (rc_set s') g' \<and>
    ((rc_pace T s' g', rc_pace T s g) \<in> rc_less \<or>
     rc_pace T s' g' = rc_pace T s g \<and> (\<exists>t. m = REvict t))"
  using m
proof (elim disjE exE)
  fix t b assume m: "m = RGuard t b"
  with step obtain e' where e': "e_step t (case e_pc (rc_epoch s) t of TFence e \<Rightarrow> Fenced b | _ \<Rightarrow> Go) (rc_epoch s) = Some e'"
    "s' = s\<lparr>rc_epoch := e'\<rparr>"
    by (auto simp: joint_some simp del: e_step.simps)
  have "e_pc (rc_epoch s) t \<noteq> GIdle" using e'(1) by auto
  then have "t \<in> T" "joins (rc_epoch s)" using busy by (auto simp: rc_busy_def)
  from guard_pace [OF fin this e'(1)] paced show ?thesis
    by (intro exI [of _ g]) (simp add: rc_pace_def e'(2))
next
  fix t assume m: "m = RWork t"
  from rc_work_cases [OF step [unfolded m]] obtain x where
    x: "sched_step (lockfree_program hash d) (Tick t) (rc_set s) = Some x" "rc_set s' = x" by metis
  from x(1) obtain sh pc where st: "lf_step hash d (shared (rc_set s)) (pcs (rc_set s) t) = Some (sh, pc)"
    and xs: "x = (rc_set s)\<lparr>shared := sh, pcs := (pcs (rc_set s))(t := pc)\<rparr>"
    unfolding tick_some by blast
  have "pcs (rc_set s) t \<noteq> HIdle" using st by auto
  then have t: "t \<in> T" using busy by (auto simp: rc_busy_def)
  from paced_lowers [OF paced st xs] obtain g' where g': "paced hash x g'"
    "lowers h_budget (\<lambda>(C, P, \<rho>) sh. card (dead (heap (lf_list sh)) C))
       (\<lambda>(C, P, \<rho>) sh. h_rank \<rho> (heap (lf_list sh))) t (rc_set s) g x g'" by blast
  from lowers_pace [OF fin t g'(2)] g'(1) show ?thesis
    by (intro exI [of _ g']) (simp add: rc_pace_def x(2) xs)
next
  fix t assume m: "m = REvict t"
  with step have s': "s' = s\<lparr>rc_epoch := (rc_epoch s)\<lparr>cached := (cached (rc_epoch s))(t := False)\<rparr>\<rparr>"
    by (auto simp: joint_some split: if_splits)
  with paced m show ?thesis by (intro exI [of _ g]) (simp add: rc_pace_def e_pace_def)
qed

lemma construct_busy:
  assumes "construct_reclaimed d t r ic mc = Inr s"
  shows "rc_busy T s"
proof -
  from assms obtain e l where e: "construct_reclaimer r = Inr e"
    and s: "s = \<lparr>rc_set = \<lparr>shared = l, pcs = (\<lambda>_. HIdle)\<rparr>,
      rc_epoch = the (e_run (constructor_guard t) e), rc_nodes = []\<rparr>"
    by (auto simp: construct_reclaimed_def split: sum.splits)
  obtain e' where "e_run (constructor_guard t) e = Some e'" "e_pc e' = (\<lambda>_. GIdle)"
    by (rule constructor_guard_run [OF e])
  then show ?thesis by (simp add: s rc_busy_def joins_def)
qed

text \<open>Without returns and exceptions the threads in an operation only become more.\<close>

lemma busy_grows:
  assumes step: "rc_step hash d m s = Some s'" and none: "\<And>t. m \<noteq> RReturn t" "\<And>t. m \<noteq> RThrow t"
    and call: "\<And>t x. m = RCall t x \<Longrightarrow> t \<in> T"
  shows "{t \<in> T. pcs (rc_set s) t \<noteq> HIdle} \<subseteq> {t \<in> T. pcs (rc_set s') t \<noteq> HIdle} \<and>
    ((\<exists>t x. m = RCall t x) \<longrightarrow>
      {t \<in> T. pcs (rc_set s) t \<noteq> HIdle} \<noteq> {t \<in> T. pcs (rc_set s') t \<noteq> HIdle})"
proof (cases m)
  case (RCall t x)
  with step have "pcs (rc_set s) t = HIdle"
    "pcs (rc_set s') = (pcs (rc_set s))(t := HCapacity x)"
    by (auto simp: joint_some lockfree_program_def split: if_splits)
  with call [OF RCall] RCall show ?thesis by auto
next
  case (RWork t)
  from rc_work_cases [OF step [unfolded RWork]] obtain x where
    "sched_step (lockfree_program hash d) (Tick t) (rc_set s) = Some x" "rc_set s' = x" by metis
  then have "pcs (rc_set s') u \<noteq> HIdle" if "pcs (rc_set s) u \<noteq> HIdle" for u
    using tick_pcs [of hash d t "rc_set s" x] that by (cases "u = t") auto
  with RWork show ?thesis by auto
qed (use step none in \<open>auto simp: joint_some split: if_splits\<close>)

section \<open>Lock-freedom\<close>

text \<open>What holds along an infinite run.\<close>

lemma infinite_run:
  assumes "construct_reclaimed d t0 r initial_capacity max_capacity = Inr (f 0)"
    and "\<forall>k. rc_step hash d (m k) (f k) = Some (f (Suc k))" "\<forall>k t x. m k = RCall t x \<longrightarrow> t \<in> T"
    and "rc_set (f 0) = sys_init (lockfree_program hash d) l"
  shows "rc_busy T (f i)"
    and "\<exists>h. sys_run (lockfree_program hash d) (sys_init (lockfree_program hash d) l) h (rc_set (f i))"
proof -
  show "rc_busy T (f i)"
  proof (induction i)
    case (Suc i)
    show ?case by (rule rc_busy_step [of hash d "m i" "f i", OF _ Suc]) (use assms(2,3) in blast)+
  qed (rule construct_busy [OF assms(1)])
  show "\<exists>h. sys_run (lockfree_program hash d) (sys_init (lockfree_program hash d) l) h (rc_set (f i))"
  proof (induction i)
    case 0
    show ?case unfolding assms(4) by (blast intro: run_start)
  next
    case (Suc i)
    have "rc_step hash d (m i) (f i) = Some (f (Suc i))" using assms(2) by blast
    from rc_step_set [OF this] Suc show ?case by (blast intro: sys_run_trans)
  qed
qed

text \<open>
  C3 (liveness): the set is lock-free together with its memory reclamation. In every infinite run of
  finitely many threads, scheduled in any way, operations return, or leave with the exception of a
  failed \<open>membarrier\<close>, again and again; moves of other reclaimers' guards do not count as progress.
\<close>

theorem reclaimed_progress:
  assumes "construct_reclaimed d t0 r initial_capacity max_capacity = Inr (f 0)"
    and "\<forall>k. rc_step hash d (m k) (f k) = Some (f (Suc k))"
    and "finite T" and "\<forall>k t x. m k = RCall t x \<longrightarrow> t \<in> T"
    and "\<forall>k. \<exists>j \<ge> k. \<forall>t. m j \<noteq> REvict t"
  shows "\<forall>k. \<exists>j \<ge> k. \<exists>t. m j = RReturn t \<or> m j = RThrow t"
proof (rule allI, rule ccontr)
  fix k assume "\<not> (\<exists>j \<ge> k. \<exists>t. m j = RReturn t \<or> m j = RThrow t)"
  then have none: "m j \<noteq> RReturn t" "m j \<noteq> RThrow t" if "k \<le> j" for j t using that by blast+
  obtain l where l: "construct_lockfree d initial_capacity max_capacity = Inr l"
    "rc_set (f 0) = sys_init (lockfree_program hash d) l"
    by (rule construct_reclaimed_inv [OF assms(1)])
  note busy = infinite_run(1) [OF assms(1,2,4) l(2)] and reach = infinite_run(2) [OF assms(1,2,4) l(2)]
  let ?A = "\<lambda>i. {t \<in> T. pcs (rc_set (f i)) t \<noteq> HIdle}"
  have one: "?A i \<subseteq> ?A (Suc i) \<and> ((\<exists>t x. m i = RCall t x) \<longrightarrow> ?A i \<noteq> ?A (Suc i))" if "k \<le> i" for i
    by (rule busy_grows) (use assms(2,4) none that in blast)+
  obtain n where n: "k \<le> n" "\<And>i. n \<le> i \<Longrightarrow> ?A (Suc i) = ?A i"
    using grows_finitely [OF assms(3), of k ?A] one by blast
  obtain g where g: "paced hash (rc_set (f n)) g" using lockfree_paced [OF l(1)] reach by blast
  have "\<exists>i \<ge> n. \<forall>j \<ge> i. \<not> (\<forall>t. m j \<noteq> REvict t)"
  proof (rule falls_finitely [where I = "\<lambda>i g. paced hash (rc_set (f i)) g" and m = "\<lambda>i. rc_pace T (f i)" and R = rc_less and g = g])
    show "wf rc_less" by (intro wf_lex_prod wf_less_than)
    fix i g assume p: "paced hash (rc_set (f i)) g" and i: "n \<le> i"
    have "k \<le> i" using n(1) i by simp
    with one [of i] n(2) [OF i] none [of i]
    have "(\<exists>t b. m i = RGuard t b) \<or> (\<exists>t. m i = RWork t) \<or> (\<exists>t. m i = REvict t)"
      by (cases "m i") auto
    from rc_pace_step [OF _ busy assms(3) p this, of d "f (Suc i)"] assms(2)
    show "\<exists>g'. paced hash (rc_set (f (Suc i))) g' \<and>
        ((rc_pace T (f (Suc i)) g', rc_pace T (f i) g) \<in> rc_less \<or>
         rc_pace T (f (Suc i)) g' = rc_pace T (f i) g \<and> \<not> (\<forall>t. m i \<noteq> REvict t))" by blast
  qed (rule g)
  with assms(5) show False by blast
qed

text \<open>A run that comes back to its first state can be repeated for ever.\<close>

lemma rc_run_take:
  assumes "rc_run hash d ms s = Some (h, s')" "i < length ms"
  shows "\<exists>h1 s1 h2 s2. rc_run hash d (take i ms) s = Some (h1, s1) \<and> rc_step hash d (ms ! i) s1 = Some s2 \<and>
    rc_run hash d (take (Suc i) ms) s = Some (h2, s2)"
  using assms
proof (induction ms arbitrary: s h i)
  case (Cons m ms)
  from Cons.prems(1) obtain s1 h1 where s1: "rc_step hash d m s = Some s1" "rc_run hash d ms s1 = Some (h1, s')"
    by (auto simp del: rc_step.simps split: option.splits)
  show ?case
  proof (cases i)
    case 0
    with s1 show ?thesis by (auto simp del: rc_step.simps)
  next
    case (Suc j)
    with Cons.prems(2) have "j < length ms" by simp
    from Cons.IH [OF s1(2) this] obtain h1 u1 h2 u2 where
      "rc_run hash d (take j ms) s1 = Some (h1, u1)" "rc_step hash d (ms ! j) u1 = Some u2"
      "rc_run hash d (take (Suc j) ms) s1 = Some (h2, u2)" by blast
    with s1(1) Suc show ?thesis by (auto simp del: rc_step.simps)
  qed
qed simp

lemma rc_cycle:
  assumes run: "rc_run hash d ms s = Some (h, s)" and ne: "ms \<noteq> []"
  obtains f where "f 0 = s" "\<And>k. rc_step hash d (ms ! (k mod length ms)) (f k) = Some (f (Suc k))"
proof -
  let ?n = "length ms"
  define f where "f k = snd (the (rc_run hash d (take (k mod ?n) ms) s))" for k
  have "rc_step hash d (ms ! (k mod ?n)) (f k) = Some (f (Suc k))" for k
  proof -
    have lt: "k mod ?n < ?n" using ne by simp
    from rc_run_take [OF run lt] obtain h1 s1 h2 s2 where
      t: "rc_run hash d (take (k mod ?n) ms) s = Some (h1, s1)" "rc_step hash d (ms ! (k mod ?n)) s1 = Some s2"
        "rc_run hash d (take (Suc (k mod ?n)) ms) s = Some (h2, s2)" by blast
    have "f (Suc k) = s2"
    proof (cases "Suc (k mod ?n) = ?n")
      case True
      with t(3) run have "s2 = s" by simp
      with True show ?thesis by (simp add: f_def mod_Suc)
    next
      case False
      with t(3) show ?thesis by (simp add: f_def mod_Suc)
    qed
    with t(1,2) show ?thesis by (simp add: f_def)
  qed
  moreover have "f 0 = s" by (simp add: f_def)
  ultimately show thesis using that by blast
qed

text \<open>The constructing thread looks for ever in the empty set.\<close>

definition rx_cycle :: "nat move list" where
  "rx_cycle = RCall 0 (Contains 0) # rx_enter 0 3 @
     [RWork 0, RWork 0, RWork 0, RWork 0, RWork 0, RReturn 0]"

lemma rx_cycle_run:
  "rc_run of_nat 0 rx_cycle rx_start = Some ([Call 0 (Contains 0), Return 0 False], rx_start)"
  by (simp add: rx_cycle_def rx_moves rx_start_def rx_simps)

lemma rx_cycle_length: "length rx_cycle = 10"
  by (simp add: rx_cycle_def rx_moves)

theorem reclaimed_progress_witness:
  "\<forall>k. \<exists>j \<ge> k. \<exists>t. rx_cycle ! (j mod 10) = RReturn t \<or> rx_cycle ! (j mod 10) = RThrow t"
proof -
  have "rx_cycle \<noteq> []" by (simp add: rx_cycle_def)
  from rc_cycle [OF rx_cycle_run this] obtain f where f: "f 0 = rx_start"
    "\<And>k. rc_step of_nat 0 (rx_cycle ! (k mod 10)) (f k) = Some (f (Suc k))"
    unfolding rx_cycle_length by metis
  have mem: "rx_cycle ! (k mod 10) \<in> set rx_cycle" for k by (rule nth_mem) (simp add: rx_cycle_length)
  have "\<forall>m \<in> set rx_cycle. (\<forall>t x. m = RCall t x \<longrightarrow> t \<in> {0}) \<and> (\<forall>t. m \<noteq> REvict t)"
    by (simp add: rx_cycle_def rx_moves)
  with mem have m: "rx_cycle ! (k mod 10) = RCall t x \<longrightarrow> t \<in> {0}" "rx_cycle ! (k mod 10) \<noteq> REvict u" for k t x u
    by blast+
  show ?thesis
    by (rule reclaimed_progress [where f = f and T = "{0}" and d = 0 and hash = of_nat])
      (use rx_construct f m in auto)
qed

end
