(* ===== verification/ReclaimedStale.thy ===== *)
theory ReclaimedStale
  imports HashSetReclaimed EpochStale
begin

text \<open>
  The window in the constructor of \<open>Guard\<close>, in the whole set: a run in which only \<open>Add\<close>, \<open>Remove\<close> and
  \<open>Contains\<close> are called, and at whose end a thread is in the middle of \<open>Contains\<close> at a node that has
  been freed. Thread 0 is held up in the guard of its \<open>Remove\<close> after it has loaded epoch 0. Thread 2
  adds and removes the number 0 until the epoch is 3. Then it adds 0 once more, thread 1 looks for 0
  and is delayed at its node, and thread 0 goes on: it removes the node, and frees it on entering the
  guard of its next operation.
\<close>

section \<open>Thread 2 at work\<close>

definition toil_tail :: "nat node" where
  "toil_tail = \<lparr>elem = 0, key = kTailKey, nxt = (None, False)\<rparr>"

definition toil_root :: "addr \<Rightarrow> nat node" where
  "toil_root a = \<lparr>elem = 0, key = 0, nxt = (Some a, False)\<rparr>"

text \<open>
  The state of the set while thread 2 is at \<open>pc\<close>, with the heap \<open>h\<close> and \<open>k\<close> elements; and that of the
  reclaimer while it is at \<open>g\<close>, in epoch \<open>e\<close>, with \<open>r\<close> retirements counted.
\<close>

definition toil_set :: "nat hpc \<Rightarrow> nat node list \<Rightarrow> size_t \<Rightarrow> (nat lockfree, nat hpc) sys \<Rightarrow> bool" where
  "toil_set pc h k x \<longleftrightarrow>
     (\<exists>ret. shared x = \<lparr>lf_list = \<lparr>heap = h, retired = ret, deleted = []\<rparr>, lf_buckets = [Some 1, None],
        lf_max_capacity = 2, lf_capacity = 2, lf_set_size = k\<rparr>) \<and>
     pcs x 0 = HCapacity (Remove 0) \<and> pcs x 1 = HIdle \<and> pcs x 2 = pc \<and> 2 \<le> length h \<and> h ! 0 = toil_tail"

definition toil_epoch :: "epc \<Rightarrow> size_t \<Rightarrow> size_t \<Rightarrow> size_t \<Rightarrow> reclaimer \<Rightarrow> bool" where
  "toil_epoch g e ep r E \<longleftrightarrow>
     e_epoch E = e \<and> participants E = [0, 2] \<and> \<not> advancing E \<and>
     e_pc E 0 = GEnter 0 \<and> slot E 0 = new_participant \<and> cached E 0 \<and>
     e_pc E 1 = GIdle \<and> \<not> cached E 1 \<and>
     e_pc E 2 = g \<and> p_epoch (slot E 2) = ep \<and> retires (slot E 2) = r \<and> cached E 2 \<and> e \<noteq> kInactive"

definition toil_nodes :: "nat node list \<Rightarrow> nat reclaimed \<Rightarrow> bool" where
  "toil_nodes h s \<longleftrightarrow> (\<forall>a \<in> set (rc_nodes s). a < length h) \<and> fresh (rc_epoch s) = length (rc_nodes s)"

lemma toil_key: "MakeOrdinaryKey of_nat (0 :: nat) = 1"
  by (rule bit_word_eqI) (auto simp: key_simps bit_1_iff)

lemma toil_tail_key: "1 < kTailKey" "kTailKey \<noteq> 1"
  using ordinary_less_tail [of of_nat "0 :: nat"] by (auto simp: toil_key)

lemma toil_number: "(\<forall>a \<in> set ns. a < n) \<Longrightarrow> node_number (ns @ [n]) n = length ns"
  by (auto simp: node_number_def takeWhile_append)

lemmas toil_simps = toil_key toil_tail_key toil_tail_def toil_root_def lockfree_program_def
  get_bucket_def bucket_found_def l_start_def l_find_def goto_def found_def Matches_def AtOrPast_def
  prepare_node_def cas_next_def mref_cas_def mref_attempt_mark_def set_next_def delete_node_def
  list_done_def retry_def Let_def joint_def Announce_def

lemma toil_replicate:
  "replicate 1 x = [x]" "replicate 2 x = [x, x]" "replicate 3 x = [x, x, x]"
  "replicate 4 x = [x, x, x, x]" "replicate 5 x = [x, x, x, x, x]"
  "replicate 6 x = [x, x, x, x, x, x]" "replicate 7 x = [x, x, x, x, x, x, x]"
  "replicate 8 x = [x, x, x, x, x, x, x, x]"
  by (simp_all add: numeral_eq_Suc)

definition guard_moves :: "tid \<Rightarrow> nat \<Rightarrow> nat move list" where
  "guard_moves t k = replicate k (RGuard t True)"

definition work_moves :: "tid \<Rightarrow> nat \<Rightarrow> nat move list" where
  "work_moves t k = replicate k (RWork t)"

lemmas toil_moves = guard_moves_def work_moves_def toil_replicate

lemma toil_add:
  assumes "toil_set HIdle h 0 (rc_set s)" "h ! 1 = toil_root 0" "toil_nodes h s"
    and "toil_epoch GIdle e kInactive r (rc_epoch s)" "linked (rc_epoch s) = {}"
  shows "\<exists>ev s' h'. rc_run of_nat 0 (RCall 2 (Add 0) # guard_moves 2 3 @ work_moves 2 8 @ [RReturn 2]) s = Some (ev, s') \<and>
    toil_set HIdle h' 1 (rc_set s') \<and> h' ! 1 = toil_root (length h) \<and> length h' = Suc (length h) \<and>
    h' ! length h = \<lparr>elem = 0, key = 1, nxt = (Some 0, False)\<rparr> \<and> rc_nodes s' = rc_nodes s @ [length h] \<and>
    toil_nodes h' s' \<and> toil_epoch GIdle e kInactive r (rc_epoch s') \<and> linked (rc_epoch s') = {length (rc_nodes s)}"
proof -
  obtain ns q where q: "Enter e (slot (rc_epoch s) 2) = (ns, q)" by fastforce
  note g = Enter_fields [OF q]
  note a = assms [unfolded toil_set_def toil_epoch_def toil_nodes_def One_nat_def]
  obtain ret where sh: "shared (rc_set s) = \<lparr>lf_list = \<lparr>heap = h, retired = ret, deleted = []\<rparr>,
      lf_buckets = [Some (Suc 0), None], lf_max_capacity = 2, lf_capacity = 2, lf_set_size = 0\<rparr>"
    using a(1) by blast
  have len: "Suc 0 < length h" "0 < length h" using a(1) by auto
  show ?thesis
    using a sh len q g
    by (simp add: toil_moves toil_simps toil_set_def toil_epoch_def toil_nodes_def nth_append less_SucI Leave_def)
qed

text \<open>The removal, up to the call of \<open>Retire\<close>.\<close>

lemma toil_remove:
  assumes "toil_set HIdle h 1 (rc_set s)" "h ! 1 = toil_root n" "Suc n = length h" "1 < n"
    and "h ! n = \<lparr>elem = 0, key = 1, nxt = (Some 0, False)\<rparr>" "toil_nodes h s"
    and "rc_nodes s = ns @ [n]" "n \<notin> set ns"
    and "toil_epoch GIdle e kInactive r (rc_epoch s)" "linked (rc_epoch s) = {length ns}"
  shows "\<exists>ev s' h'. rc_run of_nat 0 (RCall 2 (Remove 0) # guard_moves 2 3 @ work_moves 2 7) s = Some (ev, s') \<and>
    toil_set (HList (Remove 0) (LDispose n)) h' 1 (rc_set s') \<and> h' ! 1 = toil_root 0 \<and> length h' = length h \<and>
    toil_nodes h' s' \<and> toil_epoch (GRetire (length ns)) e e r (rc_epoch s') \<and> linked (rc_epoch s') = {}"
proof -
  obtain ms q where q: "Enter e (slot (rc_epoch s) 2) = (ms, q)" by fastforce
  note g = Enter_fields [OF q]
  note a = assms [unfolded toil_set_def toil_epoch_def toil_nodes_def One_nat_def]
  obtain ret where sh: "shared (rc_set s) = \<lparr>lf_list = \<lparr>heap = h, retired = ret, deleted = []\<rparr>,
      lf_buckets = [Some (Suc 0), None], lf_max_capacity = 2, lf_capacity = 2, lf_set_size = 1\<rparr>"
    using a(1) by blast
  have len: "Suc 0 < length h" "n < length h" "length h \<noteq> 0" "n \<noteq> 0" using a(3,4) by auto
  have number: "node_number (ns @ [n]) n = length ns"
    using a(8) by (auto simp: node_number_def takeWhile_append)
  show ?thesis
    using a sh len q g number
    by (simp add: toil_moves toil_simps toil_set_def toil_epoch_def toil_nodes_def)
qed

text \<open>\<open>Retire\<close>, without and with an advance of the epoch: thread 0 is not announced, so nothing holds it up.\<close>

lemma toil_retire:
  assumes "toil_epoch (GRetire m) e e r (rc_epoch s)" "r + 1 \<noteq> kRetiresPerAdvance"
  shows "\<exists>s'. rc_run of_nat 0 (guard_moves 2 1) s = Some ([], s') \<and> rc_set s' = rc_set s \<and>
    rc_nodes s' = rc_nodes s \<and> fresh (rc_epoch s') = fresh (rc_epoch s) \<and>
    linked (rc_epoch s') = linked (rc_epoch s) \<and> toil_epoch GActive e e (r + 1) (rc_epoch s')"
proof -
  obtain ns p due where r: "Retire m (slot (rc_epoch s) 2) = (ns, p, due)"
    by (cases "Retire m (slot (rc_epoch s) 2)") auto
  note f = Retire_fields [OF r]
  show ?thesis
    using assms r f by (auto simp: toil_moves toil_epoch_def joint_def)
qed

lemma toil_advance:
  assumes "toil_epoch (GRetire m) e e 1023 (rc_epoch s)" "e + 1 \<noteq> kInactive"
  shows "\<exists>s'. rc_run of_nat 0 (guard_moves 2 14) s = Some ([], s') \<and> rc_set s' = rc_set s \<and>
    rc_nodes s' = rc_nodes s \<and> fresh (rc_epoch s') = fresh (rc_epoch s) \<and>
    linked (rc_epoch s') = linked (rc_epoch s) \<and> toil_epoch GActive (e + 1) e 0 (rc_epoch s')"
proof -
  obtain ns p due where r: "Retire m (slot (rc_epoch s) 2) = (ns, p, due)"
    by (cases "Retire m (slot (rc_epoch s) 2)") auto
  note f = Retire_fields [OF r]
  have due: due and p: "retires p = 0" "p_epoch p = e"
    using assms f by (simp_all add: toil_epoch_def kRetiresPerAdvance_def)
  have fourteen: "replicate 14 (RGuard 2 True) = [RGuard 2 True, RGuard 2 True, RGuard 2 True, RGuard 2 True,
      RGuard 2 True, RGuard 2 True, RGuard 2 True, RGuard 2 True, RGuard 2 True, RGuard 2 True,
      RGuard 2 True, RGuard 2 True, RGuard 2 True, RGuard 2 True :: nat move]"
    by (simp add: numeral_eq_Suc)
  show ?thesis
    using assms r due p
    by (simp add: guard_moves_def fourteen toil_epoch_def joint_def at_epoch_def new_epoch)
qed

text \<open>The end of the removal.\<close>

lemma toil_return:
  assumes "toil_set (HList (Remove 0) (LDispose n)) h 1 (rc_set s)" "toil_epoch GActive e ep r (rc_epoch s)"
  shows "\<exists>ev s'. rc_run of_nat 0 (work_moves 2 2 @ [RReturn 2]) s = Some (ev, s') \<and>
    toil_set HIdle h 0 (rc_set s') \<and> rc_nodes s' = rc_nodes s \<and> fresh (rc_epoch s') = fresh (rc_epoch s) \<and>
    linked (rc_epoch s') = linked (rc_epoch s) \<and> toil_epoch GIdle e kInactive r (rc_epoch s')"
proof -
  note a = assms [unfolded toil_set_def toil_epoch_def One_nat_def]
  obtain ret where sh: "shared (rc_set s) = \<lparr>lf_list = \<lparr>heap = h, retired = ret, deleted = []\<rparr>,
      lf_buckets = [Some (Suc 0), None], lf_max_capacity = 2, lf_capacity = 2, lf_set_size = 1\<rparr>"
    using a(1) by blast
  show ?thesis
    using a sh by (simp add: toil_moves toil_simps toil_set_def toil_epoch_def Leave_def)
qed

section \<open>Three epochs\<close>

definition rc_leads :: "nat reclaimed \<Rightarrow> nat reclaimed \<Rightarrow> bool" where
  "rc_leads s s' \<longleftrightarrow> (\<exists>ms ev. rc_run of_nat 0 ms s = Some (ev, s'))"

lemma rc_leadsI: "rc_run of_nat 0 ms s = Some (ev, s') \<Longrightarrow> rc_leads s s'"
  by (auto simp: rc_leads_def)

lemma rc_leads_trans:
  assumes "rc_leads s1 s2" "rc_leads s2 s3"
  shows "rc_leads s1 s3"
proof -
  have "\<exists>ev. rc_run of_nat 0 (ms @ ns) s1 = Some (ev, s3)"
    if "rc_run of_nat 0 ms s1 = Some (ev1, s2)" "rc_run of_nat 0 ns s2 = Some (ev2, s3)"
    for ms ns ev1 ev2 s1
    using that
  proof (induction ms arbitrary: s1 ev1)
    case (Cons m ms)
    from Cons.prems(1) obtain s' ev' where "rc_step of_nat 0 m s1 = Some s'" "rc_run of_nat 0 ms s' = Some (ev', s2)"
      by (auto simp del: rc_step.simps split: option.splits)
    with Cons.IH [OF this(2) Cons.prems(2)] show ?case by (auto simp del: rc_step.simps)
  qed auto
  with assms show ?thesis unfolding rc_leads_def by blast
qed

definition toiling :: "size_t \<Rightarrow> size_t \<Rightarrow> nat reclaimed \<Rightarrow> bool" where
  "toiling e r s \<longleftrightarrow>
     (\<exists>h. toil_set HIdle h 0 (rc_set s) \<and> h ! 1 = toil_root 0 \<and> toil_nodes h s) \<and>
     toil_epoch GIdle e kInactive r (rc_epoch s) \<and> linked (rc_epoch s) = {}"

text \<open>An addition and a removal, up to \<open>Retire\<close>.\<close>

lemma toil_half:
  assumes "toiling e r s"
  obtains s' h n m where "rc_leads s s'" "toil_set (HList (Remove 0) (LDispose n)) h 1 (rc_set s')"
    "h ! 1 = toil_root 0" "toil_nodes h s'" "toil_epoch (GRetire m) e e r (rc_epoch s')"
    "linked (rc_epoch s') = {}"
proof -
  from assms obtain h where h: "toil_set HIdle h 0 (rc_set s)" "h ! 1 = toil_root 0" "toil_nodes h s"
    "toil_epoch GIdle e kInactive r (rc_epoch s)" "linked (rc_epoch s) = {}" by (auto simp: toiling_def)
  from toil_add [OF this] obtain ev s1 h1 where
    s1: "rc_run of_nat 0 (RCall 2 (Add 0) # guard_moves 2 3 @ work_moves 2 8 @ [RReturn 2]) s = Some (ev, s1)"
      "toil_set HIdle h1 1 (rc_set s1)" "h1 ! 1 = toil_root (length h)" "Suc (length h) = length h1"
      "h1 ! length h = \<lparr>elem = 0, key = 1, nxt = (Some 0, False)\<rparr>" "toil_nodes h1 s1"
      "rc_nodes s1 = rc_nodes s @ [length h]"
      "toil_epoch GIdle e kInactive r (rc_epoch s1)" "linked (rc_epoch s1) = {length (rc_nodes s)}" by metis
  have n: "1 < length h" "length h \<notin> set (rc_nodes s)" using h(1,3) by (auto simp: toil_set_def toil_nodes_def)
  from toil_remove [OF s1(2-4) n(1) s1(5-7) n(2) s1(8,9)] obtain ev' s2 h2 where
    s2: "rc_run of_nat 0 (RCall 2 (Remove 0) # guard_moves 2 3 @ work_moves 2 7) s1 = Some (ev', s2)"
      "toil_set (HList (Remove 0) (LDispose (length h))) h2 1 (rc_set s2)" "h2 ! 1 = toil_root 0"
      "toil_nodes h2 s2" "toil_epoch (GRetire (length (rc_nodes s))) e e r (rc_epoch s2)"
      "linked (rc_epoch s2) = {}" by blast
  have "rc_leads s s2" by (rule rc_leads_trans [OF rc_leadsI [OF s1(1)] rc_leadsI [OF s2(1)]])
  then show thesis using s2(2-6) by (rule that)
qed

lemma toil_rest:
  assumes "toil_set (HList (Remove 0) (LDispose n)) h 1 (rc_set s)" "h ! 1 = toil_root 0" "toil_nodes h s"
    and "toil_epoch GActive e ep r (rc_epoch s)" "linked (rc_epoch s) = {}"
  shows "\<exists>s'. rc_leads s s' \<and> toiling e r s'"
proof -
  from toil_return [OF assms(1,4)] obtain ev s' where
    s': "rc_run of_nat 0 (work_moves 2 2 @ [RReturn 2]) s = Some (ev, s')" "toil_set HIdle h 0 (rc_set s')"
      "rc_nodes s' = rc_nodes s" "fresh (rc_epoch s') = fresh (rc_epoch s)"
      "linked (rc_epoch s') = linked (rc_epoch s)" "toil_epoch GIdle e kInactive r (rc_epoch s')" by blast
  have "toil_nodes h s'" using assms(3) s'(3,4) by (simp add: toil_nodes_def)
  with s' assms(2,5) rc_leadsI [OF s'(1)] show ?thesis by (auto simp: toiling_def)
qed

lemma toil_round:
  assumes "toiling e r s" "r + 1 \<noteq> kRetiresPerAdvance"
  shows "\<exists>s'. rc_leads s s' \<and> toiling e (r + 1) s'"
proof -
  obtain s1 h n m where s1: "rc_leads s s1" "toil_set (HList (Remove 0) (LDispose n)) h 1 (rc_set s1)"
    "h ! 1 = toil_root 0" "toil_nodes h s1" "toil_epoch (GRetire m) e e r (rc_epoch s1)"
    "linked (rc_epoch s1) = {}" by (rule toil_half [OF assms(1)])
  from toil_retire [OF s1(5) assms(2)] obtain s2 where
    s2: "rc_run of_nat 0 (guard_moves 2 1) s1 = Some ([], s2)" "rc_set s2 = rc_set s1" "rc_nodes s2 = rc_nodes s1"
      "fresh (rc_epoch s2) = fresh (rc_epoch s1)" "linked (rc_epoch s2) = linked (rc_epoch s1)"
      "toil_epoch GActive e e (r + 1) (rc_epoch s2)" by blast
  have "\<exists>s'. rc_leads s2 s' \<and> toiling e (r + 1) s'"
    by (rule toil_rest [where h = h and n = n and ep = e]) (use s1 s2 in \<open>simp_all add: toil_nodes_def\<close>)
  with rc_leads_trans [OF s1(1) rc_leadsI [OF s2(1)]] show ?thesis using rc_leads_trans by blast
qed

lemma toil_epochs:
  assumes "toiling e 0 s" "e + 1 \<noteq> kInactive"
  shows "\<exists>s'. rc_leads s s' \<and> toiling (e + 1) 0 s'"
proof -
  have "\<exists>s'. rc_leads s s' \<and> toiling e (of_nat k) s'" if "k < 1024" for k
    using that
  proof (induction k)
    case 0
    have "rc_leads s s" by (rule rc_leadsI [of "[]"]) simp
    with assms(1) show ?case by auto
  next
    case (Suc k)
    then obtain s1 where s1: "rc_leads s s1" "toiling e (of_nat k) s1" by auto
    have "unat (of_nat (k + 1) :: size_t) = k + 1"
      by (rule unat_of_nat_size) (use Suc.prems in simp)
    then have "(of_nat k :: size_t) + 1 \<noteq> kRetiresPerAdvance"
      using Suc.prems unat_kRetires by (metis Suc_eq_plus1 add.commute less_irrefl of_nat_Suc)
    from toil_round [OF s1(2) this] show ?case
      using rc_leads_trans [OF s1(1)] by (auto simp: add.commute)
  qed
  from this [of 1023] obtain s1 where s1: "rc_leads s s1" "toiling e 1023 s1" by auto
  obtain s2 h n m where s2: "rc_leads s1 s2" "toil_set (HList (Remove 0) (LDispose n)) h 1 (rc_set s2)"
    "h ! 1 = toil_root 0" "toil_nodes h s2" "toil_epoch (GRetire m) e e 1023 (rc_epoch s2)"
    "linked (rc_epoch s2) = {}" by (rule toil_half [OF s1(2)])
  from toil_advance [OF s2(5) assms(2)] obtain s3 where
    s3: "rc_run of_nat 0 (guard_moves 2 14) s2 = Some ([], s3)" "rc_set s3 = rc_set s2" "rc_nodes s3 = rc_nodes s2"
      "fresh (rc_epoch s3) = fresh (rc_epoch s2)" "linked (rc_epoch s3) = linked (rc_epoch s2)"
      "toil_epoch GActive (e + 1) e 0 (rc_epoch s3)" by blast
  have "\<exists>s'. rc_leads s3 s' \<and> toiling (e + 1) 0 s'"
    by (rule toil_rest [where h = h and n = n and ep = e])
      (use s2 s3 assms(2) in \<open>simp_all add: toil_nodes_def\<close>)
  with s1(1) s2(1) rc_leadsI [OF s3(1)] show ?thesis using rc_leads_trans by blast
qed

section \<open>The beginning and the end\<close>

lemma toil_start:
  obtains s0 s where "construct_reclaimed 0 2 True 2 2 = Inr s0" "rc_leads s0 s" "toiling 0 0 s"
proof -
  have two: "replicate 2 None = [None, None :: addr option]" by (simp add: numeral_eq_Suc)
  let ?l = "\<lparr>lf_list = \<lparr>heap = [toil_tail, toil_root 0], retired = [], deleted = []\<rparr>, lf_buckets = [Some 1, None],
      lf_max_capacity = 2, lf_capacity = 2, lf_set_size = 0\<rparr>"
  have l: "construct_lockfree 0 2 2 = Inr ?l"
    by (simp add: construct_lockfree_def not_pow2_def MakeRoot_def toil_tail_def toil_root_def two
        kMaxBuckets_def kKeyMask_def kKeyBits_def)
  obtain e0 where e0: "construct_reclaimer True = Inr e0" by (simp add: construct_reclaimer_def)
  have new: "Enter 0 new_participant = ([], new_participant)" "p_epoch new_participant = kInactive"
    "retires new_participant = 0" "(0 :: size_t) \<noteq> kInactive"
    by (simp_all add: Enter_def new_participant_def kInactive_def)
  obtain e1 where e1: "e_run (constructor_guard 2) e0 = Some e1" "e_epoch e1 = 0" "participants e1 = [2]"
      "\<not> advancing e1" "\<forall>t. e_pc e1 t = GIdle" "slot e1 2 = Leave (Announce 0 new_participant)" "\<forall>t. cached e1 t \<longleftrightarrow> t = 2"
      "linked e1 = {}" "fresh e1 = 0"
    using e0 new by (auto simp: construct_reclaimer_def constructor_guard_def new_epoch)
  let ?s0 = "\<lparr>rc_set = \<lparr>shared = ?l, pcs = (\<lambda>_. HIdle)\<rparr>, rc_epoch = e1, rc_nodes = []\<rparr>"
  have s0: "construct_reclaimed 0 2 True 2 2 = Inr ?s0"
    by (simp add: construct_reclaimed_def e0 l e1(1))
  have "\<exists>ev s. rc_run of_nat 0 (RCall 0 (Remove 0) # guard_moves 0 4) ?s0 = Some (ev, s) \<and> toiling 0 0 s"
    using e1(2-) new
    by (simp add: toil_moves toil_simps toiling_def Leave_def toil_set_def toil_epoch_def toil_nodes_def)
  with s0 show thesis using that rc_leadsI by blast
qed

definition last_moves :: "nat move list" where
  "last_moves =
     (RCall 1 (Contains 0) # guard_moves 1 6 @ work_moves 1 3) @
     (guard_moves 0 2 @ work_moves 0 7 @ guard_moves 0 1 @ work_moves 0 2 @ [RReturn 0]) @
     (RCall 0 (Contains 0) # guard_moves 0 2)"

lemma toil_last:
  assumes "toil_set HIdle h 1 (rc_set s)" "h ! 1 = toil_root n" "Suc n = length h" "1 < n"
    and "h ! n = \<lparr>elem = 0, key = 1, nxt = (Some 0, False)\<rparr>" "toil_nodes h s"
    and "rc_nodes s = ns @ [n]" "n \<notin> set ns"
    and "toil_epoch GIdle 3 kInactive 0 (rc_epoch s)" "linked (rc_epoch s) = {length ns}"
  shows "\<exists>ev s'. rc_run of_nat 0 last_moves s = Some (ev, s') \<and> e_pc (rc_epoch s') 1 = GActive \<and>
    pcs (rc_set s') 1 = HList (Contains 0) (LLook 0 n) \<and> rc_nodes s' = rc_nodes s \<and>
    length ns \<in> set (freed (rc_epoch s')) \<and> n < length (heap (lf_list (shared (rc_set s'))))"
proof -
  obtain ms q where q: "Enter 3 new_participant = (ms, q)" by fastforce
  obtain ks r where r: "Enter 3 (Leave (stale_participant (length ns))) = (ks, r)" by fastforce
  with stale_collect [of "length ns"] have ks: "ks = [length ns]" by simp
  have zero: "Enter 0 new_participant = ([], new_participant)" by (simp add: Enter_def new_participant_def)
  note ret = stale_retire [of "length ns"]
  have left: "p_epoch (Leave (stale_participant (length ns))) = kInactive" "p_epoch new_participant = kInactive"
    "kInactive \<noteq> 0"
    by (simp_all add: Leave_def new_participant_def kInactive_def)
  note a = assms [unfolded toil_set_def toil_epoch_def toil_nodes_def One_nat_def]
  obtain rs where sh: "shared (rc_set s) = \<lparr>lf_list = \<lparr>heap = h, retired = rs, deleted = []\<rparr>,
      lf_buckets = [Some (Suc 0), None], lf_max_capacity = 2, lf_capacity = 2, lf_set_size = 1\<rparr>"
    using a(1) by blast
  have len: "Suc 0 < length h" "n < length h" "length h \<noteq> 0" "n \<noteq> 0" using a(3,4) by auto
  have number: "node_number (ns @ [n]) n = length ns"
    using a(8) by (auto simp: node_number_def takeWhile_append)
  show ?thesis
    using a sh len q r ks zero ret left number
    by (simp add: last_moves_def toil_moves toil_simps jump_def put_def)
qed

section \<open>Property\<close>

text \<open>
  C13 (safety): the set can use a freed node. There is a run, from the constructor, of three threads
  that only call \<open>Add\<close>, \<open>Remove\<close> and \<open>Contains\<close>, at whose end the reclaimer has freed the node at the
  address \<open>a\<close>, and thread 1, inside its guard, is about to load \<open>next\<close> of the node at \<open>a\<close> in \<open>Contains\<close>;
  its step is not refused. It is a run with a guard that announces an epoch that is no longer current.
\<close>

theorem set_uses_freed_node:
  "\<exists>s0 ms h s a. construct_reclaimed 0 2 True 2 2 = Inr s0 \<and> rc_run of_nat (0 :: nat) ms s0 = Some (h, s) \<and>
     inside (e_pc (rc_epoch s) 1) \<and> pcs (rc_set s) 1 = HList (Contains 0) (LLook 0 a) \<and>
     a \<in> set (freed_nodes s) \<and> rc_step of_nat 0 (RWork 1) s \<noteq> None"
proof -
  obtain s0 sa where a: "construct_reclaimed 0 2 True 2 2 = Inr s0" "rc_leads s0 sa" "toiling 0 0 sa"
    by (rule toil_start)
  have ne: "(0 :: size_t) + 1 \<noteq> kInactive" "(1 :: size_t) + 1 \<noteq> kInactive" "(2 :: size_t) + 1 \<noteq> kInactive"
    by code_simp+
  from toil_epochs [OF a(3) ne(1)] obtain sb where b: "rc_leads sa sb" "toiling 1 0 sb" by auto
  from toil_epochs [OF b(2) ne(2)] obtain sc where c: "rc_leads sb sc" "toiling 2 0 sc" by auto
  from toil_epochs [OF c(2) ne(3)] obtain sd where d: "rc_leads sc sd" "toiling 3 0 sd" by auto
  from d(2) obtain h where h: "toil_set HIdle h 0 (rc_set sd)" "h ! 1 = toil_root 0" "toil_nodes h sd"
    "toil_epoch GIdle 3 kInactive 0 (rc_epoch sd)" "linked (rc_epoch sd) = {}" by (auto simp: toiling_def)
  from toil_add [OF this] obtain ev se g where
    e: "rc_run of_nat 0 (RCall 2 (Add 0) # guard_moves 2 3 @ work_moves 2 8 @ [RReturn 2]) sd = Some (ev, se)"
      "toil_set HIdle g 1 (rc_set se)" "g ! 1 = toil_root (length h)" "Suc (length h) = length g"
      "g ! length h = \<lparr>elem = 0, key = 1, nxt = (Some 0, False)\<rparr>" "toil_nodes g se"
      "rc_nodes se = rc_nodes sd @ [length h]"
      "toil_epoch GIdle 3 kInactive 0 (rc_epoch se)" "linked (rc_epoch se) = {length (rc_nodes sd)}" by metis
  have n: "1 < length h" "length h \<notin> set (rc_nodes sd)" using h(1,3) by (auto simp: toil_set_def toil_nodes_def)
  from toil_last [OF e(2-4) n(1) e(5-7) n(2) e(8,9)] obtain ev' s where
    s: "rc_run of_nat 0 last_moves se = Some (ev', s)" "e_pc (rc_epoch s) 1 = GActive"
      "pcs (rc_set s) 1 = HList (Contains 0) (LLook 0 (length h))" "rc_nodes s = rc_nodes se"
      "length (rc_nodes sd) \<in> set (freed (rc_epoch s))"
      "length h < length (heap (lf_list (shared (rc_set s))))" by blast
  have "rc_nodes s ! length (rc_nodes sd) \<in> set (freed_nodes s)"
    using s(5) by (auto simp: freed_nodes_def)
  then have "length h \<in> set (freed_nodes s)" using s(4) e(7) by simp
  moreover have "rc_step of_nat 0 (RWork 1) s \<noteq> None"
    using s(2,3) by (simp add: joint_def lockfree_program_def split: prod.split option.split)
  moreover have "rc_leads s0 s"
    using a(2) b(1) c(1) d(1) rc_leadsI [OF e(1)] rc_leadsI [OF s(1)] rc_leads_trans by blast
  moreover have "inside (e_pc (rc_epoch s) 1)" using s(2) by simp
  ultimately show ?thesis using a(1) s(3) unfolding rc_leads_def by blast
qed

end
