(* ===== verification/BucketTable.thy ===== *)
theory BucketTable
  imports Prelude
begin

text \<open>
  The table of buckets that \<open>HashSetSequential.h\<close>, \<open>HashSetCoarseGrained.h\<close>, \<open>HashSetStriped.h\<close> and
  \<open>HashSetRefinable.h\<close> share: a vector of vectors, in which an element is in the bucket of its hash
  modulo the number of buckets. The operations are the code's, on the bucket an index names; the
  invariant \<open>table_ok\<close> says that every element is in its bucket, once.
\<close>

section \<open>Buckets\<close>

definition bucket_index :: "('a \<Rightarrow> size_t) \<Rightarrow> size_t \<Rightarrow> 'a \<Rightarrow> nat" where
  "bucket_index hash capacity e = unat (hash e mod capacity)"

definition push_bucket :: "nat \<Rightarrow> 'a \<Rightarrow> 'a list list \<Rightarrow> 'a list list" where
  "push_bucket i e T = T[i := push_back (T ! i) e]"

definition erase_bucket :: "nat \<Rightarrow> nat \<Rightarrow> 'a list list \<Rightarrow> 'a list list" where
  "erase_bucket i k T = T[i := vec_erase k (T ! i)]"

text \<open>The loops of \<open>Resize\<close>: one bucket, and the rest of them, into the new table.\<close>

fun move_bucket :: "('a \<Rightarrow> size_t) \<Rightarrow> size_t \<Rightarrow> 'a list \<Rightarrow> 'a list list \<Rightarrow> 'a list list" where
  "move_bucket hash c [] nt = nt"
| "move_bucket hash c (e # es) nt =
     move_bucket hash c es (push_bucket (bucket_index hash c e) e nt)"

fun move_buckets :: "('a \<Rightarrow> size_t) \<Rightarrow> size_t \<Rightarrow> 'a list list \<Rightarrow> 'a list list \<Rightarrow> 'a list list" where
  "move_buckets hash c [] nt = nt"
| "move_buckets hash c (b # bs) nt = move_buckets hash c bs (move_bucket hash c b nt)"

section \<open>The invariant\<close>

definition contents :: "'a list list \<Rightarrow> 'a set" where
  "contents T = set (concat T)"

definition buckets_ok :: "('a \<Rightarrow> size_t) \<Rightarrow> size_t \<Rightarrow> 'a list list \<Rightarrow> bool" where
  "buckets_ok hash c T \<longleftrightarrow>
     length T = unat c \<and>
     (\<forall>i < length T. distinct (T ! i) \<and> (\<forall>e \<in> set (T ! i). bucket_index hash c e = i))"

definition table_ok :: "('a \<Rightarrow> size_t) \<Rightarrow> 'a list list \<Rightarrow> bool" where
  "table_ok hash T \<longleftrightarrow>
     0 < length T \<and> length T \<le> vec_max \<and> buckets_ok hash (of_nat (length T)) T"

lemma bucket_index_less: "c \<noteq> 0 \<Longrightarrow> bucket_index hash c e < unat c"
  by (simp add: bucket_index_def unat_mod unat_gt_0)

lemma finite_contents [simp]: "finite (contents T)"
  by (simp add: contents_def)

lemma contents_nth: "contents T = (\<Union>i < length T. set (T ! i))"
  by (fastforce simp: contents_def in_set_conv_nth)

lemma contents_replicate [simp]: "contents (replicate n []) = {}"
  by (auto simp: contents_def)

lemma contents_update:
  "i < length T \<Longrightarrow> contents (T[i := b]) = (\<Union>j \<in> {..<length T} - {i}. set (T ! j)) \<union> set b"
proof -
  assume i: "i < length T"
  then have all: "{..<length T} = insert i ({..<length T} - {i})" by blast
  have "contents (T[i := b]) = (\<Union>j < length T. set (T[i := b] ! j))" by (simp add: contents_nth)
  also have "\<dots> = (\<Union>j \<in> insert i ({..<length T} - {i}). set (T[i := b] ! j))"
    by (rule SUP_cong [OF all]) simp
  also have "\<dots> = (\<Union>j \<in> {..<length T} - {i}. set (T[i := b] ! j)) \<union> set b"
    unfolding UN_insert nth_list_update_eq [OF i] by (rule Un_commute)
  also have "(\<Union>j \<in> {..<length T} - {i}. set (T[i := b] ! j)) = (\<Union>j \<in> {..<length T} - {i}. set (T ! j))"
    by (rule SUP_cong) simp_all
  finally show ?thesis .
qed

lemma contents_split:
  "i < length T \<Longrightarrow> contents T = (\<Union>j \<in> {..<length T} - {i}. set (T ! j)) \<union> set (T ! i)"
  using contents_update [of i T "T ! i"] by simp

lemma buckets_okD:
  assumes "buckets_ok hash c T" "i < length T"
  shows "distinct (T ! i)" "e \<in> set (T ! i) \<Longrightarrow> bucket_index hash c e = i"
  using assms by (auto simp: buckets_ok_def)

lemma in_contents:
  assumes "buckets_ok hash c T" "c \<noteq> 0"
  shows "e \<in> contents T \<longleftrightarrow> e \<in> set (T ! bucket_index hash c e)"
proof -
  have "bucket_index hash c e < length T"
    using assms bucket_index_less [OF assms(2), of hash e] by (simp add: buckets_ok_def)
  then show ?thesis using buckets_okD(2) [OF assms(1)] by (auto simp: contents_nth)
qed

lemma buckets_ok_update:
  assumes "buckets_ok hash c T" "distinct b" "\<And>e. e \<in> set b \<Longrightarrow> bucket_index hash c e = i"
  shows "buckets_ok hash c (T[i := b])"
  unfolding buckets_ok_def
proof (intro conjI allI impI)
  show "length (T[i := b]) = unat c" using assms(1) by (simp add: buckets_ok_def)
  fix j assume j: "j < length (T[i := b])"
  with buckets_okD [OF assms(1), of j] assms(2,3)
  show "distinct (T[i := b] ! j)" "\<forall>e \<in> set (T[i := b] ! j). bucket_index hash c e = j"
    by (cases "j = i", auto)+
qed

lemma buckets_ok_empty: "buckets_ok hash c (replicate (unat c) [])"
  by (simp add: buckets_ok_def)

text \<open>Small tables, for the evaluation of examples.\<close>

lemma replicate_small: "replicate 2 x = [x, x]" "replicate 4 x = [x, x, x, x]"
  by (simp_all add: eval_nat_numeral)

section \<open>What the operations do\<close>

lemma length_push_bucket [simp]: "length (push_bucket i e T) = length T"
  by (simp add: push_bucket_def)

lemma length_erase_bucket [simp]: "length (erase_bucket i k T) = length T"
  by (simp add: erase_bucket_def)

lemma push_bucket_other: "j \<noteq> i \<Longrightarrow> push_bucket i e T ! j = T ! j"
  by (simp add: push_bucket_def)

lemma erase_bucket_other: "j \<noteq> i \<Longrightarrow> erase_bucket i k T ! j = T ! j"
  by (simp add: erase_bucket_def)

lemma push_bucket_ok:
  assumes "buckets_ok hash c T" "c \<noteq> 0" "i = bucket_index hash c e" "e \<notin> set (T ! i)"
  shows "buckets_ok hash c (push_bucket i e T) \<and> contents (push_bucket i e T) = insert e (contents T)"
proof
  have i: "i < length T" using assms bucket_index_less by (auto simp: buckets_ok_def)
  show "buckets_ok hash c (push_bucket i e T)" unfolding push_bucket_def
    by (rule buckets_ok_update [OF assms(1)])
      (use assms buckets_okD [OF assms(1) i] in auto)
  show "contents (push_bucket i e T) = insert e (contents T)"
    using i by (simp add: push_bucket_def contents_update contents_split [OF i])
qed

lemma erase_bucket_ok:
  assumes "buckets_ok hash c T" "c \<noteq> 0" "i = bucket_index hash c e" "k = ranges_find e (T ! i)"
  shows "buckets_ok hash c (erase_bucket i k T) \<and> contents (erase_bucket i k T) = contents T - {e}"
proof
  have i: "i < length T" using assms bucket_index_less by (auto simp: buckets_ok_def)
  have b: "distinct (T ! i)" "\<And>x. x \<in> set (T ! i) \<Longrightarrow> bucket_index hash c x = i"
    using buckets_okD [OF assms(1) i] by blast+
  show "buckets_ok hash c (erase_bucket i k T)"
    unfolding erase_bucket_def assms(4) erase_found
    by (rule buckets_ok_update [OF assms(1)])
      (use b in \<open>auto dest: notin_set_remove1\<close>)
  have "e \<notin> set (T ! j)" if "j < length T" "j \<noteq> i" for j
    using that buckets_okD(2) [OF assms(1) that(1)] assms(3) by blast
  then show "contents (erase_bucket i k T) = contents T - {e}"
    unfolding erase_bucket_def assms(4) erase_found
    using i b(1) by (auto simp: contents_update contents_split [OF i] set_remove1_eq)
qed

lemma move_bucket_ok:
  assumes "buckets_ok hash c nt" "c \<noteq> 0" "distinct b" "set b \<inter> contents nt = {}"
  shows "buckets_ok hash c (move_bucket hash c b nt) \<and>
    contents (move_bucket hash c b nt) = contents nt \<union> set b"
  using assms(1,3,4)
proof (induction b arbitrary: nt)
  case (Cons e es)
  have "e \<notin> set (nt ! bucket_index hash c e)"
    using Cons.prems(3) in_contents [OF Cons.prems(1) assms(2), of e] by simp
  with push_bucket_ok [OF Cons.prems(1) assms(2) refl]
  have "buckets_ok hash c (push_bucket (bucket_index hash c e) e nt)"
    "contents (push_bucket (bucket_index hash c e) e nt) = insert e (contents nt)" by blast+
  with Cons.IH [of "push_bucket (bucket_index hash c e) e nt"] Cons.prems(2,3) show ?case by auto
qed simp

lemma move_buckets_ok:
  assumes "buckets_ok hash c nt" "c \<noteq> 0" "distinct (concat bs)" "contents bs \<inter> contents nt = {}"
  shows "buckets_ok hash c (move_buckets hash c bs nt) \<and>
    contents (move_buckets hash c bs nt) = contents nt \<union> contents bs"
  using assms(1,3,4)
proof (induction bs arbitrary: nt)
  case (Cons b bs)
  have "buckets_ok hash c (move_bucket hash c b nt)"
    "contents (move_bucket hash c b nt) = contents nt \<union> set b"
    using move_bucket_ok [OF Cons.prems(1) assms(2), of b] Cons.prems(2,3)
    by (auto simp: contents_def)
  moreover have "contents (b # bs) = set b \<union> contents bs" by (simp add: contents_def)
  moreover have "distinct (concat bs)" "set b \<inter> contents bs = {}"
    using Cons.prems(2) by (simp_all add: contents_def)
  ultimately show ?case using Cons.IH [of "move_bucket hash c b nt"] Cons.prems(3) by auto
qed (simp add: contents_def)

lemma distinct_buckets: "buckets_ok hash c T \<Longrightarrow> distinct (concat T)"
proof -
  assume ok: "buckets_ok hash c T"
  have disj: "set (T ! i) \<inter> set (T ! j) = {}" if "i < length T" "j < length T" "i \<noteq> j" for i j
    using that buckets_okD(2) [OF ok] by blast
  have "distinct (concat bs)"
    if "\<And>i. i < length bs \<Longrightarrow> distinct (bs ! i)"
      "\<And>i j. i < length bs \<Longrightarrow> j < length bs \<Longrightarrow> i \<noteq> j \<Longrightarrow> set (bs ! i) \<inter> set (bs ! j) = {}"
    for bs :: "'a list list"
    using that
  proof (induction bs)
    case (Cons b bs)
    have "set b \<inter> set (concat bs) = {}"
      using Cons.prems(2) [of 0 "Suc j" for j] by (fastforce simp: in_set_conv_nth)
    moreover have "distinct (concat bs)"
    proof (rule Cons.IH)
      show "distinct (bs ! i)" if "i < length bs" for i using Cons.prems(1) [of "Suc i"] that by simp
      show "set (bs ! i) \<inter> set (bs ! j) = {}" if "i < length bs" "j < length bs" "i \<noteq> j" for i j
        using Cons.prems(2) [of "Suc i" "Suc j"] that by simp
    qed
    moreover have "distinct b" using Cons.prems(1) [of 0] by simp
    ultimately show ?case by simp
  qed simp
  then show ?thesis using buckets_okD(1) [OF ok] disj by blast
qed

text \<open>One bucket of a table moves to a new one that has all the buckets before it.\<close>

lemma move_one:
  assumes "buckets_ok hash c T" "k < length T" "buckets_ok hash d nt" "d \<noteq> 0"
    and "contents nt = contents (take k T)"
  shows "buckets_ok hash d (move_bucket hash d (T ! k) nt) \<and>
    contents (move_bucket hash d (T ! k) nt) = contents (take (Suc k) T)"
proof -
  have "set (T ! k) \<inter> set (T ! j) = {}" if "j < k" for j
    using buckets_okD(2) [OF assms(1), of k] buckets_okD(2) [OF assms(1), of j] that assms(2) by fastforce
  then have "set (T ! k) \<inter> contents nt = {}"
    unfolding assms(5) contents_nth [of "take k T"] using assms(2) by auto
  from move_bucket_ok [OF assms(3,4) buckets_okD(1) [OF assms(1,2)] this] show ?thesis
    using assms(2,5) by (auto simp: take_Suc_conv_app_nth contents_def)
qed

lemma length_move_bucket [simp]: "length (move_bucket hash c b nt) = length nt"
  by (induction b arbitrary: nt) simp_all

section \<open>The table of a capacity\<close>

lemma table_okD:
  assumes "table_ok hash T"
  shows "buckets_ok hash (of_nat (length T)) T" "(of_nat (length T) :: size_t) \<noteq> 0"
    "unat (of_nat (length T) :: size_t) = length T" "4 * length T < 2 ^ 64" "0 < length T"
proof -
  from assms show len: "4 * length T < 2 ^ 64" and "0 < length T"
    and "buckets_ok hash (of_nat (length T)) T"
    using vec_max_bounds(2) by (auto simp: table_ok_def)
  show "unat (of_nat (length T) :: size_t) = length T" by (rule unat_of_nat_size) (use len in simp)
  with \<open>0 < length T\<close> show "(of_nat (length T) :: size_t) \<noteq> 0" by (metis unat_0 less_irrefl)
qed

lemma table_ok_of:
  assumes "buckets_ok hash c T" "unat c \<le> vec_max" "c \<noteq> 0"
  shows "table_ok hash T"
  using assms unat_gt_0 [of c] by (simp add: table_ok_def buckets_ok_def)

lemma table_ok_new:
  "c \<noteq> 0 \<Longrightarrow> unat c \<le> vec_max \<Longrightarrow> table_ok hash (replicate (unat (c :: size_t)) [])"
  by (rule table_ok_of [of hash c]) (simp_all add: buckets_ok_empty)

lemma table_ok_push:
  assumes "table_ok hash T" "i = bucket_index hash (of_nat (length T)) e" "e \<notin> set (T ! i)"
  shows "table_ok hash (push_bucket i e T) \<and> contents (push_bucket i e T) = insert e (contents T)"
  using push_bucket_ok [OF table_okD(1,2) [OF assms(1)] assms(2,3)] assms(1)
  by (simp add: table_ok_def)

lemma table_ok_erase:
  assumes "table_ok hash T" "i = bucket_index hash (of_nat (length T)) e" "k = ranges_find e (T ! i)"
  shows "table_ok hash (erase_bucket i k T) \<and> contents (erase_bucket i k T) = contents T - {e}"
  using erase_bucket_ok [OF table_okD(1,2) [OF assms(1)] assms(2,3)] assms(1)
  by (simp add: table_ok_def)

lemma in_table:
  assumes "table_ok hash T"
  shows "e \<in> contents T \<longleftrightarrow> e \<in> set (T ! bucket_index hash (of_nat (length T)) e)"
    "bucket_index hash (of_nat (length T)) e < length T"
  using in_contents [OF table_okD(1,2) [OF assms]] bucket_index_less [OF table_okD(2) [OF assms]]
    table_okD(3) [OF assms] by auto

text \<open>Doubling: what the words say about the numbers.\<close>

lemma double_length:
  assumes "table_ok hash T"
  shows "unat (2 * of_nat (length T) :: size_t) = 2 * length T" "(2 * of_nat (length T) :: size_t) \<noteq> 0"
proof -
  show "unat (2 * of_nat (length T) :: size_t) = 2 * length T"
    using table_okD(3,4) [OF assms] by (simp add: unat_word_ariths)
  with table_okD(5) [OF assms] show "(2 * of_nat (length T) :: size_t) \<noteq> 0"
    by (metis unat_0 mult_is_0 less_irrefl zero_neq_numeral)
qed

lemma load_limit:
  assumes "table_ok hash T"
  shows "unat (of_nat (length T) * 3 div 4 :: size_t) = length T * 3 div 4"
proof -
  have "unat (of_nat (length T) * 3 :: size_t) = length T * 3"
    using table_okD(3,4) [OF assms] by (simp add: unat_word_ariths)
  then show ?thesis by (simp add: unat_div)
qed

end
