(* ===== verification/HashSetSequential.thy ===== *)
theory HashSetSequential
  imports HashSetBase BucketTable
begin

text \<open>
  \<open>HashSetSequential.h\<close>: the set for one thread, a table of buckets that doubles when the number of
  elements exceeds three quarters of the number of buckets. \<open>hash\<close> is \<open>std::hash<T>\<close>. An operation may
  throw \<open>std::length_error\<close>, when the table cannot double; the state in the exception is the one the
  set is left in. The model provides the interface \<open>hash_set\<close>.
\<close>

section \<open>State and operations\<close>

record 'a sequential =
  sq_table :: "'a list list"
  sq_set_size :: size_t

definition sq_load_factor_numerator :: size_t where
  "sq_load_factor_numerator = 3"

definition sq_load_factor_denominator :: size_t where
  "sq_load_factor_denominator = 4"

definition construct_sequential :: "size_t \<Rightarrow> exn + 'a sequential" where
  "construct_sequential initial_capacity =
     (let c = max 1 initial_capacity
      in if vec_max < unat c then Inl Length_error
         else Inr \<lparr>sq_table = replicate (unat c) [], sq_set_size = 0\<rparr>)"

text \<open>\<open>table_.size()\<close>, and \<open>GetBucket\<close> as the index of the bucket, \<open>None\<close> when there is none.\<close>

definition sq_capacity :: "'a sequential \<Rightarrow> size_t" where
  "sq_capacity s = of_nat (length (sq_table s))"

definition sq_GetBucket :: "('a \<Rightarrow> size_t) \<Rightarrow> 'a sequential \<Rightarrow> 'a \<Rightarrow> nat option" where
  "sq_GetBucket hash s e =
     (if sq_capacity s = 0 then None
      else let i = bucket_index hash (sq_capacity s) e
           in if i < length (sq_table s) then Some i else None)"

definition sq_Policy :: "'a sequential \<Rightarrow> bool" where
  "sq_Policy s \<longleftrightarrow>
     sq_capacity s * sq_load_factor_numerator div sq_load_factor_denominator < sq_set_size s"

definition sq_Resize :: "('a \<Rightarrow> size_t) \<Rightarrow> 'a sequential \<Rightarrow> (unit, 'a sequential) outcome" where
  "sq_Resize hash s =
     (let new_capacity = 2 * sq_capacity s
      in if vec_max < unat new_capacity then Throw Length_error s
         else if new_capacity = 0 then Undef
         else Ret () (s\<lparr>sq_table := move_buckets hash new_capacity (sq_table s)
                                     (replicate (unat new_capacity) [])\<rparr>))"

definition sq_Add :: "('a \<Rightarrow> size_t) \<Rightarrow> 'a \<Rightarrow> 'a sequential \<Rightarrow> (bool, 'a sequential) outcome" where
  "sq_Add hash e s =
     (case sq_GetBucket hash s e of
        None \<Rightarrow> Undef
      | Some i \<Rightarrow>
          let bucket = sq_table s ! i
          in if ranges_find e bucket \<noteq> length bucket then Ret False s
             else let s = s\<lparr>sq_table := push_bucket i e (sq_table s), sq_set_size := sq_set_size s + 1\<rparr>
                  in if sq_Policy s
                     then (case sq_Resize hash s of
                             Ret u s \<Rightarrow> Ret True s
                           | Throw ex s \<Rightarrow> Throw ex s
                           | Undef \<Rightarrow> Undef)
                     else Ret True s)"

definition sq_Remove :: "('a \<Rightarrow> size_t) \<Rightarrow> 'a \<Rightarrow> 'a sequential \<Rightarrow> (bool, 'a sequential) outcome" where
  "sq_Remove hash e s =
     (case sq_GetBucket hash s e of
        None \<Rightarrow> Undef
      | Some i \<Rightarrow>
          let bucket = sq_table s ! i; it = ranges_find e bucket
          in if it \<noteq> length bucket
             then Ret True (s\<lparr>sq_table := erase_bucket i it (sq_table s),
                              sq_set_size := sq_set_size s - 1\<rparr>)
             else Ret False s)"

definition sq_Contains :: "('a \<Rightarrow> size_t) \<Rightarrow> 'a \<Rightarrow> 'a sequential \<Rightarrow> (bool, 'a sequential) outcome" where
  "sq_Contains hash e s =
     (case sq_GetBucket hash s e of
        None \<Rightarrow> Undef
      | Some i \<Rightarrow>
          let bucket = sq_table s ! i in Ret (ranges_find e bucket \<noteq> length bucket) s)"

definition sq_Size :: "'a sequential \<Rightarrow> size_t" where
  "sq_Size s = sq_set_size s"

primrec sq_run :: "('a \<Rightarrow> size_t) \<Rightarrow> 'a op \<Rightarrow> 'a sequential \<Rightarrow> (bool, 'a sequential) outcome" where
  "sq_run hash (Add e) s = sq_Add hash e s"
| "sq_run hash (Remove e) s = sq_Remove hash e s"
| "sq_run hash (Contains e) s = sq_Contains hash e s"

section \<open>The invariant\<close>

definition sq_inv :: "('a \<Rightarrow> size_t) \<Rightarrow> 'a sequential \<Rightarrow> bool" where
  "sq_inv hash s \<longleftrightarrow>
     table_ok hash (sq_table s) \<and> sq_set_size s = of_nat (card (contents (sq_table s)))"

definition sq_elements :: "'a sequential \<Rightarrow> 'a set" where
  "sq_elements s = contents (sq_table s)"

lemma sq_GetBucket_eq:
  assumes "table_ok hash (sq_table s)"
  shows "sq_GetBucket hash s e = Some (bucket_index hash (sq_capacity s) e)"
  using table_okD(2) [OF assms] in_table(2) [OF assms, of e] by (simp add: sq_GetBucket_def sq_capacity_def)

lemma sq_find:
  assumes "table_ok hash (sq_table s)" "i = bucket_index hash (sq_capacity s) e"
  shows "ranges_find e (sq_table s ! i) \<noteq> length (sq_table s ! i) \<longleftrightarrow> e \<in> contents (sq_table s)"
  using in_table(1) [OF assms(1), of e] assms(2) by (simp add: sq_capacity_def)

lemma sq_Resize_cases:
  assumes "table_ok hash (sq_table s)"
  obtains (grown) T where "sq_Resize hash s = Ret () (s\<lparr>sq_table := T\<rparr>)" "table_ok hash T"
      "contents T = contents (sq_table s)" "length T = 2 * length (sq_table s)"
      "2 * length (sq_table s) \<le> vec_max"
    | (full) "sq_Resize hash s = Throw Length_error s" "vec_max < 2 * length (sq_table s)"
proof -
  let ?c = "2 * sq_capacity s"
  have c: "unat ?c = 2 * length (sq_table s)" "?c \<noteq> 0"
    using double_length [OF assms] by (simp_all add: sq_capacity_def)
  let ?T = "move_buckets hash ?c (sq_table s) (replicate (unat ?c) [])"
  have T: "buckets_ok hash ?c ?T" "contents ?T = contents (sq_table s)"
    using move_buckets_ok [OF buckets_ok_empty c(2) distinct_buckets [OF table_okD(1) [OF assms]]]
    by simp_all
  show thesis
  proof (cases "vec_max < unat ?c")
    case True
    then show thesis using c(1) by (intro full) (simp_all add: sq_Resize_def Let_def)
  next
    case False
    then have "sq_Resize hash s = Ret () (s\<lparr>sq_table := ?T\<rparr>)" "table_ok hash ?T"
      using c(2) T(1) by (simp_all add: sq_Resize_def Let_def table_ok_of)
    then show thesis using T c(1) False by (intro grown [of ?T]) (simp_all add: buckets_ok_def)
  qed
qed

text \<open>The state after the element has been added and before the resize.\<close>

lemma sq_pushed:
  assumes "sq_inv hash s" "e \<notin> contents (sq_table s)" "i = bucket_index hash (sq_capacity s) e"
    and "s1 = s\<lparr>sq_table := push_bucket i e (sq_table s), sq_set_size := sq_set_size s + 1\<rparr>"
  shows "sq_inv hash s1 \<and> contents (sq_table s1) = insert e (contents (sq_table s))"
proof -
  have ok: "table_ok hash (sq_table s)" using assms(1) by (simp add: sq_inv_def)
  have "e \<notin> set (sq_table s ! i)" using in_table(1) [OF ok, of e] assms(2,3) by (simp add: sq_capacity_def)
  with table_ok_push [OF ok, of i e] assms(3) have
    "table_ok hash (sq_table s1)" "contents (sq_table s1) = insert e (contents (sq_table s))"
    using assms(4) by (simp_all add: sq_capacity_def)
  then show ?thesis using assms(1,2,4) by (simp add: sq_inv_def)
qed

lemma sq_Add_cases:
  assumes "sq_inv hash s"
  obtains (present) "e \<in> contents (sq_table s)" "sq_Add hash e s = Ret False s"
    | (kept) s' where "e \<notin> contents (sq_table s)" "sq_Add hash e s = Ret True s'" "sq_inv hash s'"
        "contents (sq_table s') = insert e (contents (sq_table s))" "\<not> sq_Policy s'"
        "length (sq_table s') = length (sq_table s)"
    | (grown) s' where "e \<notin> contents (sq_table s)" "sq_Add hash e s = Ret True s'" "sq_inv hash s'"
        "contents (sq_table s') = insert e (contents (sq_table s))"
        "length (sq_table s') = 2 * length (sq_table s)"
    | (full) s' where "e \<notin> contents (sq_table s)" "sq_Add hash e s = Throw Length_error s'"
        "sq_inv hash s'" "contents (sq_table s') = insert e (contents (sq_table s))"
        "vec_max < 2 * length (sq_table s)" "sq_table s' \<noteq> []"
proof (cases "e \<in> contents (sq_table s)")
  case True
  have ok: "table_ok hash (sq_table s)" using assms by (simp add: sq_inv_def)
  with True sq_find [OF ok refl, of e] show thesis
    by (intro present) (simp_all add: sq_Add_def sq_GetBucket_eq)
next
  case False
  have ok: "table_ok hash (sq_table s)" using assms by (simp add: sq_inv_def)
  let ?i = "bucket_index hash (sq_capacity s) e"
  define s1 where "s1 = s\<lparr>sq_table := push_bucket ?i e (sq_table s), sq_set_size := sq_set_size s + 1\<rparr>"
  have s1: "sq_inv hash s1" "contents (sq_table s1) = insert e (contents (sq_table s))"
    "length (sq_table s1) = length (sq_table s)"
    using sq_pushed [OF assms False refl s1_def] by (simp_all add: s1_def)
  then have ok1: "table_ok hash (sq_table s1)" by (simp add: sq_inv_def)
  have add: "sq_Add hash e s = (if sq_Policy s1
      then case sq_Resize hash s1 of Ret u s \<Rightarrow> Ret True s | Throw ex s \<Rightarrow> Throw ex s | Undef \<Rightarrow> Undef
      else Ret True s1)"
    using sq_find [OF ok refl, of e] False
    by (simp add: sq_Add_def sq_GetBucket_eq [OF ok] s1_def)
  show thesis
  proof (cases "sq_Policy s1")
    case policy: True
    from ok1 show thesis
    proof (cases rule: sq_Resize_cases)
      case (grown T)
      with s1 policy False show thesis
        by (intro that(3) [of "s1\<lparr>sq_table := T\<rparr>"]) (simp_all add: add sq_inv_def)
    next
      case full
      with s1 policy False table_okD(5) [OF ok1] show thesis
        by (intro that(4) [of s1]) (auto simp: add)
    qed
  next
    case policy: False
    with s1 False show thesis by (intro that(2) [of s1]) (simp_all add: add)
  qed
qed

lemma sq_Remove_cases:
  assumes "sq_inv hash s"
  obtains (absent) "e \<notin> contents (sq_table s)" "sq_Remove hash e s = Ret False s"
    | (removed) s' where "e \<in> contents (sq_table s)" "sq_Remove hash e s = Ret True s'" "sq_inv hash s'"
        "contents (sq_table s') = contents (sq_table s) - {e}"
        "length (sq_table s') = length (sq_table s)"
proof (cases "e \<in> contents (sq_table s)")
  case False
  have ok: "table_ok hash (sq_table s)" using assms by (simp add: sq_inv_def)
  with False sq_find [OF ok refl, of e] show thesis
    by (intro absent) (simp_all add: sq_Remove_def sq_GetBucket_eq)
next
  case True
  have ok: "table_ok hash (sq_table s)" using assms by (simp add: sq_inv_def)
  let ?i = "bucket_index hash (sq_capacity s) e"
  let ?k = "ranges_find e (sq_table s ! ?i)"
  define s1 where "s1 = s\<lparr>sq_table := erase_bucket ?i ?k (sq_table s), sq_set_size := sq_set_size s - 1\<rparr>"
  have "table_ok hash (sq_table s1)" "contents (sq_table s1) = contents (sq_table s) - {e}"
    using table_ok_erase [OF ok _ refl] by (simp_all add: s1_def sq_capacity_def)
  moreover from this have "sq_inv hash s1"
    using assms of_nat_card_remove [OF finite_contents True] by (simp add: sq_inv_def s1_def)
  moreover have "sq_Remove hash e s = Ret True s1"
    using True sq_find [OF ok refl, of e] by (simp add: sq_Remove_def sq_GetBucket_eq [OF ok] s1_def)
  ultimately show thesis using True by (intro removed [of s1]) (simp_all add: s1_def)
qed

lemma sq_Contains_eq:
  assumes "sq_inv hash s"
  shows "sq_Contains hash e s = Ret (e \<in> contents (sq_table s)) s"
proof -
  have ok: "table_ok hash (sq_table s)" using assms by (simp add: sq_inv_def)
  with sq_find [OF ok refl, of e] show ?thesis by (simp add: sq_Contains_def sq_GetBucket_eq)
qed

section \<open>The interface\<close>

lemma sq_run_spec:
  assumes "sq_inv hash s"
  shows "(\<exists>r s'. sq_run hash x s = Ret r s' \<and> sq_inv hash s' \<and>
      apply_op x (sq_elements s) = (r, sq_elements s')) \<or>
    (\<exists>s'. sq_run hash x s = Throw Length_error s' \<and> sq_inv hash s' \<and>
      apply_op x (sq_elements s) = (True, sq_elements s') \<and> vec_max < 2 * length (sq_table s))"
proof (cases x)
  case (Add e)
  from assms show ?thesis
    by (cases rule: sq_Add_cases [of _ _ e]) (auto simp: Add sq_elements_def assms insert_absorb)
next
  case (Remove e)
  from assms show ?thesis
    by (cases rule: sq_Remove_cases [of _ _ e]) (auto simp: Remove sq_elements_def assms)
next
  case (Contains e)
  then show ?thesis using sq_Contains_eq [OF assms] assms by (simp add: sq_elements_def)
qed

interpretation sq: hash_set "sq_inv hash" sq_elements "sq_run hash" sq_Size for hash
proof unfold_locales
  fix s :: "'a sequential" assume inv: "sq_inv hash s"
  show "finite (sq_elements s)" by (simp add: sq_elements_def)
  show "sq_Size s = of_nat (card (sq_elements s))"
    using inv by (simp add: sq_inv_def sq_Size_def sq_elements_def)
  fix x
  note spec = sq_run_spec [OF inv, of x]
  show "sq_run hash x s \<noteq> Undef" using spec by auto
  show "sq_inv hash s' \<and> apply_op x (sq_elements s) = (r, sq_elements s')"
    if "sq_run hash x s = Ret r s'" for r s' using spec that by auto
  show "sq_inv hash s' \<and> sq_elements s' = snd (apply_op x (sq_elements s)) \<and>
      fst (apply_op x (sq_elements s))"
    if "sq_run hash x s = Throw ex s'" for ex s' using spec that by auto
qed

end
