(* ===== verification/SequentialProps.thy ===== *)
theory SequentialProps
  imports HashSetSequential
begin

text \<open>
  The properties of the sequential set, from its interpretation of the interface \<open>hash_set\<close>: it is
  the abstract set, what \<open>Add\<close> does when the table cannot double, and the load factor.
\<close>

lemma construct_sequential_cases:
  assumes "construct_sequential c = Inr s"
  shows "sq_inv hash s \<and> sq_elements s = {} \<and> length (sq_table s) = unat (max 1 c)"
proof -
  have "max 1 c \<noteq> 0" by (auto simp: max_def)
  with assms table_ok_new [of "max 1 c" hash] show ?thesis
    by (auto simp: construct_sequential_def Let_def sq_inv_def sq_elements_def split: if_splits)
qed

text \<open>The load factor, as long as no operation has thrown.\<close>

definition sq_loaded :: "('a \<Rightarrow> size_t) \<Rightarrow> 'a sequential \<Rightarrow> bool" where
  "sq_loaded hash s \<longleftrightarrow>
     sq_inv hash s \<and> 4 * card (sq_elements s) \<le> 3 * length (sq_table s)"

lemma Policy_false:
  assumes "sq_inv hash s" "\<not> sq_Policy s" "card (sq_elements s) < 2 ^ 64"
  shows "4 * card (sq_elements s) \<le> 3 * length (sq_table s)"
proof -
  have ok: "table_ok hash (sq_table s)" and sz: "unat (sq_set_size s) = card (sq_elements s)"
    using assms(1,3) unat_of_nat_size by (auto simp: sq_inv_def sq_elements_def)
  from assms(2) have "unat (sq_set_size s) \<le> length (sq_table s) * 3 div 4"
    using load_limit [OF ok]
    by (simp add: sq_Policy_def sq_capacity_def sq_load_factor_numerator_def
        sq_load_factor_denominator_def word_less_nat_alt not_less)
  then show ?thesis using sz by linarith
qed

lemma grown_load: "4 * c \<le> 3 * l \<Longrightarrow> 0 < l \<Longrightarrow> 4 * Suc c \<le> 3 * (2 * l)" for c l :: nat
  by presburger

lemma sq_loaded_step:
  assumes "sq_loaded hash s" "sq_run hash x s = Ret r s'"
  shows "sq_loaded hash s' \<and> (\<exists>k. length (sq_table s') = length (sq_table s) * 2 ^ k)"
proof -
  have inv: "sq_inv hash s" and load: "4 * card (sq_elements s) \<le> 3 * length (sq_table s)"
    using assms(1) by (simp_all add: sq_loaded_def)
  then have len: "4 * length (sq_table s) < 2 ^ 64" "0 < length (sq_table s)"
    using table_okD(4,5) [of hash "sq_table s"] by (simp_all add: sq_inv_def)
  have same: ?thesis if "s' = s" using that assms(1) by (auto intro: exI [of _ 0])
  show ?thesis
  proof (cases x)
    case (Add e)
    from inv show ?thesis
    proof (cases rule: sq_Add_cases [of _ _ e])
      case present
      with assms(2) Add same show ?thesis by simp
    next
      case (kept s1)
      then have s': "s' = s1" using assms(2) Add by simp
      have "card (sq_elements s1) = Suc (card (sq_elements s))" using kept by (simp add: sq_elements_def)
      with Policy_false [OF kept(3,5)] load len show ?thesis
        using kept(3,6) by (auto simp: s' sq_loaded_def intro: exI [of _ 0])
    next
      case (grown s1)
      then have s': "s' = s1" using assms(2) Add by simp
      have "card (sq_elements s1) = Suc (card (sq_elements s))" using grown by (simp add: sq_elements_def)
      with grown_load [OF load len(2)]
      have "4 * card (sq_elements s1) \<le> 3 * (2 * length (sq_table s))" by simp
      then show ?thesis
        using grown(3,5) by (auto simp: s' sq_loaded_def intro: exI [of _ 1])
    next
      case full
      with assms(2) Add show ?thesis by simp
    qed
  next
    case (Remove e)
    from inv show ?thesis
    proof (cases rule: sq_Remove_cases [of _ _ e])
      case absent
      with assms(2) Remove same show ?thesis by simp
    next
      case (removed s1)
      then have s': "s' = s1" using assms(2) Remove by simp
      have "card (sq_elements s1) \<le> card (sq_elements s)"
        using removed(4) by (simp add: sq_elements_def card_Diff1_le)
      with load removed(3,5) show ?thesis by (auto simp: s' sq_loaded_def intro: exI [of _ 0])
    qed
  next
    case (Contains e)
    with assms(2) sq_Contains_eq [OF inv] same show ?thesis by simp
  qed
qed

lemma sq_loaded_run:
  assumes "sq_loaded hash s" "sq.run_all hash xs s = Ret rs s'"
  shows "sq_loaded hash s' \<and> (\<exists>k. length (sq_table s') = length (sq_table s) * 2 ^ k)"
  using assms
proof (induction xs arbitrary: s rs)
  case Nil
  then show ?case by (auto intro: exI [of _ 0])
next
  case (Cons x xs)
  from Cons.prems(2) obtain r s1 rs' where
    s1: "sq_run hash x s = Ret r s1" "sq.run_all hash xs s1 = Ret rs' s'"
    by (auto split: outcome.splits)
  from sq_loaded_step [OF Cons.prems(1) s1(1)] obtain k where
    k: "sq_loaded hash s1" "length (sq_table s1) = length (sq_table s) * 2 ^ k" by blast
  from Cons.IH [OF k(1) s1(2)] obtain l where
    "sq_loaded hash s'" "length (sq_table s') = length (sq_table s1) * 2 ^ l" by blast
  with k(2) show ?case by (auto intro!: exI [of _ "k + l"] simp: power_add)
qed

section \<open>A concrete run\<close>

definition sq_example :: "nat sequential" where
  "sq_example = \<lparr>sq_table = [[8], [], [2], [7, 3]], sq_set_size = 4\<rparr>"

definition sq_ops :: "nat op list" where
  "sq_ops = [Add 3, Add 7, Add 3, Contains 7, Remove 7, Add 8, Remove 9]"

lemma sq_one: "construct_sequential 0 = Inr \<lparr>sq_table = [[]], sq_set_size = 0\<rparr>"
  by (simp add: construct_sequential_def vec_max_def)

lemma sq_ops_run:
  "\<exists>s. sq.run_all of_nat sq_ops \<lparr>sq_table = [[]], sq_set_size = 0\<rparr> =
     Ret [True, True, False, True, True, True, False] s \<and> length (sq_table s) = 4"
  by (simp add: sq_ops_def sq_Add_def sq_Remove_def sq_Contains_def sq_GetBucket_def sq_capacity_def
      bucket_index_def push_bucket_def erase_bucket_def push_back_def vec_erase_def sq_Policy_def
      sq_load_factor_numerator_def sq_load_factor_denominator_def sq_Resize_def vec_max_def
      replicate_small)

lemma all_less_4: "(\<forall>i<(4::nat). Q i) \<longleftrightarrow> Q 0 \<and> Q 1 \<and> Q 2 \<and> Q 3"
proof -
  have "i < 4 \<longleftrightarrow> i = 0 \<or> i = 1 \<or> i = 2 \<or> i = 3" for i :: nat by arith
  then show ?thesis by auto
qed

lemma sq_example_elements: "sq_elements sq_example = {2, 3, 7, 8}" "length (sq_table sq_example) = 4"
  by (auto simp: sq_example_def sq_elements_def contents_def)

lemma sq_example_inv: "sq_inv of_nat sq_example"
proof -
  have "buckets_ok of_nat 4 (sq_table sq_example)"
    unfolding buckets_ok_def sq_example_elements(2) all_less_4
    by (simp add: sq_example_def bucket_index_def)
  moreover have "sq_set_size sq_example = of_nat (card (sq_elements sq_example))"
    unfolding sq_example_elements by (simp add: sq_example_def)
  ultimately show ?thesis
    by (simp add: sq_inv_def table_ok_def sq_example_elements vec_max_def flip: sq_elements_def)
qed

section \<open>Properties\<close>

text \<open>
  C35 (refinement): the sequential set is the abstract set. From the constructor, no list of
  operations reaches undefined behaviour; when it returns, the results are those of the operations on
  a mathematical set that is empty at first, the buckets hold exactly its elements, and \<open>Size\<close> is its
  cardinality.
\<close>

theorem sequential_refines_set:
  assumes "construct_sequential c = Inr s0"
  shows "sq.run_all hash xs s0 \<noteq> Undef \<and>
    (\<forall>rs s. sq.run_all hash xs s0 = Ret rs s \<longrightarrow>
       apply_ops xs {} = (rs, sq_elements s) \<and> sq_Size s = of_nat (card (sq_elements s)))"
proof -
  have inv: "sq_inv hash s0" "sq_elements s0 = {}"
    using construct_sequential_cases [OF assms] by blast+
  with sq.run_all_defined [OF inv(1)] sq.run_all_ret [OF inv(1)] sq.size_card show ?thesis by metis
qed

text \<open>An \<open>Add\<close> of a new element, up to the resize.\<close>

lemma sq_Add_new:
  assumes "sq_inv hash s" "e \<notin> sq_elements s"
  obtains s1 where "sq_inv hash s1" "sq_elements s1 = insert e (sq_elements s)"
    "length (sq_table s1) = length (sq_table s)"
    "sq_Policy s1 \<longleftrightarrow> length (sq_table s) * 3 div 4 < unat (sq_set_size s + 1)"
    "sq_Add hash e s = (if sq_Policy s1
       then case sq_Resize hash s1 of Ret u s \<Rightarrow> Ret True s | Throw ex s \<Rightarrow> Throw ex s | Undef \<Rightarrow> Undef
       else Ret True s1)"
proof
  let ?s1 = "s\<lparr>sq_table := push_bucket (bucket_index hash (sq_capacity s) e) e (sq_table s),
    sq_set_size := sq_set_size s + 1\<rparr>"
  have ok: "table_ok hash (sq_table s)" using assms(1) by (simp add: sq_inv_def)
  show "sq_inv hash ?s1" "sq_elements ?s1 = insert e (sq_elements s)"
    using sq_pushed [OF assms(1) _ refl refl, of e] assms(2) by (simp_all add: sq_elements_def)
  show "length (sq_table ?s1) = length (sq_table s)" by simp
  show "sq_Policy ?s1 \<longleftrightarrow> length (sq_table s) * 3 div 4 < unat (sq_set_size s + 1)"
    using load_limit [OF ok]
    by (simp add: sq_Policy_def sq_capacity_def sq_load_factor_numerator_def
        sq_load_factor_denominator_def word_less_nat_alt)
  show "sq_Add hash e s = (if sq_Policy ?s1
      then case sq_Resize hash ?s1 of Ret u s \<Rightarrow> Ret True s | Throw ex s \<Rightarrow> Throw ex s | Undef \<Rightarrow> Undef
      else Ret True ?s1)"
    using sq_find [OF ok refl, of e] assms(2)
    by (simp add: sq_Add_def sq_GetBucket_eq [OF ok] sq_elements_def)
qed

text \<open>
  C36 (error): what \<open>Add\<close> does on each branch. An element that is present changes nothing. One that
  is absent is in the set afterwards, with every other element kept, also when the call throws: it
  throws \<open>std::length_error\<close> exactly when the load factor is exceeded and the doubled table would be
  longer than a vector can be. The set is valid in every case.
\<close>

theorem sequential_add_outcome:
  assumes "sq_inv hash s"
  shows "if e \<in> sq_elements s then sq_Add hash e s = Ret False s
    else \<exists>s'. sq_inv hash s' \<and> sq_elements s' = insert e (sq_elements s) \<and>
      sq_Add hash e s =
        (if length (sq_table s) * 3 div 4 < unat (sq_set_size s + 1) \<and> vec_max < 2 * length (sq_table s)
         then Throw Length_error s' else Ret True s')"
proof (cases "e \<in> sq_elements s")
  case True
  have ok: "table_ok hash (sq_table s)" using assms by (simp add: sq_inv_def)
  from sq_find [OF ok refl, of e] True show ?thesis
    by (simp add: sq_Add_def sq_GetBucket_eq [OF ok] sq_elements_def)
next
  case False
  from sq_Add_new [OF assms this] obtain s1 where s1: "sq_inv hash s1" "sq_elements s1 = insert e (sq_elements s)"
    and len: "length (sq_table s1) = length (sq_table s)"
    and policy: "sq_Policy s1 \<longleftrightarrow> length (sq_table s) * 3 div 4 < unat (sq_set_size s + 1)"
    and add: "sq_Add hash e s = (if sq_Policy s1
      then case sq_Resize hash s1 of Ret u s \<Rightarrow> Ret True s | Throw ex s \<Rightarrow> Throw ex s | Undef \<Rightarrow> Undef
      else Ret True s1)" .
  have "table_ok hash (sq_table s1)" using s1(1) by (simp add: sq_inv_def)
  then show ?thesis
  proof (cases rule: sq_Resize_cases)
    case (grown T)
    have "sq_inv hash (s1\<lparr>sq_table := T\<rparr>)" "sq_elements (s1\<lparr>sq_table := T\<rparr>) = insert e (sq_elements s)"
      using s1 grown(2,3) by (simp_all add: sq_inv_def sq_elements_def)
    moreover have "\<not> vec_max < 2 * length (sq_table s)" using grown(5) len by simp
    moreover have "sq_Add hash e s = Ret True (if sq_Policy s1 then s1\<lparr>sq_table := T\<rparr> else s1)"
      by (simp add: add grown(1))
    ultimately show ?thesis using s1 False by (smt (verit))
  next
    case full
    have "sq_Add hash e s = (if sq_Policy s1 then Throw Length_error s1 else Ret True s1)"
      by (simp add: add full(1))
    with s1 False full(2) len policy show ?thesis by auto
  qed
qed

text \<open>
  C37 (invariant): the load factor. As long as no operation has thrown, the table has at least four
  buckets for every three elements, \<open>Size\<close> is exactly the number of elements, without wrapping, and
  the number of buckets is the initial one, or one, times a power of two.
\<close>

theorem sequential_load_factor:
  assumes "construct_sequential c = Inr s0" "sq.run_all hash xs s0 = Ret rs s"
  shows "4 * unat (sq_Size s) \<le> 3 * length (sq_table s) \<and>
    unat (sq_Size s) = card (sq_elements s) \<and>
    (\<exists>k. length (sq_table s) = unat (max 1 c) * 2 ^ k)"
proof -
  note init = construct_sequential_cases [OF assms(1), of hash]
  then have "sq_loaded hash s0" by (simp add: sq_loaded_def)
  from sq_loaded_run [OF this assms(2)] obtain k where
    s: "sq_loaded hash s" "length (sq_table s) = unat (max 1 c) * 2 ^ k" using init by auto
  then have inv: "sq_inv hash s" and load: "4 * card (sq_elements s) \<le> 3 * length (sq_table s)"
    by (simp_all add: sq_loaded_def)
  have "4 * length (sq_table s) < 2 ^ 64" using inv table_okD(4) [of hash "sq_table s"] by (simp add: sq_inv_def)
  with load have "unat (sq_Size s) = card (sq_elements s)"
    unfolding sq.size_card [OF inv] by (intro unat_of_nat_size) linarith
  with load s(2) show ?thesis by auto
qed

theorem sequential_refines_set_witness:
  "\<exists>s. sq.run_all of_nat sq_ops \<lparr>sq_table = [[]], sq_set_size = 0\<rparr> =
     Ret [True, True, False, True, True, True, False] s \<and> sq_elements s = {3, 8}"
proof -
  obtain s where s: "sq.run_all of_nat sq_ops \<lparr>sq_table = [[]], sq_set_size = 0\<rparr> =
     Ret [True, True, False, True, True, True, False] s" using sq_ops_run by blast
  with sequential_refines_set [OF sq_one, of of_nat sq_ops]
  have "snd (apply_ops sq_ops {}) = sq_elements s" by simp
  moreover have "snd (apply_ops sq_ops {}) = {3, 8}" by (auto simp: sq_ops_def)
  ultimately have "sq_elements s = {3, 8}" by simp
  with s show ?thesis by blast
qed

theorem sequential_add_outcome_witness:
  "\<exists>s'. sq_Add of_nat 6 sq_example = Ret True s' \<and> sq_elements s' = {2, 3, 6, 7, 8}"
proof -
  have ne: "(vec_max < 2 * 4) = False" "(6 \<in> {2, 3, 7, 8 :: nat}) = False"
    by (simp_all add: vec_max_def)
  have "\<exists>s'. sq_inv of_nat s' \<and> sq_elements s' = insert 6 {2, 3, 7, 8} \<and>
      sq_Add of_nat 6 sq_example = Ret True s'"
    using sequential_add_outcome [OF sq_example_inv, of 6, unfolded sq_example_elements]
    by (simp only: ne if_False simp_thms)
  then show ?thesis by blast
qed

theorem sequential_load_factor_witness:
  "\<exists>s. sq.run_all of_nat sq_ops \<lparr>sq_table = [[]], sq_set_size = 0\<rparr> =
     Ret [True, True, False, True, True, True, False] s \<and> 4 * unat (sq_Size s) \<le> 12"
proof -
  obtain s where s: "sq.run_all of_nat sq_ops \<lparr>sq_table = [[]], sq_set_size = 0\<rparr> =
     Ret [True, True, False, True, True, True, False] s" "length (sq_table s) = 4"
    using sq_ops_run by blast
  from sequential_load_factor [OF sq_one s(1)] s show ?thesis by auto
qed

end
