(* ===== verification/PerThread.thy ===== *)
theory PerThread
  imports SizeCount
begin

text \<open>
  The proof of a concurrent set whose threads protect each other with locks. Such a set has an
  invariant of its shared state, facts each thread knows at its program counter, which the others
  keep, and facts about two program counters; and each program counter says where its operation is:
  before the step at which it takes effect, or after it. The locale \<open>per_thread\<close> asks for these,
  thread by thread; the simulation into the interval object, hence linearizability, follows.

  The theory also has the mutexes of \<open>std::mutex\<close>, as a vector of owners.
\<close>

section \<open>Mutexes\<close>

text \<open>
  \<open>lock()\<close> waits while another thread owns the mutex; to lock a mutex one owns, or to unlock one that
  one does not own, is undefined.
\<close>

datatype locking = Locked "tid option list" | Waiting | Lock_undef

definition mutex_lock :: "tid \<Rightarrow> nat \<Rightarrow> tid option list \<Rightarrow> locking" where
  "mutex_lock t m ms =
     (if m < length ms
      then (case ms ! m of
              None \<Rightarrow> Locked (ms[m := Some t])
            | Some u \<Rightarrow> if u = t then Lock_undef else Waiting)
      else Lock_undef)"

definition mutex_unlock :: "tid \<Rightarrow> nat \<Rightarrow> tid option list \<Rightarrow> tid option list option" where
  "mutex_unlock t m ms =
     (if m < length ms \<and> ms ! m = Some t then Some (ms[m := None]) else None)"

text \<open>\<open>holds t ms M\<close>: the mutexes the thread owns are those of \<open>M\<close>.\<close>

definition holds :: "tid \<Rightarrow> tid option list \<Rightarrow> nat set \<Rightarrow> bool" where
  "holds t ms M \<longleftrightarrow> M \<subseteq> {..<length ms} \<and> (\<forall>m < length ms. ms ! m = Some t \<longleftrightarrow> m \<in> M)"

text \<open>The mutexes of the other threads stay as they are.\<close>

definition leaves_mutexes :: "tid \<Rightarrow> tid option list \<Rightarrow> tid option list \<Rightarrow> bool" where
  "leaves_mutexes t ms ms' \<longleftrightarrow>
     length ms' = length ms \<and>
     (\<forall>m < length ms. \<forall>u. u \<noteq> t \<longrightarrow> (ms' ! m = Some u \<longleftrightarrow> ms ! m = Some u))"

lemma leaves_refl [simp]: "leaves_mutexes t ms ms"
  by (simp add: leaves_mutexes_def)

lemma holds_other: "holds u ms M \<Longrightarrow> leaves_mutexes t ms ms' \<Longrightarrow> u \<noteq> t \<Longrightarrow> holds u ms' M"
  by (simp add: holds_def leaves_mutexes_def)

lemma holds_disjoint: "holds t ms M \<Longrightarrow> holds u ms N \<Longrightarrow> t \<noteq> u \<Longrightarrow> M \<inter> N = {}"
  unfolding holds_def by (metis disjoint_iff lessThan_iff option.inject subsetD)

lemma mutex_lock_cases:
  assumes "holds t ms M" "m < length ms" "m \<notin> M"
  obtains (free) "mutex_lock t m ms = Locked (ms[m := Some t])" "ms ! m = None"
      "holds t (ms[m := Some t]) (insert m M)" "leaves_mutexes t ms (ms[m := Some t])"
    | (taken) u where "mutex_lock t m ms = Waiting" "ms ! m = Some u" "u \<noteq> t"
proof (cases "ms ! m")
  case None
  with assms show thesis
    by (intro free) (auto simp: mutex_lock_def holds_def leaves_mutexes_def nth_list_update)
next
  case (Some u)
  with assms have "u \<noteq> t" by (auto simp: holds_def)
  with Some assms show thesis by (intro taken [of u]) (auto simp: mutex_lock_def)
qed

lemma mutex_unlock_held:
  assumes "holds t ms M" "m \<in> M"
  shows "mutex_unlock t m ms = Some (ms[m := None])" "holds t (ms[m := None]) (M - {m})"
    "leaves_mutexes t ms (ms[m := None])"
proof -
  have "m < length ms" "ms ! m = Some t" using assms by (auto simp: holds_def)
  with assms show "mutex_unlock t m ms = Some (ms[m := None])" "holds t (ms[m := None]) (M - {m})"
    "leaves_mutexes t ms (ms[m := None])"
    by (auto simp: mutex_unlock_def holds_def leaves_mutexes_def nth_list_update split: if_splits)
qed

section \<open>Where an operation is\<close>

text \<open>
  \<open>Done r w\<close>: the operation has taken effect, with the result \<open>r\<close>, and \<open>set_size_\<close> does not have its
  weight \<open>w\<close> yet. \<open>Broken\<close> is for program counters the program must not reach.
\<close>

datatype 'a stage = Outside | Before "'a op" | Done bool size_t | Broken

fun stage_status :: "'a set \<Rightarrow> 'a stage \<Rightarrow> 'a i_status \<Rightarrow> bool" where
  "stage_status A Outside st \<longleftrightarrow> st = IIdle"
| "stage_status A (Before x) st \<longleftrightarrow> (\<exists>B. st = IPending x B \<and> (op_elem x \<in> A) \<in> B)"
| "stage_status A (Done r w) st \<longleftrightarrow> st = IDone r"
| "stage_status A Broken st \<longleftrightarrow> False"

fun owed :: "'a stage \<Rightarrow> size_t" where
  "owed (Done r w) = w"
| "owed st = 0"

inductive moves ::
    "'a set \<Rightarrow> size_t \<Rightarrow> 'a stage \<Rightarrow> 'a set \<Rightarrow> size_t \<Rightarrow> 'a stage \<Rightarrow> bool" where
  move_stay: "moves A n st A n st"
| move_update: "updates x A \<Longrightarrow> A' = snd (apply_op x A) \<Longrightarrow>
     moves A n (Before x) A' n (Done True (weight x))"
| move_read: "read_result x (op_elem x \<in> A) = Some r \<Longrightarrow> moves A n (Before x) A n (Done r 0)"
| move_count: "n' = n + w \<Longrightarrow> moves A n (Done r w) A n' (Done r 0)"

lemma stage_current: "stage_status A st i \<Longrightarrow> current A i"
  by (cases st) (auto simp: current_def)

lemma stage_observe: "stage_status A st i \<Longrightarrow> stage_status A' st (observe A' i)"
  by (cases st) auto

lemma moves_acts:
  assumes "moves A n st A' n' st'" "stage_status A st i" "finite A"
  shows "\<exists>i'. acts A i A' i' \<and> stage_status A' st' i' \<and>
    n' + owed st' - of_nat (card A') = n + owed st - of_nat (card A)"
  using assms(1)
proof cases
  case move_stay
  with assms(2) show ?thesis using act_quiet by metis
next
  case (move_update x)
  with assms(2) obtain B where B: "i = IPending x B" by auto
  have "acts A i A' (IDone True)" unfolding B by (rule act_update) (use move_update in auto)
  with move_update updates_weight [OF _ assms(3)] show ?thesis by auto
next
  case (move_read x r)
  with assms(2) obtain B where B: "i = IPending x B" "(op_elem x \<in> A) \<in> B" by auto
  have "acts A i A (IDone r)" unfolding B(1) by (rule act_read [OF B(2)]) (use move_read in simp)
  with move_read show ?thesis by auto
next
  case (move_count w r)
  with assms(2) have "acts A i A' (IDone r)" using act_quiet [of A "IDone r"] by simp
  with move_count show ?thesis by auto
qed

section \<open>The contract\<close>

locale per_thread =
  fixes P :: "('a, 'sh, 'pc) program" and start :: "'sh \<Rightarrow> bool"
    and inv :: "'sh \<Rightarrow> bool" and ok :: "tid \<Rightarrow> 'sh \<Rightarrow> 'pc \<Rightarrow> bool" and pair :: "'pc \<Rightarrow> 'pc \<Rightarrow> bool"
    and elems :: "'sh \<Rightarrow> 'a set" and cnt :: "'sh \<Rightarrow> size_t" and stage :: "'pc \<Rightarrow> 'a stage"
  assumes at_start: "start sh \<Longrightarrow> inv sh \<and> elems sh = {} \<and> cnt sh = 0 \<and> ok t sh (p_idle P)"
    and fin: "inv sh \<Longrightarrow> finite (elems sh)"
    and at_idle: "stage (p_idle P) = Outside" "pair (p_idle P) q" "pair q (p_idle P)"
    and at_call: "stage (p_start P x) = Before x" "pair (p_start P x) q" "pair q (p_start P x)"
      "inv sh \<Longrightarrow> ok t sh (p_idle P) \<Longrightarrow> ok t sh (p_start P x)"
    and at_return: "p_result P pc = Some r \<Longrightarrow> stage pc = Done r 0 \<and> (ok t sh pc \<longrightarrow> ok t sh (p_idle P))"
    and not_broken: "ok t sh pc \<Longrightarrow> stage pc \<noteq> Broken"
    and own_step: "inv sh \<Longrightarrow> ok t sh pc \<Longrightarrow> p_step P t sh pc = Some (sh', pc') \<Longrightarrow>
      inv sh' \<and> ok t sh' pc' \<and> moves (elems sh) (cnt sh) (stage pc) (elems sh') (cnt sh') (stage pc')"
    and other_step: "inv sh \<Longrightarrow> ok t sh pc \<Longrightarrow> p_step P t sh pc = Some (sh', pc') \<Longrightarrow> u \<noteq> t \<Longrightarrow>
      ok u sh q \<Longrightarrow> pair pc q \<Longrightarrow> pair q pc \<Longrightarrow> ok u sh' q \<and> pair pc' q \<and> pair q pc'"
begin

definition sim :: "('sh, 'pc) sys \<Rightarrow> 'a interval \<Rightarrow> bool" where
  "sim s i \<longleftrightarrow>
     inv (shared s) \<and> i_set i = elems (shared s) \<and>
     (\<forall>t. ok t (shared s) (pcs s t)) \<and>
     (\<forall>t u. t \<noteq> u \<longrightarrow> pair (pcs s t) (pcs s u)) \<and>
     (\<forall>t. stage_status (elems (shared s)) (stage (pcs s t)) (i_status i t)) \<and>
     counted (cnt (shared s)) (\<lambda>t. owed (stage (pcs s t))) (elems (shared s))"

lemma simD:
  assumes "sim s i"
  shows "inv (shared s)" "i_set i = elems (shared s)" "ok t (shared s) (pcs s t)"
    "t \<noteq> u \<Longrightarrow> pair (pcs s t) (pcs s u)"
    "stage_status (elems (shared s)) (stage (pcs s t)) (i_status i t)"
    "counted (cnt (shared s)) (\<lambda>t. owed (stage (pcs s t))) (elems (shared s))"
  using assms unfolding sim_def by blast+

lemma sim_begin: "start sh \<Longrightarrow> sim (sys_init P sh) (i_init {})"
  using at_start [of sh] at_idle
  by (simp add: sim_def sys_init_def i_init_def counted_def sum_all_def)

lemma sim_relabel:
  assumes sim: "sim s i" and new: "ok t (shared s) pc" "\<And>q. pair pc q" "\<And>q. pair q pc"
    "stage_status (elems (shared s)) (stage pc) st" "owed (stage pc) = owed (stage (pcs s t))"
  shows "sim (s\<lparr>pcs := (pcs s)(t := pc)\<rparr>) (i\<lparr>i_status := (i_status i)(t := st)\<rparr>)"
proof -
  have "(\<lambda>u. owed (stage (((pcs s)(t := pc)) u))) = (\<lambda>u. owed (stage (pcs s u)))"
    using new(5) by (auto simp: fun_eq_iff)
  with sim new show ?thesis by (auto simp: sim_def)
qed

lemma sim_own_step:
  assumes sim: "sim s i" and stp: "p_step P t (shared s) (pcs s t) = Some (sh', pc')"
  shows "\<exists>i'. interval_run i [] i' \<and> sim (s\<lparr>shared := sh', pcs := (pcs s)(t := pc')\<rparr>) i'"
proof -
  note D = simD [OF sim]
  let ?A = "elems (shared s)" and ?A' = "elems sh'"
  let ?s = "s\<lparr>shared := sh', pcs := (pcs s)(t := pc')\<rparr>"
  from own_step [OF D(1) D(3) stp] have own: "inv sh'" "ok t sh' pc'"
    "moves ?A (cnt (shared s)) (stage (pcs s t)) ?A' (cnt sh') (stage pc')" by blast+
  from moves_acts [OF own(3) D(5) fin [OF D(1)]] obtain st' where
    st': "acts ?A (i_status i t) ?A' st'" "stage_status ?A' (stage pc') st'"
      "cnt sh' + owed (stage pc') - of_nat (card ?A') =
       cnt (shared s) + owed (stage (pcs s t)) - of_nat (card ?A)" by blast
  let ?i = "i\<lparr>i_set := ?A', i_status := (\<lambda>u. observe ?A' (i_status i u))(t := st')\<rparr>"
  have run: "interval_run i [] ?i"
    by (rule acts_run; unfold D(2)) (rule st'(1), rule stage_current [OF D(5)])
  have rest: "ok u sh' (pcs s u) \<and> pair pc' (pcs s u) \<and> pair (pcs s u) pc'" if "u \<noteq> t" for u
    by (rule other_step [OF D(1) D(3) stp that D(3) D(4) D(4)]) (use that in simp_all)
  have dues: "(\<lambda>u. owed (stage (pcs ?s u))) =
      (\<lambda>u. owed (stage (pcs s u)))(t := owed (stage pc'))" by (rule ext) simp
  have "counted (cnt sh') (\<lambda>u. owed (stage (pcs ?s u))) ?A'"
    unfolding dues by (rule counted_step [OF D(6) st'(3)])
  moreover have "stage_status ?A' (stage (pcs ?s u)) (i_status ?i u)" for u
    using st'(2) stage_observe [OF D(5)] by simp
  moreover have "pair (pcs ?s u) (pcs ?s v)" if "u \<noteq> v" for u v
    using rest D(4) that by (cases "u = t"; cases "v = t") auto
  ultimately have "sim ?s ?i" using own(1,2) rest by (simp add: sim_def)
  with run show ?thesis by blast
qed

lemma sim_any_step:
  assumes "sim s i" "sys_step P s l s'"
  shows "\<exists>i'. interval_run i (visible l) i' \<and> sim s' i'"
  using assms(2)
proof cases
  case (step_call t x)
  note D = simD [OF assms(1)]
  have st: "i_status i t = IIdle" using D(5) [of t] step_call at_idle(1) by simp
  have "interval_run i [Call t x] (i\<lparr>i_status := (i_status i)(t := IPending x {op_elem x \<in> i_set i})\<rparr>)"
    using interval_one [OF i_call [OF st]] by simp
  moreover have "sim s' (i\<lparr>i_status := (i_status i)(t := IPending x {op_elem x \<in> i_set i})\<rparr>)"
    unfolding step_call by (rule sim_relabel [OF assms(1)])
      (use at_call D(1,2) D(3) [of t] step_call at_idle(1) in auto)
  ultimately show ?thesis using step_call by auto
next
  case (step_internal t sh pc)
  with sim_own_step [OF assms(1)] show ?thesis by auto
next
  case (step_return t r)
  note D = simD [OF assms(1)]
  from at_return [OF step_return(3)] have d: "stage (pcs s t) = Done r 0" by blast
  then have st: "i_status i t = IDone r" using D(5) [of t] by simp
  have "interval_run i [Return t r] (i\<lparr>i_status := (i_status i)(t := IIdle)\<rparr>)"
    using interval_one [OF i_return [OF st]] by simp
  moreover have "sim s' (i\<lparr>i_status := (i_status i)(t := IIdle)\<rparr>)"
    unfolding step_return by (rule sim_relabel [OF assms(1)])
      (use at_idle at_return [OF step_return(3)] D(3) [of t] d in auto)
  ultimately show ?thesis using step_return by auto
qed

end

sublocale per_thread \<subseteq> simulation P start sim
  by unfold_locales (rule sim_begin sim_any_step; assumption)+

context per_thread
begin

lemma reachable:
  assumes "start sh" "sys_run P (sys_init P sh) h s"
  shows "inv (shared s)" "ok t (shared s) (pcs s t)" "t \<noteq> u \<Longrightarrow> pair (pcs s t) (pcs s u)"
  using sim_reachable [OF assms] simD by blast+

text \<open>When every thread has counted its operation, the size is the number of elements.\<close>

lemma size_exact:
  assumes "start sh" "sys_run P (sys_init P sh) h s" "\<And>t. owed (stage (pcs s t)) = 0"
  shows "cnt (shared s) = of_nat (card (elems (shared s)))"
proof -
  from sim_reachable [OF assms(1,2)] obtain i where "sim s i" by blast
  from simD(6) [OF this] assms(3) show ?thesis by (simp add: counted_def sum_all_def)
qed

text \<open>The elements are those of the atomic object after the same history.\<close>

lemma set_of_history:
  assumes "start sh" "sys_run P (sys_init P sh) h s" "\<And>t. stage (pcs s t) = Outside"
  shows "\<exists>a. atomic_run (a_init {}) h a \<and> a_set a = elems (shared s) \<and> (\<forall>t. a_status a t = AIdle)"
proof -
  from sim_run [OF assms(2,1)] obtain i where i: "interval_run (i_init {}) h i" "sim s i" by blast
  have "view (i_status i t) AIdle" for t using simD(5) [OF i(2), of t] assms(3) by simp
  then have "atomic_run (a_init {}) h \<lparr>a_set = i_set i, a_status = (\<lambda>_. AIdle)\<rparr>"
    using interval_views [OF i(1), of "\<lambda>_. AIdle"] by blast
  with simD(2) [OF i(2)] show ?thesis by auto
qed

end

end
