(* ===== verification/HashSetStriped.thy ===== *)
theory HashSetStriped
  imports PerThread BucketTable
begin

text \<open>
  \<open>HashSetStriped.h\<close> (and \<open>PaddedMutex.h\<close>): a table of buckets under a fixed vector of mutexes, as
  many as there were buckets at first. A thread works on a bucket under the mutex of the element's
  hash, and doubles the table under all of them, taken in ascending order. Each step of the program
  makes one access to a mutex, an atomic variable or a bucket. \<open>hash\<close> is \<open>std::hash<T>\<close>; elements are
  copied where the code moves them.
\<close>

section \<open>State and construction\<close>

record 'a striped =
  st_table :: "'a list list"
  st_mutexes :: "tid option list"
  st_set_size :: size_t
  st_capacity :: size_t

definition st_load_factor_numerator :: size_t where
  "st_load_factor_numerator = 3"

definition st_load_factor_denominator :: size_t where
  "st_load_factor_denominator = 4"

text \<open>
  \<open>PaddedMutex.h\<close>: a mutex in a cache line of its own, of \<open>hardware_destructive_interference_size\<close> (64)
  bytes, which bounds the length of a vector of them.
\<close>

definition kAlignment :: nat where
  "kAlignment = 64"

definition mutex_max :: nat where
  "mutex_max = (2 ^ 63 - 1) div kAlignment"

definition construct_striped :: "size_t \<Rightarrow> exn + 'a striped" where
  "construct_striped initial_capacity =
     (let c = max 1 initial_capacity
      in if vec_max < unat c \<or> mutex_max < unat c then Inl Length_error
         else Inr \<lparr>st_table = replicate (unat c) [], st_mutexes = replicate (unat c) None,
                   st_set_size = 0, st_capacity = c\<rparr>)"

definition st_Size :: "'a striped \<Rightarrow> size_t" where
  "st_Size s = st_set_size s"

section \<open>The operations as a program\<close>

text \<open>
  Program counters. \<open>m\<close> is the mutex the thread holds, \<open>i\<close> the bucket, \<open>k\<close> the position of the
  element. From \<open>SPolicyCap\<close> on the element has been added: \<open>SPolicyCap\<close> and \<open>SPolicySize\<close> are the
  two loads of \<open>Policy\<close>, the rest is \<open>Resize\<close>: \<open>SLockAll\<close> and \<open>SUnlockAll\<close> are \<open>ScopedVectorLock\<close>, with
  the exception that is on its way out of \<open>Resize\<close>, if there is one; \<open>SMove c k nt\<close> moves the bucket \<open>k\<close>
  to the new table \<open>nt\<close> of \<open>c\<close> buckets, and moves \<open>nt\<close> to \<open>table_\<close> after the last.
\<close>

datatype 'a spc =
    SIdle
  | SLock "'a op"
  | SBucket nat "'a op"
  | SFind nat "'a op" nat
  | SPush nat 'a nat
  | SErase nat 'a nat nat
  | SCount nat "'a op"
  | SUnlock nat "'a op" bool
  | SPolicyCap
  | SPolicySize size_t
  | SLockAll nat
  | SRecheckCap
  | SRecheckSize size_t
  | SNewTable
  | SMove size_t nat "'a list list"
  | SStoreCap size_t
  | SUnlockAll nat "exn option"
  | SRet bool
  | SThrown exn
  | SUndef

definition st_overloaded :: "'a striped \<Rightarrow> size_t \<Rightarrow> bool" where
  "st_overloaded s capacity \<longleftrightarrow>
     capacity * st_load_factor_numerator div st_load_factor_denominator < st_set_size s"

text \<open>A mutex is locked, or waited for; and released.\<close>

definition st_lock :: "tid \<Rightarrow> nat \<Rightarrow> 'a striped \<Rightarrow> 'a spc \<Rightarrow> ('a striped \<times> 'a spc) option" where
  "st_lock t m s pc =
     (case mutex_lock t m (st_mutexes s) of
        Locked ms \<Rightarrow> Some (s\<lparr>st_mutexes := ms\<rparr>, pc)
      | Waiting \<Rightarrow> None
      | Lock_undef \<Rightarrow> Some (s, SUndef))"

definition st_unlock :: "tid \<Rightarrow> nat \<Rightarrow> 'a striped \<Rightarrow> 'a spc \<Rightarrow> ('a striped \<times> 'a spc) option" where
  "st_unlock t m s pc =
     (case mutex_unlock t m (st_mutexes s) of
        Some ms \<Rightarrow> Some (s\<lparr>st_mutexes := ms\<rparr>, pc)
      | None \<Rightarrow> Some (s, SUndef))"

definition lock_from :: "nat \<Rightarrow> 'a striped \<Rightarrow> 'a spc" where
  "lock_from i s = (if i < length (st_mutexes s) then SLockAll i else SRecheckCap)"

definition unlock_from :: "nat \<Rightarrow> exn option \<Rightarrow> 'a striped \<Rightarrow> 'a spc" where
  "unlock_from i ex s =
     (if i < length (st_mutexes s) then SUnlockAll i ex
      else case ex of None \<Rightarrow> SRet True | Some e \<Rightarrow> SThrown e)"

text \<open>What follows \<open>std::ranges::find\<close> in the bucket.\<close>

definition st_found :: "nat \<Rightarrow> 'a op \<Rightarrow> nat \<Rightarrow> 'a list \<Rightarrow> 'a spc" where
  "st_found m x i bucket =
     (let it = ranges_find (op_elem x) bucket; present = (it \<noteq> length bucket)
      in case x of
           Add e \<Rightarrow> if present then SUnlock m x False else SPush m e i
         | Remove e \<Rightarrow> if present then SErase m e i it else SUnlock m x False
         | Contains e \<Rightarrow> SUnlock m x present)"

fun striped_step ::
    "('a \<Rightarrow> size_t) \<Rightarrow> tid \<Rightarrow> 'a striped \<Rightarrow> 'a spc \<Rightarrow> ('a striped \<times> 'a spc) option" where
  "striped_step hash t s (SLock x) =
     (if st_mutexes s = [] then Some (s, SUndef)
      else let m = bucket_index hash (of_nat (length (st_mutexes s))) (op_elem x)
           in st_lock t m s (SBucket m x))"
| "striped_step hash t s (SBucket m x) =
     Some (s, if st_capacity s = 0 then SUndef
              else SFind m x (bucket_index hash (st_capacity s) (op_elem x)))"
| "striped_step hash t s (SFind m x i) =
     Some (s, if i < length (st_table s) then st_found m x i (st_table s ! i) else SUndef)"
| "striped_step hash t s (SPush m e i) =
     Some (if i < length (st_table s)
           then (s\<lparr>st_table := push_bucket i e (st_table s)\<rparr>, SCount m (Add e)) else (s, SUndef))"
| "striped_step hash t s (SErase m e i it) =
     Some (if i < length (st_table s) \<and> it < length (st_table s ! i)
           then (s\<lparr>st_table := erase_bucket i it (st_table s)\<rparr>, SCount m (Remove e)) else (s, SUndef))"
| "striped_step hash t s (SCount m x) =
     Some (s\<lparr>st_set_size := (if is_add x then st_set_size s + 1 else st_set_size s - 1)\<rparr>,
           SUnlock m x True)"
| "striped_step hash t s (SUnlock m x r) =
     st_unlock t m s (if is_add x \<and> r then SPolicyCap else SRet r)"
| "striped_step hash t s SPolicyCap = Some (s, SPolicySize (st_capacity s))"
| "striped_step hash t s (SPolicySize c) =
     Some (s, if st_overloaded s c then lock_from 0 s else SRet True)"
| "striped_step hash t s (SLockAll i) = st_lock t i s (lock_from (i + 1) s)"
| "striped_step hash t s SRecheckCap = Some (s, SRecheckSize (st_capacity s))"
| "striped_step hash t s (SRecheckSize c) =
     Some (s, if st_overloaded s c then SNewTable else unlock_from 0 None s)"
| "striped_step hash t s SNewTable =
     (let c = 2 * st_capacity s
      in Some (s, if vec_max < unat c then unlock_from 0 (Some Length_error) s
                  else if c = 0 then SUndef
                  else SMove c 0 (replicate (unat c) [])))"
| "striped_step hash t s (SMove c k nt) =
     Some (if k < length (st_table s)
           then (s, SMove c (k + 1) (move_bucket hash c (st_table s ! k) nt))
           else (s\<lparr>st_table := nt\<rparr>, SStoreCap c))"
| "striped_step hash t s (SStoreCap c) = Some (s\<lparr>st_capacity := c\<rparr>, unlock_from 0 None s)"
| "striped_step hash t s (SUnlockAll i ex) = st_unlock t i s (unlock_from (i + 1) ex s)"
| "striped_step hash t s pc = None"

definition striped_program :: "('a \<Rightarrow> size_t) \<Rightarrow> ('a, 'a striped, 'a spc) program" where
  "striped_program hash =
     \<lparr>p_idle = SIdle, p_start = SLock, p_step = striped_step hash,
      p_result = (\<lambda>pc. case pc of SRet r \<Rightarrow> Some r | _ \<Rightarrow> None)\<rparr>"

end
