(* ===== verification/StripedCorrect.thy ===== *)
theory StripedCorrect
  imports HashSetStriped
begin

text \<open>
  The striped set keeps the contract of the locale \<open>per_thread\<close>: what its table and its mutexes
  satisfy, what a thread knows while it holds a stripe, and why the other threads keep it. The number
  of stripes divides the number of buckets, so that all the elements of a bucket have one stripe.
\<close>

section \<open>The invariant\<close>

definition stripes :: "'a striped \<Rightarrow> nat" where
  "stripes s = length (st_mutexes s)"

definition st_inv :: "('a \<Rightarrow> size_t) \<Rightarrow> 'a striped \<Rightarrow> bool" where
  "st_inv hash s \<longleftrightarrow>
     table_ok hash (st_table s) \<and> 0 < stripes s \<and> stripes s dvd length (st_table s) \<and>
     (st_capacity s = of_nat (length (st_table s)) \<or>
      (\<exists>t. \<forall>m < stripes s. st_mutexes s ! m = Some t))"

text \<open>The mutexes a thread holds.\<close>

fun st_held :: "nat \<Rightarrow> 'a spc \<Rightarrow> nat set" where
  "st_held n (SBucket m x) = {m}"
| "st_held n (SFind m x i) = {m}"
| "st_held n (SPush m e i) = {m}"
| "st_held n (SErase m e i k) = {m}"
| "st_held n (SCount m x) = {m}"
| "st_held n (SUnlock m x r) = {m}"
| "st_held n (SLockAll i) = {..<i}"
| "st_held n SRecheckCap = {..<n}"
| "st_held n (SRecheckSize c) = {..<n}"
| "st_held n SNewTable = {..<n}"
| "st_held n (SMove c k nt) = {..<n}"
| "st_held n (SStoreCap c) = {..<n}"
| "st_held n (SUnlockAll i ex) = {i..<n}"
| "st_held n pc = {}"

definition st_index :: "('a \<Rightarrow> size_t) \<Rightarrow> 'a striped \<Rightarrow> 'a \<Rightarrow> nat" where
  "st_index hash s e = bucket_index hash (of_nat (length (st_table s))) e"

text \<open>
  What a thread knows at its program counter, about its stripe, its bucket and the new table.
\<close>

fun st_facts :: "('a \<Rightarrow> size_t) \<Rightarrow> 'a striped \<Rightarrow> 'a spc \<Rightarrow> bool" where
  "st_facts hash s (SBucket m x) \<longleftrightarrow> m = bucket_index hash (of_nat (stripes s)) (op_elem x)"
| "st_facts hash s (SFind m x i) \<longleftrightarrow>
     m = bucket_index hash (of_nat (stripes s)) (op_elem x) \<and> i = st_index hash s (op_elem x)"
| "st_facts hash s (SPush m e i) \<longleftrightarrow>
     m = bucket_index hash (of_nat (stripes s)) e \<and> i = st_index hash s e \<and>
     e \<notin> set (st_table s ! i)"
| "st_facts hash s (SErase m e i k) \<longleftrightarrow>
     m = bucket_index hash (of_nat (stripes s)) e \<and> i = st_index hash s e \<and>
     e \<in> set (st_table s ! i) \<and> k = ranges_find e (st_table s ! i)"
| "st_facts hash s (SLockAll i) \<longleftrightarrow> i < stripes s"
| "st_facts hash s (SMove c k nt) \<longleftrightarrow>
     unat c = 2 * length (st_table s) \<and> unat c \<le> vec_max \<and> k \<le> length (st_table s) \<and>
     buckets_ok hash c nt \<and> contents nt = contents (take k (st_table s))"
| "st_facts hash s (SUnlockAll i ex) \<longleftrightarrow> i < stripes s"
| "st_facts hash s SUndef \<longleftrightarrow> False"
| "st_facts hash s pc \<longleftrightarrow> True"

text \<open>The bucket count and \<open>capacity_\<close>, for a thread that holds a stripe.\<close>

fun st_capacity_ok :: "'a striped \<Rightarrow> 'a spc \<Rightarrow> bool" where
  "st_capacity_ok s (SStoreCap c) \<longleftrightarrow> c = of_nat (length (st_table s))"
| "st_capacity_ok s pc \<longleftrightarrow>
     (st_held (stripes s) pc \<noteq> {} \<longrightarrow> st_capacity s = of_nat (length (st_table s)))"

definition st_ok :: "('a \<Rightarrow> size_t) \<Rightarrow> tid \<Rightarrow> 'a striped \<Rightarrow> 'a spc \<Rightarrow> bool" where
  "st_ok hash t s pc \<longleftrightarrow>
     holds t (st_mutexes s) (st_held (stripes s) pc) \<and> st_facts hash s pc \<and> st_capacity_ok s pc"

fun st_stage :: "'a spc \<Rightarrow> 'a stage" where
  "st_stage SIdle = Outside"
| "st_stage (SLock x) = Before x"
| "st_stage (SBucket m x) = Before x"
| "st_stage (SFind m x i) = Before x"
| "st_stage (SPush m e i) = Before (Add e)"
| "st_stage (SErase m e i k) = Before (Remove e)"
| "st_stage (SCount m x) = Done True (if is_add x then 1 else - 1)"
| "st_stage (SUnlock m x r) = Done r 0"
| "st_stage (SRet r) = Done r 0"
| "st_stage SUndef = Broken"
| "st_stage pc = Done True 0"

definition st_elements :: "'a striped \<Rightarrow> 'a set" where
  "st_elements s = contents (st_table s)"

section \<open>Stripes\<close>

lemma stripe_of_bucket:
  assumes "st_inv hash s" "stripes s < 2 ^ 64"
  shows "st_index hash s e mod stripes s = bucket_index hash (of_nat (stripes s)) e"
proof -
  have ok: "table_ok hash (st_table s)" using assms(1) by (simp add: st_inv_def)
  have "unat (of_nat (stripes s) :: size_t) = stripes s" by (rule unat_of_nat_size [OF assms(2)])
  then show ?thesis
    using table_okD(3) [OF ok] assms(1)
    by (simp add: st_index_def bucket_index_def unat_mod mod_mod_cancel st_inv_def)
qed

lemma stripes_less:
  assumes "st_inv hash s"
  shows "stripes s < 2 ^ 64" "(of_nat (stripes s) :: size_t) \<noteq> 0"
    "bucket_index hash (of_nat (stripes s)) e < stripes s"
proof -
  have "stripes s \<le> length (st_table s)" "0 < stripes s"
    using assms table_okD(5) by (auto simp: st_inv_def dest: dvd_imp_le)
  moreover have "4 * length (st_table s) < 2 ^ 64"
    using assms table_okD(4) [of hash "st_table s"] by (simp add: st_inv_def)
  ultimately show less: "stripes s < 2 ^ 64" by linarith
  from unat_of_nat_size [OF this] have u: "unat (of_nat (stripes s) :: size_t) = stripes s" .
  with \<open>0 < stripes s\<close> show ne: "(of_nat (stripes s) :: size_t) \<noteq> 0" by (metis unat_0 less_irrefl)
  from bucket_index_less [OF ne, of hash e] u show "bucket_index hash (of_nat (stripes s)) e < stripes s"
    by simp
qed

section \<open>What a step of another thread keeps\<close>

definition st_frame :: "tid \<Rightarrow> 'a striped \<Rightarrow> 'a striped \<Rightarrow> bool" where
  "st_frame t s s' \<longleftrightarrow>
     leaves_mutexes t (st_mutexes s) (st_mutexes s') \<and>
     ((\<forall>m < stripes s. st_mutexes s ! m = Some t) \<or>
      st_capacity s' = st_capacity s \<and> length (st_table s') = length (st_table s) \<and>
      (\<forall>i. st_mutexes s ! (i mod stripes s) \<noteq> Some t \<longrightarrow> st_table s' ! i = st_table s ! i))"

lemma st_held_less: "holds t (st_mutexes s) (st_held (stripes s) pc) \<Longrightarrow> m \<in> st_held (stripes s) pc \<Longrightarrow>
    m < stripes s \<and> st_mutexes s ! m = Some t"
  by (auto simp: holds_def stripes_def)

lemma st_ok_stable:
  assumes inv: "st_inv hash s" and fr: "st_frame t s s'" and ut: "u \<noteq> t" and ok: "st_ok hash u s pc"
  shows "st_ok hash u s' pc"
proof -
  have len: "stripes s' = stripes s" using fr by (simp add: st_frame_def leaves_mutexes_def stripes_def)
  have hold: "holds u (st_mutexes s) (st_held (stripes s) pc)" using ok by (simp add: st_ok_def)
  have hold': "holds u (st_mutexes s') (st_held (stripes s') pc)"
    using holds_other [OF hold _ ut] fr len by (simp add: st_frame_def)
  show ?thesis
  proof (cases "st_held (stripes s) pc = {}")
    case True
    have "{..<stripes s} \<noteq> {}" using inv by (auto simp: st_inv_def)
    with True ok hold' len show ?thesis by (cases pc) (auto simp: st_ok_def)
  next
    case False
    then obtain m where m: "m \<in> st_held (stripes s) pc" by blast
    from st_held_less [OF hold m] have own: "m < stripes s" "st_mutexes s ! m = Some u" by blast+
    then have "\<not> (\<forall>m < stripes s. st_mutexes s ! m = Some t)" using ut by fastforce
    with fr have same: "st_capacity s' = st_capacity s" "length (st_table s') = length (st_table s)"
      and other: "\<And>i. st_mutexes s ! (i mod stripes s) \<noteq> Some t \<Longrightarrow> st_table s' ! i = st_table s ! i"
      by (auto simp: st_frame_def)
    have idx: "st_index hash s' e = st_index hash s e" for e by (simp add: st_index_def same)
    have bucket: "st_table s' ! st_index hash s e = st_table s ! st_index hash s e"
      if "bucket_index hash (of_nat (stripes s)) e \<in> st_held (stripes s) pc" for e
      by (rule other) (use st_held_less [OF hold that] ut stripe_of_bucket [OF inv stripes_less(1) [OF inv]]
          in simp)
    have all: "st_table s' = st_table s" if "st_held (stripes s) pc = {..<stripes s}"
    proof (rule nth_equalityI [OF same(2)], rule other)
      fix i
      have "i mod stripes s \<in> st_held (stripes s) pc"
        using inv that by (simp add: st_inv_def)
      with st_held_less [OF hold this] ut show "st_mutexes s ! (i mod stripes s) \<noteq> Some t" by auto
    qed
    show ?thesis
      using ok hold' len idx bucket all same
      by (cases pc) (simp_all add: st_ok_def)
  qed
qed

section \<open>The steps\<close>

definition st_goes ::
    "('a \<Rightarrow> size_t) \<Rightarrow> tid \<Rightarrow> 'a striped \<Rightarrow> 'a spc \<Rightarrow> 'a striped \<Rightarrow> 'a spc \<Rightarrow> bool" where
  "st_goes hash t s pc s' pc' \<longleftrightarrow>
     st_inv hash s' \<and> st_ok hash t s' pc' \<and> st_frame t s s' \<and>
     moves (st_elements s) (st_set_size s) (st_stage pc) (st_elements s') (st_set_size s') (st_stage pc')"

lemma st_goes_quiet:
  assumes "st_inv hash s" "st_ok hash t s pc'"
    and "moves (st_elements s) (st_set_size s) (st_stage pc) (st_elements s) (st_set_size s) (st_stage pc')"
  shows "st_goes hash t s pc s pc'"
  using assms by (simp add: st_goes_def st_frame_def)

lemma st_invD:
  assumes "st_inv hash s"
  shows "table_ok hash (st_table s)" "0 < stripes s" "stripes s dvd length (st_table s)"
  using assms by (simp_all add: st_inv_def)

lemma st_okD:
  assumes "st_ok hash t s pc"
  shows "holds t (st_mutexes s) (st_held (stripes s) pc)" "st_facts hash s pc" "st_capacity_ok s pc"
  using assms by (simp_all add: st_ok_def)

text \<open>A mutex is taken; nothing else changes.\<close>

lemma st_goes_lock:
  assumes inv: "st_inv hash s" and ok: "st_ok hash t s pc" and m: "m < stripes s" "m \<notin> st_held (stripes s) pc"
    and stp: "st_lock t m s pc' = Some (s', pc'')"
    and held: "st_held (stripes s) pc' = insert m (st_held (stripes s) pc)"
    and facts: "\<And>ms. length ms = stripes s \<Longrightarrow> st_capacity s = of_nat (length (st_table s)) \<Longrightarrow>
      st_facts hash (s\<lparr>st_mutexes := ms\<rparr>) pc' \<and> st_capacity_ok (s\<lparr>st_mutexes := ms\<rparr>) pc'"
    and stage: "st_stage pc' = st_stage pc"
  shows "st_goes hash t s pc s' pc''"
proof -
  have "m < length (st_mutexes s)" using m(1) by (simp add: stripes_def)
  from st_okD(1) [OF ok] this m(2) show ?thesis
  proof (cases rule: mutex_lock_cases)
    case free
    let ?s = "s\<lparr>st_mutexes := (st_mutexes s)[m := Some t]\<rparr>"
    from free(2) inv m(1) have cap: "st_capacity s = of_nat (length (st_table s))"
      by (auto simp: st_inv_def)
    have n: "stripes ?s = stripes s" by (simp add: stripes_def)
    have "s' = ?s" "pc'' = pc'" using stp free(1) by (simp_all add: st_lock_def)
    moreover have "st_inv hash ?s" using st_invD [OF inv] cap by (simp add: st_inv_def n)
    moreover have "st_ok hash t ?s pc'"
      using free(3) facts [OF _ cap] by (simp add: st_ok_def n held) (simp add: stripes_def)
    moreover have "st_frame t s ?s" using free(4) by (simp add: st_frame_def)
    ultimately show ?thesis using stage move_stay by (simp add: st_goes_def st_elements_def)
  next
    case taken
    with stp show ?thesis by (simp add: st_lock_def)
  qed
qed

text \<open>A mutex is released.\<close>

lemma st_goes_unlock:
  assumes inv: "st_inv hash s" and ok: "st_ok hash t s pc" and m: "m \<in> st_held (stripes s) pc"
    and cap: "st_capacity s = of_nat (length (st_table s))"
    and stp: "st_unlock t m s pc' = Some (s', pc'')"
    and held: "st_held (stripes s) pc' = st_held (stripes s) pc - {m}"
    and facts: "\<And>ms. length ms = stripes s \<Longrightarrow> st_facts hash (s\<lparr>st_mutexes := ms\<rparr>) pc' \<and>
      st_capacity_ok (s\<lparr>st_mutexes := ms\<rparr>) pc'"
    and stage: "st_stage pc' = st_stage pc"
  shows "st_goes hash t s pc s' pc''"
proof -
  let ?s = "s\<lparr>st_mutexes := (st_mutexes s)[m := None]\<rparr>"
  note un = mutex_unlock_held [OF st_okD(1) [OF ok] m]
  have n: "stripes ?s = stripes s" by (simp add: stripes_def)
  have "s' = ?s" "pc'' = pc'" using stp un(1) by (simp_all add: st_unlock_def)
  moreover have "st_inv hash ?s" using st_invD [OF inv] cap by (simp add: st_inv_def n)
  moreover have "st_ok hash t ?s pc'"
    using un(2) facts by (simp add: st_ok_def n held) (simp add: stripes_def)
  moreover have "st_frame t s ?s" using un(3) by (simp add: st_frame_def)
  ultimately show ?thesis using stage move_stay by (simp add: st_goes_def st_elements_def)
qed

lemma lock_step:
  assumes inv: "st_inv hash s" and ok: "st_ok hash t s (SLock x)"
    and stp: "striped_step hash t s (SLock x) = Some (s', pc')"
  shows "st_goes hash t s (SLock x) s' pc'"
proof -
  let ?m = "bucket_index hash (of_nat (stripes s)) (op_elem x)"
  have "st_mutexes s \<noteq> []" using st_invD(2) [OF inv] by (auto simp: stripes_def)
  with stp have "st_lock t ?m s (SBucket ?m x) = Some (s', pc')" by (simp add: Let_def stripes_def)
  then show ?thesis
    by (rule st_goes_lock [OF inv ok stripes_less(3) [OF inv], rotated])
      (simp_all add: stripes_def)
qed

lemma lock_all_step:
  assumes inv: "st_inv hash s" and ok: "st_ok hash t s (SLockAll i)"
    and stp: "striped_step hash t s (SLockAll i) = Some (s', pc')"
  shows "st_goes hash t s (SLockAll i) s' pc'"
proof -
  have i: "i < stripes s" using st_okD(2) [OF ok] by simp
  from stp have "st_lock t i s (lock_from (i + 1) s) = Some (s', pc')" by simp
  then show ?thesis
  proof (rule st_goes_lock [OF inv ok i, rotated])
    show "st_held (stripes s) (lock_from (i + 1) s) = insert i (st_held (stripes s) (SLockAll i))"
      using i by (auto simp: lock_from_def stripes_def)
  qed (use i in \<open>auto simp: lock_from_def stripes_def\<close>)
qed

lemma unlock_step:
  assumes inv: "st_inv hash s" and ok: "st_ok hash t s (SUnlock m x r)"
    and stp: "striped_step hash t s (SUnlock m x r) = Some (s', pc')"
  shows "st_goes hash t s (SUnlock m x r) s' pc'"
proof -
  from stp have "st_unlock t m s (if is_add x \<and> r then SPolicyCap else SRet r) = Some (s', pc')" by simp
  then show ?thesis
    by (rule st_goes_unlock [OF inv ok _ _, rotated 2]) (use st_okD(3) [OF ok] in auto)
qed

lemma unlock_all_step:
  assumes inv: "st_inv hash s" and ok: "st_ok hash t s (SUnlockAll i ex)"
    and stp: "striped_step hash t s (SUnlockAll i ex) = Some (s', pc')"
  shows "st_goes hash t s (SUnlockAll i ex) s' pc'"
proof -
  have i: "i < stripes s" using st_okD(2) [OF ok] by simp
  then have cap: "st_capacity s = of_nat (length (st_table s))" using st_okD(3) [OF ok] by auto
  from stp have "st_unlock t i s (unlock_from (i + 1) ex s) = Some (s', pc')" by simp
  then show ?thesis
  proof (rule st_goes_unlock [OF inv ok _ cap, rotated])
    show "st_held (stripes s) (unlock_from (i + 1) ex s) = st_held (stripes s) (SUnlockAll i ex) - {i}"
      using i by (auto simp: unlock_from_def stripes_def split: option.split)
  qed (use i cap in \<open>auto simp: unlock_from_def stripes_def split: option.split\<close>)
qed

lemma bucket_step:
  assumes inv: "st_inv hash s" and ok: "st_ok hash t s (SBucket m x)"
    and stp: "striped_step hash t s (SBucket m x) = Some (s', pc')"
  shows "st_goes hash t s (SBucket m x) s' pc'"
proof -
  have cap: "st_capacity s = of_nat (length (st_table s))" using st_okD(3) [OF ok] by simp
  then have "st_capacity s \<noteq> 0" using table_okD(2) [OF st_invD(1) [OF inv]] by simp
  with stp cap have r: "s' = s" "pc' = SFind m x (st_index hash s (op_elem x))"
    by (auto simp: st_index_def)
  have "st_ok hash t s pc'" using ok unfolding r st_ok_def by auto
  then show ?thesis unfolding r(1) by (rule st_goes_quiet [OF inv]) (simp add: r move_stay)
qed

lemma st_find_step:
  assumes inv: "st_inv hash s" and ok: "st_ok hash t s (SFind m x i)"
    and stp: "striped_step hash t s (SFind m x i) = Some (s', pc')"
  shows "st_goes hash t s (SFind m x i) s' pc'"
proof -
  note tab = st_invD(1) [OF inv]
  have i: "i = st_index hash s (op_elem x)" using st_okD(2) [OF ok] by simp
  then have less: "i < length (st_table s)" using in_table(2) [OF tab] by (simp add: st_index_def)
  with stp have r: "s' = s" "pc' = st_found m x i (st_table s ! i)" by auto
  have mem: "op_elem x \<in> set (st_table s ! i) \<longleftrightarrow> op_elem x \<in> st_elements s"
    using in_table(1) [OF tab, of "op_elem x"] by (simp add: i st_index_def st_elements_def)
  have "st_ok hash t s pc'"
    using ok by (cases x) (auto simp: r st_found_def Let_def st_ok_def)
  moreover have "moves (st_elements s) (st_set_size s) (st_stage (SFind m x i))
      (st_elements s) (st_set_size s) (st_stage pc')"
  proof (cases x)
    case (Contains e)
    then show ?thesis using move_read [of x "st_elements s"] mem by (simp add: r st_found_def Let_def)
  qed (use move_read [of x "st_elements s"] move_stay mem in \<open>auto simp: r st_found_def Let_def\<close>)
  ultimately show ?thesis unfolding r(1) by (rule st_goes_quiet [OF inv])
qed

text \<open>The table changes in the bucket of the stripe the thread holds.\<close>

lemma st_goes_table:
  assumes inv: "st_inv hash s" and ok: "st_ok hash t s pc" and held: "st_held (stripes s) pc = {m}"
    and m: "m = bucket_index hash (of_nat (stripes s)) e"
    and T: "table_ok hash T" "length T = length (st_table s)"
      "\<And>j. j \<noteq> st_index hash s e \<Longrightarrow> T ! j = st_table s ! j"
    and x: "pc' = SCount m x" "st_stage pc = Before x" "x \<noteq> Contains e" "op_elem x = e"
    and eff: "updates x (st_elements s)" "contents T = snd (apply_op x (st_elements s))"
  shows "st_goes hash t s pc (s\<lparr>st_table := T\<rparr>) pc'"
proof -
  let ?s = "s\<lparr>st_table := T\<rparr>"
  have cap: "st_capacity s = of_nat (length (st_table s))"
    using st_okD(3) [OF ok] held x(2) by (cases pc) simp_all
  have n: "stripes ?s = stripes s" by (simp add: stripes_def)
  have own: "st_mutexes s ! m = Some t"
    using st_held_less [OF st_okD(1) [OF ok]] held by simp
  have "st_inv hash ?s" using st_invD [OF inv] T(1,2) cap by (simp add: st_inv_def n)
  moreover have "st_ok hash t ?s pc'"
    using st_okD(1) [OF ok] held cap T(2) by (simp add: st_ok_def n x(1))
  moreover have "T ! i = st_table s ! i" if "st_mutexes s ! (i mod stripes s) \<noteq> Some t" for i
    by (rule T(3)) (use that own stripe_of_bucket [OF inv stripes_less(1) [OF inv], of e] m in metis)
  then have "st_frame t s ?s" using T(2) by (simp add: st_frame_def)
  moreover have "moves (st_elements s) (st_set_size s) (Before x) (contents T) (st_set_size s)
      (Done True (weight x))"
    by (rule move_update [OF eff])
  moreover have "weight x = (if is_add x then 1 else - 1)" using x(3,4) by (cases x) auto
  ultimately show ?thesis using x(1,2) by (simp add: st_goes_def st_elements_def)
qed

lemma push_step:
  assumes inv: "st_inv hash s" and ok: "st_ok hash t s (SPush m e i)"
    and stp: "striped_step hash t s (SPush m e i) = Some (s', pc')"
  shows "st_goes hash t s (SPush m e i) s' pc'"
proof -
  note tab = st_invD(1) [OF inv] and facts = st_okD(2) [OF ok]
  from facts have i: "i = st_index hash s e" "m = bucket_index hash (of_nat (stripes s)) e"
    "e \<notin> set (st_table s ! i)" by auto
  from i(1) have less: "i < length (st_table s)" using in_table(2) [OF tab] by (simp add: st_index_def)
  have push: "table_ok hash (push_bucket i e (st_table s))"
    "contents (push_bucket i e (st_table s)) = insert e (st_elements s)"
    using table_ok_push [OF tab _ i(3)] i(1) by (simp_all add: st_index_def st_elements_def)
  have "e \<notin> st_elements s" using in_table(1) [OF tab, of e] i(1,3) by (simp add: st_index_def st_elements_def)
  then have "st_goes hash t s (SPush m e i) (s\<lparr>st_table := push_bucket i e (st_table s)\<rparr>) (SCount m (Add e))"
    by (intro st_goes_table [OF inv ok, of m e _ _ "Add e"])
      (use push i in \<open>simp_all add: push_bucket_other updates_def\<close>)
  with stp less show ?thesis by simp
qed

lemma erase_step:
  assumes inv: "st_inv hash s" and ok: "st_ok hash t s (SErase m e i k)"
    and stp: "striped_step hash t s (SErase m e i k) = Some (s', pc')"
  shows "st_goes hash t s (SErase m e i k) s' pc'"
proof -
  note tab = st_invD(1) [OF inv] and facts = st_okD(2) [OF ok]
  from facts have i: "i = st_index hash s e" "m = bucket_index hash (of_nat (stripes s)) e"
    "e \<in> set (st_table s ! i)" "k = ranges_find e (st_table s ! i)" by auto
  from i(1) have less: "i < length (st_table s)" using in_table(2) [OF tab] by (simp add: st_index_def)
  from i(3,4) have k: "k < length (st_table s ! i)" using ranges_find_less by metis
  have erase: "table_ok hash (erase_bucket i k (st_table s))"
    "contents (erase_bucket i k (st_table s)) = st_elements s - {e}"
    using table_ok_erase [OF tab _ i(4)] i(1) by (simp_all add: st_index_def st_elements_def)
  have "e \<in> st_elements s" using in_table(1) [OF tab, of e] i(1,3) by (simp add: st_index_def st_elements_def)
  then have "st_goes hash t s (SErase m e i k) (s\<lparr>st_table := erase_bucket i k (st_table s)\<rparr>)
      (SCount m (Remove e))"
    by (intro st_goes_table [OF inv ok, of m e _ _ "Remove e"])
      (use erase i in \<open>simp_all add: erase_bucket_other updates_def\<close>)
  with stp less k show ?thesis by simp
qed

lemma count_step:
  assumes inv: "st_inv hash s" and ok: "st_ok hash t s (SCount m x)"
    and stp: "striped_step hash t s (SCount m x) = Some (s', pc')"
  shows "st_goes hash t s (SCount m x) s' pc'"
proof -
  let ?n = "if is_add x then st_set_size s + 1 else st_set_size s - 1"
  let ?s = "s\<lparr>st_set_size := ?n\<rparr>"
  from stp have r: "s' = ?s" "pc' = SUnlock m x True" by simp_all
  have n: "stripes ?s = stripes s" by (simp add: stripes_def)
  have "st_inv hash ?s" using inv by (simp add: st_inv_def n)
  moreover have "st_ok hash t ?s pc'" using ok by (simp add: r st_ok_def n)
  moreover have "st_frame t s ?s" by (simp add: st_frame_def)
  moreover have "moves (st_elements s) (st_set_size s) (st_stage (SCount m x)) (st_elements s) ?n
      (Done True 0)"
    unfolding st_stage.simps by (rule move_count) simp
  ultimately show ?thesis by (simp add: r st_goes_def st_elements_def)
qed

text \<open>The steps of \<open>Policy\<close> and the allocation of the new table.\<close>

lemma policy_steps:
  assumes inv: "st_inv hash s" and ok: "st_ok hash t s pc"
    and stp: "striped_step hash t s pc = Some (s', pc')"
    and pc: "pc = SPolicyCap \<or> (\<exists>c. pc = SPolicySize c) \<or> pc = SRecheckCap \<or> (\<exists>c. pc = SRecheckSize c)"
  shows "st_goes hash t s pc s' pc'"
proof -
  have n: "0 < length (st_mutexes s)" using st_invD(2) [OF inv] by (simp add: stripes_def)
  have r: "s' = s" and q: "st_stage pc' = Done True 0" "st_stage pc = Done True 0"
    using pc stp n by (auto simp: lock_from_def unlock_from_def split: if_splits)
  have "st_ok hash t s pc'"
    using pc stp n ok
    by (auto simp: st_ok_def lock_from_def unlock_from_def stripes_def atLeast0LessThan split: if_splits)
  then show ?thesis unfolding r by (rule st_goes_quiet [OF inv]) (simp add: q move_stay)
qed

lemma new_table_step:
  assumes inv: "st_inv hash s" and ok: "st_ok hash t s SNewTable"
    and stp: "striped_step hash t s SNewTable = Some (s', pc')"
  shows "st_goes hash t s SNewTable s' pc'"
proof -
  note tab = st_invD(1) [OF inv]
  have n: "0 < length (st_mutexes s)" "0 < stripes s" using st_invD(2) [OF inv] by (simp_all add: stripes_def)
  then have cap: "st_capacity s = of_nat (length (st_table s))" using st_okD(3) [OF ok] by auto
  let ?c = "2 * st_capacity s"
  have c: "unat ?c = 2 * length (st_table s)" "?c \<noteq> 0" using double_length [OF tab] cap by simp_all
  have r: "s' = s" "pc' = (if vec_max < unat ?c then SUnlockAll 0 (Some Length_error)
      else SMove ?c 0 (replicate (unat ?c) []))"
    using stp c(2) n by (auto simp: Let_def unlock_from_def)
  have "st_ok hash t s pc'"
    using ok n c(1) cap buckets_ok_empty [of hash ?c]
    by (auto simp: r st_ok_def atLeast0LessThan contents_def)
  then show ?thesis unfolding r(1) by (rule st_goes_quiet [OF inv]) (simp add: r move_stay)
qed

lemma move_step:
  assumes inv: "st_inv hash s" and ok: "st_ok hash t s (SMove c k nt)"
    and stp: "striped_step hash t s (SMove c k nt) = Some (s', pc')"
  shows "st_goes hash t s (SMove c k nt) s' pc'"
proof -
  note tab = st_invD(1) [OF inv] and facts = st_okD(2) [OF ok]
  from facts have F: "unat c = 2 * length (st_table s)" "unat c \<le> vec_max" "k \<le> length (st_table s)"
    "buckets_ok hash c nt" "contents nt = contents (take k (st_table s))" by simp_all
  have c: "c \<noteq> 0" using F(1) table_okD(5) [OF tab] by auto
  show ?thesis
  proof (cases "k < length (st_table s)")
    case True
    with stp have r: "s' = s" "pc' = SMove c (k + 1) (move_bucket hash c (st_table s ! k) nt)" by auto
    have "st_ok hash t s pc'"
      using ok True move_one [OF table_okD(1) [OF tab] True F(4) c F(5)] by (simp add: r st_ok_def)
    then show ?thesis unfolding r(1) by (rule st_goes_quiet [OF inv]) (simp add: r move_stay)
  next
    case False
    let ?s = "s\<lparr>st_table := nt\<rparr>"
    from False stp have r: "s' = ?s" "pc' = SStoreCap c" by simp_all
    have n: "stripes ?s = stripes s" by (simp add: stripes_def)
    have len: "length nt = 2 * length (st_table s)" using F(1,4) by (simp add: buckets_ok_def)
    have cword: "c = of_nat (2 * length (st_table s))" unfolding F(1) [symmetric] by simp
    have all: "\<forall>m < stripes s. st_mutexes s ! m = Some t"
      using st_held_less [OF st_okD(1) [OF ok]] by simp
    have "st_inv hash ?s"
      using st_invD [OF inv] table_ok_of [OF F(4,2) c] all len by (auto simp: st_inv_def n)
    moreover have "st_ok hash t ?s pc'"
      using ok len cword by (simp add: r st_ok_def n)
    moreover have "st_frame t s ?s" using all by (simp add: st_frame_def)
    moreover have "contents nt = st_elements s" using F(5) False by (simp add: st_elements_def)
    ultimately show ?thesis by (simp add: r st_goes_def st_elements_def move_stay)
  qed
qed

lemma store_step:
  assumes inv: "st_inv hash s" and ok: "st_ok hash t s (SStoreCap c)"
    and stp: "striped_step hash t s (SStoreCap c) = Some (s', pc')"
  shows "st_goes hash t s (SStoreCap c) s' pc'"
proof -
  let ?s = "s\<lparr>st_capacity := c\<rparr>"
  have n: "stripes ?s = stripes s" "0 < length (st_mutexes s)" "stripes s = length (st_mutexes s)"
    using st_invD(2) [OF inv] by (simp_all add: stripes_def)
  then have r: "s' = ?s" "pc' = SUnlockAll 0 None" using stp by (simp_all add: unlock_from_def)
  have c: "c = of_nat (length (st_table s))" using st_okD(3) [OF ok] by simp
  have all: "\<forall>m < stripes s. st_mutexes s ! m = Some t"
    using st_held_less [OF st_okD(1) [OF ok]] by simp
  have "st_inv hash ?s" using st_invD [OF inv] by (simp add: st_inv_def n(1)) (simp add: c)
  moreover have "st_ok hash t ?s pc'"
    using ok n(2) c by (auto simp: r st_ok_def stripes_def atLeast0LessThan)
  moreover have "st_frame t s ?s" using all by (simp add: st_frame_def)
  ultimately show ?thesis by (simp add: r st_goes_def st_elements_def move_stay)
qed

lemma striped_goes:
  assumes "st_inv hash s" "st_ok hash t s pc" "striped_step hash t s pc = Some (s', pc')"
  shows "st_goes hash t s pc s' pc'"
proof (cases pc)
  case (SLock x)
  with lock_step assms show ?thesis by blast
next
  case (SBucket m x)
  with bucket_step assms show ?thesis by blast
next
  case (SFind m x i)
  with st_find_step assms show ?thesis by blast
next
  case (SPush m e i)
  show ?thesis unfolding SPush by (rule push_step) (use assms in \<open>simp_all only: SPush\<close>)
next
  case (SErase m e i k)
  show ?thesis unfolding SErase by (rule erase_step) (use assms in \<open>simp_all only: SErase\<close>)
next
  case (SCount m x)
  with count_step assms show ?thesis by blast
next
  case (SUnlock m x r)
  with unlock_step assms show ?thesis by blast
next
  case (SLockAll i)
  with lock_all_step assms show ?thesis by blast
next
  case SNewTable
  with new_table_step assms show ?thesis by blast
next
  case (SMove c k nt)
  with move_step assms show ?thesis by blast
next
  case (SStoreCap c)
  with store_step assms show ?thesis by blast
next
  case (SUnlockAll i ex)
  with unlock_all_step assms show ?thesis by blast
next
  case SPolicyCap
  show ?thesis by (rule policy_steps [OF assms]) (simp add: SPolicyCap)
next
  case (SPolicySize c)
  show ?thesis by (rule policy_steps [OF assms]) (simp add: SPolicySize)
next
  case SRecheckCap
  show ?thesis by (rule policy_steps [OF assms]) (simp add: SRecheckCap)
next
  case (SRecheckSize c)
  show ?thesis by (rule policy_steps [OF assms]) (simp add: SRecheckSize)
qed (use assms(3) in simp_all)

section \<open>The contract\<close>

text \<open>An empty set that nobody uses yet, as the constructor makes it.\<close>

definition st_start :: "('a \<Rightarrow> size_t) \<Rightarrow> 'a striped \<Rightarrow> bool" where
  "st_start hash s \<longleftrightarrow>
     st_inv hash s \<and> st_elements s = {} \<and> st_set_size s = 0 \<and> (\<forall>t. holds t (st_mutexes s) {})"

lemma construct_striped_start:
  assumes "construct_striped c = Inr s"
  shows "st_start hash s"
proof -
  have c: "max 1 c \<noteq> 0" by (auto simp: max_def)
  from assms have s: "s = \<lparr>st_table = replicate (unat (max 1 c)) [],
      st_mutexes = replicate (unat (max 1 c)) None, st_set_size = 0, st_capacity = max 1 c\<rparr>"
    and le: "unat (max 1 c) \<le> vec_max"
    by (auto simp: construct_striped_def Let_def split: if_splits)
  have "st_inv hash s"
    using table_ok_new [OF c le] c by (simp add: s st_inv_def stripes_def unat_gt_0)
  then show ?thesis by (simp add: s st_start_def st_elements_def holds_def)
qed

interpretation st: per_thread "striped_program hash" "st_start hash" "st_inv hash" "st_ok hash" "\<lambda>p q. True"
  st_elements st_set_size st_stage for hash
proof unfold_locales
  fix s s' :: "'a striped" and pc pc' q :: "'a spc" and t u and x :: "'a op" and r
  show "st_inv hash s \<and> st_elements s = {} \<and> st_set_size s = 0 \<and>
      st_ok hash t s (p_idle (striped_program hash))" if "st_start hash s"
    using that by (simp add: st_start_def st_ok_def striped_program_def)
  show "st_ok hash t s (p_start (striped_program hash) x)"
    if "st_ok hash t s (p_idle (striped_program hash))"
    using that by (simp add: st_ok_def striped_program_def)
  show "st_stage pc = Done r 0 \<and> (st_ok hash t s pc \<longrightarrow> st_ok hash t s (p_idle (striped_program hash)))"
    if "p_result (striped_program hash) pc = Some r"
    using that by (cases pc) (auto simp: striped_program_def st_ok_def)
  show "st_stage pc \<noteq> Broken" if "st_ok hash t s pc"
    using that by (cases pc) (auto simp: st_ok_def)
  assume inv: "st_inv hash s" and ok: "st_ok hash t s pc"
    and "p_step (striped_program hash) t s pc = Some (s', pc')"
  then have go: "st_goes hash t s pc s' pc'"
    using striped_goes by (simp add: striped_program_def)
  then show "st_inv hash s' \<and> st_ok hash t s' pc' \<and>
      moves (st_elements s) (st_set_size s) (st_stage pc) (st_elements s') (st_set_size s') (st_stage pc')"
    by (simp add: st_goes_def)
  show "st_ok hash u s' q \<and> True \<and> True" if "u \<noteq> t" "st_ok hash u s q"
    using st_ok_stable [OF inv _ that] go by (simp add: st_goes_def)
qed (simp_all add: st_elements_def striped_program_def)

end
