(* ===== verification/StripedProps.thy ===== *)
theory StripedProps
  imports StripedCorrect Progress
begin

text \<open>
  The properties of the striped set: it is linearizable, its mutexes keep threads apart, it does not
  deadlock, and its operations terminate.
\<close>

lemma st_reach:
  assumes "construct_striped c = Inr s0" "sys_run (striped_program hash) (sys_init (striped_program hash) s0) h s"
  shows "st_inv hash (shared s)" "st_ok hash t (shared s) (pcs s t)"
  by (rule st.reachable [OF construct_striped_start [OF assms(1)] assms(2)])+

text \<open>The bucket a thread reads or writes, and the threads that are replacing the table.\<close>

fun st_bucket :: "'a spc \<Rightarrow> nat option" where
  "st_bucket (SFind m x i) = Some i"
| "st_bucket (SPush m e i) = Some i"
| "st_bucket (SErase m e i k) = Some i"
| "st_bucket pc = None"

fun st_resizing :: "'a spc \<Rightarrow> bool" where
  "st_resizing SNewTable = True"
| "st_resizing (SMove c k nt) = True"
| "st_resizing (SStoreCap c) = True"
| "st_resizing pc = False"

lemma st_bucket_held:
  assumes inv: "st_inv hash s" and ok: "st_ok hash t s pc" and b: "st_bucket pc = Some i"
  shows "i mod stripes s \<in> st_held (stripes s) pc" "i < length (st_table s)"
proof -
  note idx = stripe_of_bucket [OF inv stripes_less(1) [OF inv]]
  have less: "st_index hash s e < length (st_table s)" for e
    using in_table(2) [OF st_invD(1) [OF inv]] by (simp add: st_index_def)
  show "i mod stripes s \<in> st_held (stripes s) pc" "i < length (st_table s)"
    using st_okD(2) [OF ok] b idx less by (cases pc; auto)+
qed

lemma st_resizing_held: "st_resizing pc \<Longrightarrow> st_held n pc = {..<n}"
  by (cases pc) auto

section \<open>Deadlock\<close>

text \<open>The mutex a thread would wait for.\<close>

fun st_wants :: "('a \<Rightarrow> size_t) \<Rightarrow> nat \<Rightarrow> 'a spc \<Rightarrow> nat option" where
  "st_wants hash n (SLock x) = Some (bucket_index hash (of_nat n) (op_elem x))"
| "st_wants hash n (SLockAll i) = Some i"
| "st_wants hash n pc = None"

fun st_finished :: "'a spc \<Rightarrow> bool" where
  "st_finished SIdle = True"
| "st_finished (SRet r) = True"
| "st_finished (SThrown ex) = True"
| "st_finished pc = False"

lemma st_blocked:
  assumes "st_ok hash t s pc" "st_inv hash s" "\<not> st_finished pc" "striped_step hash t s pc = None"
  shows "\<exists>m u. st_wants hash (stripes s) pc = Some m \<and> m < stripes s \<and> st_mutexes s ! m = Some u"
proof -
  have lock: "m < stripes s \<Longrightarrow> st_lock t m s q = None \<Longrightarrow> \<exists>u. st_mutexes s ! m = Some u" for m q
    by (auto simp: st_lock_def mutex_lock_def split: if_splits option.splits)
  show ?thesis
  proof (cases pc)
    case (SLock x)
    then have "st_lock t (bucket_index hash (of_nat (stripes s)) (op_elem x)) s
        (SBucket (bucket_index hash (of_nat (stripes s)) (op_elem x)) x) = None"
      using assms(4) by (simp add: Let_def stripes_def split: if_splits)
    from lock [OF stripes_less(3) [OF assms(2)] this] stripes_less(3) [OF assms(2)] SLock
    show ?thesis by simp
  next
    case (SLockAll i)
    with assms(1) have "i < stripes s" by (simp add: st_ok_def)
    with lock [of i] assms(4) SLockAll show ?thesis by simp
  next
    case (SUnlock m x r)
    with assms(4) show ?thesis by (simp add: st_unlock_def split: option.splits)
  next
    case (SUnlockAll i ex)
    with assms(4) show ?thesis by (simp add: st_unlock_def split: option.splits)
  next
    case SUndef
    with assms(1) show ?thesis by (simp add: st_ok_def)
  qed (use assms(3,4) in \<open>simp_all add: Let_def\<close>)
qed

text \<open>A thread that holds a mutex and waits for one waits for a higher one.\<close>

lemma st_ascending:
  assumes "st_wants hash n pc = Some m" "l \<in> st_held n pc"
  shows "l < m"
  using assms by (cases pc) auto

section \<open>Ranks\<close>

fun st_budget :: "'a spc \<Rightarrow> nat" where
  "st_budget (SStoreCap c) = 0"
| "st_budget (SUnlockAll i ex) = 0"
| "st_budget (SRet r) = 0"
| "st_budget SIdle = 0"
| "st_budget (SThrown ex) = 0"
| "st_budget SUndef = 0"
| "st_budget pc = 1"

fun st_rank :: "nat \<Rightarrow> nat \<Rightarrow> 'a spc \<Rightarrow> nat" where
  "st_rank n l (SLock x) = 2 * n + l + 20"
| "st_rank n l (SBucket m x) = 2 * n + l + 19"
| "st_rank n l (SFind m x i) = 2 * n + l + 18"
| "st_rank n l (SPush m e i) = 2 * n + l + 17"
| "st_rank n l (SErase m e i k) = 2 * n + l + 17"
| "st_rank n l (SCount m x) = 2 * n + l + 16"
| "st_rank n l (SUnlock m x r) = 2 * n + l + 15"
| "st_rank n l SPolicyCap = 2 * n + l + 14"
| "st_rank n l (SPolicySize c) = 2 * n + l + 13"
| "st_rank n l (SLockAll i) = (n - i) + n + l + 10"
| "st_rank n l SRecheckCap = n + l + 9"
| "st_rank n l (SRecheckSize c) = n + l + 8"
| "st_rank n l SNewTable = n + l + 7"
| "st_rank n l (SMove c k nt) = n + (l - k) + 6"
| "st_rank n l (SStoreCap c) = n + 5"
| "st_rank n l (SUnlockAll i ex) = (n - i) + 3"
| "st_rank n l pc = 0"

lemma st_lock_result: "st_lock t m s pc = Some (s', pc') \<Longrightarrow>
    (pc' = pc \<or> pc' = SUndef) \<and> st_table s' = st_table s \<and> stripes s' = stripes s"
  by (auto simp: st_lock_def mutex_lock_def stripes_def split: if_splits option.splits)

lemma st_unlock_result: "st_unlock t m s pc = Some (s', pc') \<Longrightarrow>
    (pc' = pc \<or> pc' = SUndef) \<and> st_table s' = st_table s \<and> stripes s' = stripes s"
  by (auto simp: st_unlock_def mutex_unlock_def stripes_def split: if_splits option.splits)

lemma st_rank_dec:
  assumes "striped_step hash t s pc = Some (s', pc')"
  shows "st_budget pc' < st_budget pc \<or>
    st_budget pc' = st_budget pc \<and> st_rank (stripes s') (length (st_table s')) = st_rank (stripes s) (length (st_table s)) \<and>
    st_rank (stripes s) (length (st_table s)) pc' < st_rank (stripes s) (length (st_table s)) pc"
proof -
  have le: "st_budget q \<le> 1" for q :: "'a spc" by (cases q) auto
  show ?thesis
  proof (cases pc)
    case (SLock x)
    with assms show ?thesis by (auto simp: Let_def split: if_splits dest!: st_lock_result)
  next
    case (SFind m x i)
    with assms show ?thesis
      by (cases x) (auto simp: st_found_def Let_def split: if_splits)
  next
    case (SUnlock m x r)
    with assms show ?thesis by (auto split: if_splits dest!: st_unlock_result)
  next
    case (SLockAll i)
    with assms show ?thesis
      by (auto simp: lock_from_def stripes_def split: if_splits dest!: st_lock_result)
  next
    case (SUnlockAll i ex)
    with assms show ?thesis
      by (auto simp: unlock_from_def stripes_def split: if_splits option.splits dest!: st_unlock_result)
  next
    case SNewTable
    with assms show ?thesis by (auto simp: unlock_from_def Let_def split: if_splits option.splits)
  next
    case (SRecheckSize c)
    with assms show ?thesis by (auto simp: unlock_from_def stripes_def split: if_splits option.splits)
  next
    case (SStoreCap c)
    with assms show ?thesis by (auto simp: unlock_from_def stripes_def split: if_splits option.splits)
  next
    case (SPolicySize c)
    with assms show ?thesis by (auto simp: lock_from_def stripes_def split: if_splits)
  qed (use assms in \<open>auto simp: stripes_def split: if_splits\<close>)
qed

section \<open>A concrete execution\<close>

text \<open>
  One bucket and one stripe. Thread 0 adds 3 and doubles the table; thread 1 looks 3 up after it has
  been added and before the table grows. \<open>st_half\<close> stops while the new table is being filled.
\<close>

definition st_half :: "nat choice list" where
  "st_half =
     [CallOp 0 (Add 3), Tick 0, Tick 0, Tick 0, CallOp 1 (Contains 3), Tick 0, Tick 0, Tick 0, Tick 1,
      Tick 0, Tick 0, Tick 1, Tick 1, Tick 1, Finish 1, Tick 0, Tick 0, Tick 0, Tick 0]"

definition st_full :: "nat choice list" where
  "st_full = st_half @ [Tick 0, Tick 0, Tick 0, Tick 0, Finish 0]"

definition st_one :: "nat striped" where
  "st_one = \<lparr>st_table = [[]], st_mutexes = [None], st_set_size = 0, st_capacity = 1\<rparr>"

lemma st_one: "construct_striped 1 = Inr st_one"
  by (simp add: construct_striped_def st_one_def vec_max_def mutex_max_def kAlignment_def)

lemmas st_run_simps = st_half_def st_full_def st_one_def striped_program_def sys_init_def st_lock_def st_unlock_def
  mutex_lock_def mutex_unlock_def lock_from_def unlock_from_def st_found_def Let_def bucket_index_def
  push_bucket_def push_back_def st_overloaded_def st_load_factor_numerator_def
  st_load_factor_denominator_def vec_max_def replicate_small

lemma st_run_half:
  obtains h s where "sys_run (striped_program of_nat) (sys_init (striped_program of_nat) st_one) h s"
    "pcs s 0 = SMove 2 0 [[], []]" "pcs s 1 = SIdle"
proof -
  have "\<exists>h s. sched_run (striped_program of_nat) st_half (sys_init (striped_program of_nat) st_one) = Some (h, s) \<and>
      pcs s 0 = SMove 2 0 [[], []] \<and> pcs s 1 = SIdle"
    by (simp add: st_run_simps)
  with sched_run_sound that show thesis by blast
qed

lemma st_run_full:
  obtains s where "sys_run (striped_program of_nat) (sys_init (striped_program of_nat) st_one)
      [Call 0 (Add 3), Call 1 (Contains 3), Return 1 True, Return 0 True] s"
    "\<And>t. pcs s t = SIdle" "st_set_size (shared s) = 1" "st_table (shared s) = [[], [3]]"
proof -
  have "\<exists>s. sched_run (striped_program of_nat) st_full (sys_init (striped_program of_nat) st_one) =
        Some ([Call 0 (Add 3), Call 1 (Contains 3), Return 1 True, Return 0 True], s) \<and>
      (\<forall>t. pcs s t = SIdle) \<and> st_set_size (shared s) = 1 \<and> st_table (shared s) = [[], [3]]"
    by (simp add: st_run_simps)
  with sched_run_sound that show thesis by blast
qed

section \<open>Properties\<close>

text \<open>
  C17 (refinement): the striped set is linearizable. Every history of concurrent calls of \<open>Add\<close>,
  \<open>Remove\<close> and \<open>Contains\<close>, by any number of threads, with resizes in between, is a history of the
  atomic set, whatever the hash function.
\<close>

theorem striped_linearizable:
  assumes "construct_striped c = Inr s0"
  shows "linearizable (striped_program hash) s0 {}"
  by (rule st.sim_linearizable) (rule construct_striped_start [OF assms])

text \<open>
  C18 (safety): the stripes keep the threads apart, although there are fewer of them than buckets
  after a resize. No two threads are at the same bucket; while a thread replaces the table, no other
  thread is at a bucket or replaces the table; every bucket index is in range; no thread locks a mutex
  it owns or unlocks one it does not own.
\<close>

theorem striped_exclusive:
  assumes "construct_striped c = Inr s0"
    and "sys_run (striped_program hash) (sys_init (striped_program hash) s0) h s" "t \<noteq> u"
  shows "(\<forall>i j. st_bucket (pcs s t) = Some i \<and> st_bucket (pcs s u) = Some j \<longrightarrow> i \<noteq> j) \<and>
    (st_resizing (pcs s t) \<longrightarrow> st_bucket (pcs s u) = None \<and> \<not> st_resizing (pcs s u)) \<and>
    (\<forall>i. st_bucket (pcs s t) = Some i \<longrightarrow> i < length (st_table (shared s))) \<and>
    pcs s t \<noteq> SUndef"
proof (intro conjI allI impI)
  let ?n = "stripes (shared s)"
  note inv = st_reach(1) [OF assms(1,2)] and ok = st_reach(2) [OF assms(1,2)]
  have disj: "st_held ?n (pcs s t) \<inter> st_held ?n (pcs s u) = {}"
    by (rule holds_disjoint [OF st_okD(1) [OF ok] st_okD(1) [OF ok] assms(3)])
  note held = st_bucket_held(1) [OF inv ok]
  have n: "0 < ?n" using st_invD(2) [OF inv] .
  fix i j assume "st_bucket (pcs s t) = Some i \<and> st_bucket (pcs s u) = Some j"
  with held disj show "i \<noteq> j" by blast
next
  let ?n = "stripes (shared s)"
  note inv = st_reach(1) [OF assms(1,2)] and ok = st_reach(2) [OF assms(1,2)]
  assume r: "st_resizing (pcs s t)"
  have disj: "st_held ?n (pcs s t) \<inter> st_held ?n (pcs s u) = {}"
    by (rule holds_disjoint [OF st_okD(1) [OF ok] st_okD(1) [OF ok] assms(3)])
  then have none: "st_held ?n (pcs s u) = {}"
    using st_okD(1) [OF ok, of u] st_resizing_held [OF r, of ?n] by (auto simp: holds_def stripes_def)
  then show "st_bucket (pcs s u) = None"
    using st_bucket_held(1) [OF inv ok, of u] by (metis empty_iff not_None_eq)
  show "\<not> st_resizing (pcs s u)"
    using none st_resizing_held [of "pcs s u" ?n] st_invD(2) [OF inv] by auto
next
  note inv = st_reach(1) [OF assms(1,2)] and ok = st_reach(2) [OF assms(1,2)]
  show "i < length (st_table (shared s))" if "st_bucket (pcs s t) = Some i" for i
    by (rule st_bucket_held(2) [OF inv ok that])
  show "pcs s t \<noteq> SUndef" using st_okD(2) [OF ok, of t] by auto
qed

text \<open>
  C19 (liveness): no deadlock. In every reachable state in which some thread is in the middle of an
  operation, some thread can take a step: a thread that holds a mutex while it waits for another holds
  only lower ones.
\<close>

theorem striped_no_deadlock:
  assumes "construct_striped c = Inr s0"
    and "sys_run (striped_program hash) (sys_init (striped_program hash) s0) h s"
    and "\<not> st_finished (pcs s t)"
  shows "\<exists>s'. sys_step (striped_program hash) s None s'"
proof (rule ccontr)
  assume stuck: "\<not> ?thesis"
  let ?n = "stripes (shared s)"
  note inv = st_reach(1) [OF assms(1,2)] and ok = st_reach(2) [OF assms(1,2)]
  have none: "striped_step hash u (shared s) (pcs s u) = None" for u
  proof (cases "striped_step hash u (shared s) (pcs s u)")
    case (Some r)
    then have "p_step (striped_program hash) u (shared s) (pcs s u) = Some (fst r, snd r)"
      by (simp add: striped_program_def)
    from sys_step.step_internal [OF this] stuck show ?thesis by blast
  qed
  have wait: "\<exists>m v. st_wants hash ?n (pcs s u) = Some m \<and> m < ?n \<and> st_mutexes (shared s) ! m = Some v"
    if "\<not> st_finished (pcs s u)" for u
    by (rule st_blocked [OF ok inv that none])
  have owner: "m \<in> st_held ?n (pcs s v)" if "m < ?n" "st_mutexes (shared s) ! m = Some v" for m v
    using st_okD(1) [OF ok, of v] that by (simp add: holds_def stripes_def)
  define M where "M = {m. m < ?n \<and> (\<exists>v. st_mutexes (shared s) ! m = Some v)}"
  have "finite M" by (simp add: M_def)
  moreover have "M \<noteq> {}" using wait [OF assms(3)] by (auto simp: M_def)
  ultimately have top: "Max M \<in> M" "\<And>m. m \<in> M \<Longrightarrow> m \<le> Max M" by simp_all
  from top(1) obtain v where v: "st_mutexes (shared s) ! Max M = Some v" "Max M < ?n"
    by (auto simp: M_def)
  from owner [OF v(2,1)] have held: "Max M \<in> st_held ?n (pcs s v)" .
  then have "\<not> st_finished (pcs s v)" by (cases "pcs s v") auto
  from wait [OF this] obtain m w where m: "st_wants hash ?n (pcs s v) = Some m" "m < ?n"
    "st_mutexes (shared s) ! m = Some w" by blast
  from st_ascending [OF m(1) held] have "Max M < m" .
  moreover have "m \<in> M" using m(2,3) by (auto simp: M_def)
  ultimately show False using top(2) by fastforce
qed

text \<open>
  C20 (termination): every operation comes to an end. From a reachable state there is no infinite
  sequence of steps without a new call, however the threads are scheduled: the loops over the mutexes
  and over the buckets are finite, and a thread replaces the table at most once in an operation.
\<close>

theorem striped_terminates:
  assumes "sys_run (striped_program hash) (sys_init (striped_program hash) s0) h s"
  shows "\<not> internal_forever (striped_program hash) s"
proof (rule internal_terminates [where budget = st_budget
      and rank = "\<lambda>s. st_rank (stripes s) (length (st_table s))"])
  show "finite (active (striped_program hash) s)" by (rule finite_active [OF assms])
  show "p_step (striped_program hash) t s (p_idle (striped_program hash)) = None" for t s
    by (simp add: striped_program_def)
  fix t s pc s' pc' assume "p_step (striped_program hash) t s pc = Some (s', pc')"
  then have stp: "striped_step hash t s pc = Some (s', pc')" by (simp add: striped_program_def)
  from st_rank_dec [OF stp]
  show "st_budget pc' < st_budget pc \<or> st_budget pc' = st_budget pc \<and>
      st_rank (stripes s') (length (st_table s')) = st_rank (stripes s) (length (st_table s)) \<and>
      st_rank (stripes s') (length (st_table s')) pc' < st_rank (stripes s) (length (st_table s)) pc"
    by metis
qed

text \<open>
  C21 (functional): at rest. When no thread is in an operation, the table holds the elements of the
  atomic set after the same history, each in its bucket and once, \<open>Size\<close> is their number, and
  \<open>capacity_\<close> is the number of buckets.
\<close>

theorem striped_quiescent:
  assumes "construct_striped c = Inr s0"
    and "sys_run (striped_program hash) (sys_init (striped_program hash) s0) h s"
    and "\<And>t. pcs s t = SIdle"
  shows "\<exists>a. atomic_run (a_init {}) h a \<and> a_set a = st_elements (shared s) \<and>
    distinct (concat (st_table (shared s))) \<and>
    st_Size (shared s) = of_nat (card (st_elements (shared s))) \<and>
    st_capacity (shared s) = of_nat (length (st_table (shared s)))"
proof -
  have start: "st_start hash s0" by (rule construct_striped_start [OF assms(1)])
  note inv = st_reach(1) [OF assms(1,2)] and ok = st_reach(2) [OF assms(1,2)]
  from st.set_of_history [OF start assms(2)] assms(3) obtain a where
    "atomic_run (a_init {}) h a" "a_set a = st_elements (shared s)" by auto
  moreover have "distinct (concat (st_table (shared s)))"
    by (rule distinct_buckets [OF table_okD(1) [OF st_invD(1) [OF inv]]])
  moreover have "st_Size (shared s) = of_nat (card (st_elements (shared s)))"
    using st.size_exact [OF start assms(2)] assms(3) by (simp add: st_Size_def)
  moreover have "st_capacity (shared s) = of_nat (length (st_table (shared s)))"
  proof (rule ccontr)
    assume "\<not> ?thesis"
    with inv obtain t where "st_mutexes (shared s) ! 0 = Some t" "0 < stripes (shared s)"
      by (auto simp: st_inv_def)
    with st_okD(1) [OF ok, of t] assms(3) show False by (auto simp: holds_def stripes_def)
  qed
  ultimately show ?thesis by blast
qed

section \<open>Witnesses\<close>

theorem striped_linearizable_witness:
  "\<exists>a. atomic_run (a_init {}) [Call 0 (Add (3 :: nat)), Call 1 (Contains 3), Return 1 True, Return 0 True] a"
proof (rule st_run_full)
  fix s assume "sys_run (striped_program of_nat) (sys_init (striped_program of_nat) st_one)
    [Call 0 (Add 3), Call 1 (Contains 3), Return 1 True, Return 0 True] s"
  with striped_linearizable [OF st_one, of of_nat] show ?thesis unfolding linearizable_def by blast
qed

theorem striped_exclusive_witness:
  "\<exists>(s :: (nat striped, nat spc) sys). pcs s 0 = SMove 2 0 [[], []] \<and> st_bucket (pcs s 1) = None"
proof (rule st_run_half)
  fix h s assume s: "sys_run (striped_program of_nat) (sys_init (striped_program of_nat) st_one) h s"
    "pcs s 0 = SMove 2 0 [[], []]"
  from striped_exclusive [OF st_one s(1), of 0 1] s(2) show ?thesis by auto
qed

theorem striped_no_deadlock_witness:
  "\<exists>s s'. pcs s 0 = SMove 2 0 [[], []] \<and> sys_step (striped_program (of_nat :: nat \<Rightarrow> size_t)) s None s'"
proof (rule st_run_half)
  fix h s assume s: "sys_run (striped_program of_nat) (sys_init (striped_program of_nat) st_one) h s"
    "pcs s 0 = SMove 2 0 [[], []]"
  then have "\<not> st_finished (pcs s 0)" by simp
  from striped_no_deadlock [OF st_one s(1) this] s(2) show ?thesis by blast
qed

theorem striped_terminates_witness:
  "\<exists>s. pcs s 0 = SMove 2 0 [[], []] \<and> \<not> internal_forever (striped_program (of_nat :: nat \<Rightarrow> size_t)) s"
proof (rule st_run_half)
  fix h s assume s: "sys_run (striped_program of_nat) (sys_init (striped_program of_nat) st_one) h s"
    "pcs s 0 = SMove 2 0 [[], []]"
  from striped_terminates [OF s(1)] s(2) show ?thesis by blast
qed

theorem striped_quiescent_witness:
  "\<exists>a :: nat atomic. a_set a = {3} \<and>
    atomic_run (a_init {}) [Call 0 (Add 3), Call 1 (Contains 3), Return 1 True, Return 0 True] a"
proof (rule st_run_full)
  fix s assume s: "sys_run (striped_program of_nat) (sys_init (striped_program of_nat) st_one)
    [Call 0 (Add 3), Call 1 (Contains 3), Return 1 True, Return 0 True] s"
    "\<And>t. pcs s t = SIdle" "st_table (shared s) = [[], [3]]"
  from striped_quiescent [OF st_one s(1,2)] obtain a where
    "atomic_run (a_init {}) [Call 0 (Add 3), Call 1 (Contains 3), Return 1 True, Return 0 True] a"
    "a_set a = st_elements (shared s)" by blast
  with s(3) show ?thesis by (auto simp: st_elements_def contents_def)
qed

end
