(* ===== verification/HashSetCoarseGrained.thy ===== *)
theory HashSetCoarseGrained
  imports PerThread BucketTable
begin

text \<open>
  \<open>HashSetCoarseGrained.h\<close>: a table of buckets under one mutex. Each step of the program makes one
  access to the mutex, an atomic variable or a bucket. \<open>hash\<close> is \<open>std::hash<T>\<close>; elements are copied
  where the code moves them.
\<close>

record 'a coarse =
  cg_table :: "'a list list"
  cg_mutex :: "tid option"
  cg_set_size :: size_t
  cg_capacity :: size_t

definition cg_load_factor_numerator :: size_t where
  "cg_load_factor_numerator = 3"

definition cg_load_factor_denominator :: size_t where
  "cg_load_factor_denominator = 4"

definition construct_coarse :: "size_t \<Rightarrow> exn + 'a coarse" where
  "construct_coarse initial_capacity =
     (let c = max 1 initial_capacity
      in if vec_max < unat c then Inl Length_error
         else Inr \<lparr>cg_table = replicate (unat c) [], cg_mutex = None, cg_set_size = 0, cg_capacity = c\<rparr>)"

definition cg_Size :: "'a coarse \<Rightarrow> size_t" where
  "cg_Size s = cg_set_size s"

text \<open>
  Program counters: the critical section on a bucket, the two loads of \<open>Policy\<close>, and \<open>Resize\<close> from
  \<open>CResize\<close> on, with the exception that is on its way out while the lock is released.
\<close>

datatype 'a cpc =
    CIdle
  | CLock "'a op"
  | CBucket "'a op"
  | CFind "'a op" nat
  | CPush 'a nat
  | CErase 'a nat nat
  | CCount bool
  | CUnlock bool bool
  | CPolicyCap
  | CPolicySize size_t
  | CResize
  | CRecheckCap
  | CRecheckSize size_t
  | CNewTable
  | CMove size_t nat "'a list list"
  | CStoreCap size_t
  | CUnlockResize "exn option"
  | CRet bool
  | CThrown exn
  | CUndef

definition cg_overloaded :: "'a coarse \<Rightarrow> size_t \<Rightarrow> bool" where
  "cg_overloaded s capacity \<longleftrightarrow>
     capacity * cg_load_factor_numerator div cg_load_factor_denominator < cg_set_size s"

text \<open>\<open>mutex_.lock()\<close> and \<open>mutex_.unlock()\<close>.\<close>

definition cg_lock :: "tid \<Rightarrow> 'a coarse \<Rightarrow> 'a cpc \<Rightarrow> ('a coarse \<times> 'a cpc) option" where
  "cg_lock t s pc =
     (case cg_mutex s of
        None \<Rightarrow> Some (s\<lparr>cg_mutex := Some t\<rparr>, pc)
      | Some u \<Rightarrow> if u = t then Some (s, CUndef) else None)"

definition cg_unlock :: "tid \<Rightarrow> 'a coarse \<Rightarrow> 'a cpc \<Rightarrow> ('a coarse \<times> 'a cpc) option" where
  "cg_unlock t s pc =
     (if cg_mutex s = Some t then Some (s\<lparr>cg_mutex := None\<rparr>, pc) else Some (s, CUndef))"

text \<open>
  What follows \<open>std::ranges::find\<close>. The first flag of \<open>CUnlock\<close> and the one of \<open>CCount\<close> say whether the
  operation is \<open>Add\<close>.
\<close>

definition cg_found :: "'a op \<Rightarrow> nat \<Rightarrow> 'a list \<Rightarrow> 'a cpc" where
  "cg_found x i bucket =
     (case x of
        Add e \<Rightarrow> if ranges_find e bucket \<noteq> length bucket then CUnlock True False else CPush e i
      | Remove e \<Rightarrow>
          let it = ranges_find e bucket in if it \<noteq> length bucket then CErase e i it else CUnlock False False
      | Contains e \<Rightarrow> CUnlock False (ranges_find e bucket \<noteq> length bucket))"

fun coarse_step ::
    "('a \<Rightarrow> size_t) \<Rightarrow> tid \<Rightarrow> 'a coarse \<Rightarrow> 'a cpc \<Rightarrow> ('a coarse \<times> 'a cpc) option" where
  "coarse_step hash t s (CLock x) = cg_lock t s (CBucket x)"
| "coarse_step hash t s (CBucket x) =
     Some (s, if cg_capacity s = 0 then CUndef
              else CFind x (bucket_index hash (cg_capacity s) (op_elem x)))"
| "coarse_step hash t s (CFind x i) =
     Some (s, if i < length (cg_table s) then cg_found x i (cg_table s ! i) else CUndef)"
| "coarse_step hash t s (CPush e i) =
     Some (if i < length (cg_table s)
           then (s\<lparr>cg_table := push_bucket i e (cg_table s)\<rparr>, CCount True) else (s, CUndef))"
| "coarse_step hash t s (CErase e i it) =
     Some (if i < length (cg_table s) \<and> it < length (cg_table s ! i)
           then (s\<lparr>cg_table := erase_bucket i it (cg_table s)\<rparr>, CCount False) else (s, CUndef))"
| "coarse_step hash t s (CCount adding) =
     Some (s\<lparr>cg_set_size := (if adding then cg_set_size s + 1 else cg_set_size s - 1)\<rparr>,
           CUnlock adding True)"
| "coarse_step hash t s (CUnlock adding r) =
     cg_unlock t s (if adding \<and> r then CPolicyCap else CRet r)"
| "coarse_step hash t s CPolicyCap = Some (s, CPolicySize (cg_capacity s))"
| "coarse_step hash t s (CPolicySize c) =
     Some (s, if cg_overloaded s c then CResize else CRet True)"
| "coarse_step hash t s CResize = cg_lock t s CRecheckCap"
| "coarse_step hash t s CRecheckCap = Some (s, CRecheckSize (cg_capacity s))"
| "coarse_step hash t s (CRecheckSize c) =
     Some (s, if cg_overloaded s c then CNewTable else CUnlockResize None)"
| "coarse_step hash t s CNewTable =
     (let c = 2 * cg_capacity s
      in Some (s, if vec_max < unat c then CUnlockResize (Some Length_error)
                  else if c = 0 then CUndef
                  else CMove c 0 (replicate (unat c) [])))"
| "coarse_step hash t s (CMove c k nt) =
     Some (if k < length (cg_table s)
           then (s, CMove c (k + 1) (move_bucket hash c (cg_table s ! k) nt))
           else (s\<lparr>cg_table := nt\<rparr>, CStoreCap c))"
| "coarse_step hash t s (CStoreCap c) = Some (s\<lparr>cg_capacity := c\<rparr>, CUnlockResize None)"
| "coarse_step hash t s (CUnlockResize ex) =
     cg_unlock t s (case ex of None \<Rightarrow> CRet True | Some e \<Rightarrow> CThrown e)"
| "coarse_step hash t s pc = None"

definition coarse_program :: "('a \<Rightarrow> size_t) \<Rightarrow> ('a, 'a coarse, 'a cpc) program" where
  "coarse_program hash =
     \<lparr>p_idle = CIdle, p_start = CLock, p_step = coarse_step hash,
      p_result = (\<lambda>pc. case pc of CRet r \<Rightarrow> Some r | _ \<Rightarrow> None)\<rparr>"

end
