(* ===== verification/CoarseProps.thy ===== *)
theory CoarseProps
  imports HashSetCoarseGrained StripedCorrect
begin

text \<open>
  The coarse-grained set is, step for step, the striped set with a single stripe. What is proved of
  the striped set holds of it.
\<close>

section \<open>One stripe\<close>

definition as_striped :: "'a coarse \<Rightarrow> 'a striped" where
  "as_striped s =
     \<lparr>st_table = cg_table s, st_mutexes = [cg_mutex s], st_set_size = cg_set_size s,
      st_capacity = cg_capacity s\<rparr>"

text \<open>
  The striped set's program counters name the operation where the coarse set's say whether it is \<open>Add\<close>.
\<close>

fun pc_matches :: "'a cpc \<Rightarrow> 'a spc \<Rightarrow> bool" where
  "pc_matches CIdle q \<longleftrightarrow> q = SIdle"
| "pc_matches (CLock x) q \<longleftrightarrow> q = SLock x"
| "pc_matches (CBucket x) q \<longleftrightarrow> q = SBucket 0 x"
| "pc_matches (CFind x i) q \<longleftrightarrow> q = SFind 0 x i"
| "pc_matches (CPush e i) q \<longleftrightarrow> q = SPush 0 e i"
| "pc_matches (CErase e i k) q \<longleftrightarrow> q = SErase 0 e i k"
| "pc_matches (CCount a) q \<longleftrightarrow> (\<exists>x. q = SCount 0 x \<and> is_add x = a)"
| "pc_matches (CUnlock a r) q \<longleftrightarrow> (\<exists>x. q = SUnlock 0 x r \<and> is_add x = a)"
| "pc_matches CPolicyCap q \<longleftrightarrow> q = SPolicyCap"
| "pc_matches (CPolicySize c) q \<longleftrightarrow> q = SPolicySize c"
| "pc_matches CResize q \<longleftrightarrow> q = SLockAll 0"
| "pc_matches CRecheckCap q \<longleftrightarrow> q = SRecheckCap"
| "pc_matches (CRecheckSize c) q \<longleftrightarrow> q = SRecheckSize c"
| "pc_matches CNewTable q \<longleftrightarrow> q = SNewTable"
| "pc_matches (CMove c k nt) q \<longleftrightarrow> q = SMove c k nt"
| "pc_matches (CStoreCap c) q \<longleftrightarrow> q = SStoreCap c"
| "pc_matches (CUnlockResize ex) q \<longleftrightarrow> q = SUnlockAll 0 ex"
| "pc_matches (CRet r) q \<longleftrightarrow> q = SRet r"
| "pc_matches (CThrown e) q \<longleftrightarrow> q = SThrown e"
| "pc_matches CUndef q \<longleftrightarrow> q = SUndef"

definition step_matches ::
    "('a coarse \<times> 'a cpc) option \<Rightarrow> ('a striped \<times> 'a spc) option \<Rightarrow> bool" where
  "step_matches r r' \<longleftrightarrow>
     (case r of None \<Rightarrow> r' = None
      | Some (s, pc) \<Rightarrow> \<exists>q. r' = Some (as_striped s, q) \<and> pc_matches pc q)"

lemma step_matches_Some [simp]:
  "step_matches (Some (s, pc)) r \<longleftrightarrow> (\<exists>q. r = Some (as_striped s, q) \<and> pc_matches pc q)"
  by (simp add: step_matches_def)

lemma cg_lock_matches:
  "pc_matches pc q \<Longrightarrow> step_matches (cg_lock t s pc) (st_lock t 0 (as_striped s) q)"
  by (auto simp: step_matches_def cg_lock_def st_lock_def mutex_lock_def as_striped_def split: option.split)

lemma cg_unlock_matches:
  "pc_matches pc q \<Longrightarrow> step_matches (cg_unlock t s pc) (st_unlock t 0 (as_striped s) q)"
  by (auto simp: step_matches_def cg_unlock_def st_unlock_def mutex_unlock_def as_striped_def)

lemma one_stripe [simp]: "bucket_index hash 1 e = 0"
  by (simp add: bucket_index_def)

lemma coarse_step_matches:
  assumes "pc_matches pc q"
  shows "step_matches (coarse_step hash t s pc) (striped_step hash t (as_striped s) q)"
proof (cases pc)
  case (CLock x)
  with assms show ?thesis using cg_lock_matches [of "CBucket x" "SBucket 0 x" t s]
    by (simp add: Let_def as_striped_def)
next
  case CResize
  with assms show ?thesis using cg_lock_matches [of CRecheckCap SRecheckCap t s]
    by (simp add: lock_from_def as_striped_def)
next
  case (CUnlock a r)
  with assms show ?thesis
    using cg_unlock_matches [of "if a \<and> r then CPolicyCap else CRet r" "if a \<and> r then SPolicyCap else SRet r" t s]
    by auto
next
  case (CUnlockResize ex)
  let ?p = "case ex of None \<Rightarrow> CRet True | Some e \<Rightarrow> CThrown e"
    and ?q = "case ex of None \<Rightarrow> SRet True | Some e \<Rightarrow> SThrown e"
  have "pc_matches ?p ?q" by (simp split: option.split)
  from cg_unlock_matches [OF this, of t s] CUnlockResize assms show ?thesis
    by (simp add: unlock_from_def as_striped_def)
next
  case (CFind x i)
  with assms show ?thesis
    by (cases x) (auto simp: as_striped_def cg_found_def st_found_def Let_def)
qed (use assms in \<open>auto simp: step_matches_def as_striped_def Let_def lock_from_def unlock_from_def
      cg_overloaded_def st_overloaded_def cg_load_factor_numerator_def cg_load_factor_denominator_def
      st_load_factor_numerator_def st_load_factor_denominator_def\<close>)

section \<open>Runs\<close>

definition sys_matches :: "('a coarse, 'a cpc) sys \<Rightarrow> ('a striped, 'a spc) sys \<Rightarrow> bool" where
  "sys_matches s s' \<longleftrightarrow>
     shared s' = as_striped (shared s) \<and> (\<forall>t. pc_matches (pcs s t) (pcs s' t))"

lemma pc_idle [simp]: "pc_matches CIdle q \<longleftrightarrow> q = SIdle" "pc_matches pc SIdle \<longleftrightarrow> pc = CIdle"
  by (simp, cases pc) simp_all

lemma pc_result: "pc_matches pc q \<Longrightarrow>
    p_result (coarse_program hash) pc = p_result (striped_program hash) q"
  by (cases pc) (auto simp: coarse_program_def striped_program_def)

lemma sys_matches_upd:
  assumes "sys_matches s s'" "pc_matches pc q"
  shows "sys_matches (s\<lparr>pcs := (pcs s)(t := pc)\<rparr>) (s'\<lparr>pcs := (pcs s')(t := q)\<rparr>)"
    "sys_matches (s\<lparr>shared := sh, pcs := (pcs s)(t := pc)\<rparr>)
       (s'\<lparr>shared := as_striped sh, pcs := (pcs s')(t := q)\<rparr>)"
  using assms by (simp_all add: sys_matches_def)

lemma coarse_forward:
  assumes "sys_step (coarse_program hash) s l s1" "sys_matches s s'"
  shows "\<exists>s1'. sys_step (striped_program hash) s' l s1' \<and> sys_matches s1 s1'"
  using assms(1)
proof cases
  case (step_call t x)
  have "pc_matches (pcs s t) (pcs s' t)" using assms(2) by (simp add: sys_matches_def)
  with step_call(3) have "pcs s' t = p_idle (striped_program hash)"
    by (simp add: coarse_program_def striped_program_def)
  from sys_step.step_call [OF this, of x] sys_matches_upd(1) [OF assms(2), of "CLock x" "SLock x" t] step_call
  show ?thesis by (auto simp: coarse_program_def striped_program_def)
next
  case (step_internal t sh pc)
  have "pc_matches (pcs s t) (pcs s' t)" "shared s' = as_striped (shared s)"
    using assms(2) by (simp_all add: sys_matches_def)
  with coarse_step_matches [of "pcs s t" "pcs s' t" hash t "shared s"] step_internal(3) obtain q where
    q: "p_step (striped_program hash) t (shared s') (pcs s' t) = Some (as_striped sh, q)" "pc_matches pc q"
    by (auto simp: coarse_program_def striped_program_def)
  from sys_step.step_internal [OF q(1)] sys_matches_upd(2) [OF assms(2) q(2)] step_internal(1,2)
  show ?thesis by blast
next
  case (step_return t r)
  have "pc_matches (pcs s t) (pcs s' t)" using assms(2) by (simp add: sys_matches_def)
  from pc_result [OF this, of hash] step_return(3)
  have "p_result (striped_program hash) (pcs s' t) = Some r" by simp
  from sys_step.step_return [OF this] sys_matches_upd(1) [OF assms(2), of CIdle SIdle t] step_return
  show ?thesis by (auto simp: coarse_program_def striped_program_def)
qed

lemma coarse_backward:
  assumes "sys_step (striped_program hash) s' l s1'" "sys_matches s s'"
  shows "\<exists>s1. sys_step (coarse_program hash) s l s1 \<and> sys_matches s1 s1'"
  using assms(1)
proof cases
  case (step_call t x)
  have "pc_matches (pcs s t) (pcs s' t)" using assms(2) by (simp add: sys_matches_def)
  with step_call(3) have "pcs s t = p_idle (coarse_program hash)"
    by (simp add: coarse_program_def striped_program_def)
  from sys_step.step_call [OF this, of x] sys_matches_upd(1) [OF assms(2), of "CLock x" "SLock x" t] step_call
  show ?thesis by (auto simp: coarse_program_def striped_program_def)
next
  case (step_internal t sh' q)
  have "pc_matches (pcs s t) (pcs s' t)" "shared s' = as_striped (shared s)"
    using assms(2) by (simp_all add: sys_matches_def)
  with coarse_step_matches [of "pcs s t" "pcs s' t" hash t "shared s"] step_internal(3) obtain sh pc where
    q: "p_step (coarse_program hash) t (shared s) (pcs s t) = Some (sh, pc)" "sh' = as_striped sh"
      "pc_matches pc q"
    by (auto simp: coarse_program_def striped_program_def step_matches_def split: option.splits)
  from sys_step.step_internal [OF q(1)] sys_matches_upd(2) [OF assms(2) q(3)] step_internal(1,2) q(2)
  show ?thesis by blast
next
  case (step_return t r)
  have "pc_matches (pcs s t) (pcs s' t)" using assms(2) by (simp add: sys_matches_def)
  from pc_result [OF this, of hash] step_return(3)
  have "p_result (coarse_program hash) (pcs s t) = Some r" by simp
  from sys_step.step_return [OF this] sys_matches_upd(1) [OF assms(2), of CIdle SIdle t] step_return
  show ?thesis by (auto simp: coarse_program_def striped_program_def)
qed

lemma sys_matches_init:
  "sys_matches (sys_init (coarse_program hash) s) (sys_init (striped_program hash) (as_striped s))"
  by (simp add: sys_matches_def sys_init_def coarse_program_def striped_program_def)

lemma coarse_run_forward:
  assumes "sys_run (coarse_program hash) s h s1" "sys_matches s s'"
  shows "\<exists>s1'. sys_run (striped_program hash) s' h s1' \<and> sys_matches s1 s1'"
  using assms(1)
proof induction
  case run_start
  with assms(2) sys_run.run_start show ?case by blast
next
  case (run_step h s1 l s2)
  then show ?case by (meson coarse_forward sys_run.run_step)
qed

lemma coarse_run_backward:
  assumes "sys_run (striped_program hash) s' h s1'" "sys_matches s s'"
  shows "\<exists>s1. sys_run (coarse_program hash) s h s1 \<and> sys_matches s1 s1'"
  using assms(1)
proof induction
  case run_start
  with assms(2) sys_run.run_start show ?case by blast
next
  case (run_step h s1 l s2)
  then show ?case by (meson coarse_backward sys_run.run_step)
qed

section \<open>The simulation\<close>

lemma construct_coarse_start:
  assumes "construct_coarse c = Inr s"
  shows "st_start hash (as_striped s)"
proof -
  have c: "max 1 c \<noteq> 0" by (auto simp: max_def)
  from assms have s: "s = \<lparr>cg_table = replicate (unat (max 1 c)) [], cg_mutex = None, cg_set_size = 0,
      cg_capacity = max 1 c\<rparr>" and le: "unat (max 1 c) \<le> vec_max"
    by (auto simp: construct_coarse_def Let_def split: if_splits)
  have "st_inv hash (as_striped s)"
    using table_ok_new [OF c le] by (simp add: s as_striped_def st_inv_def stripes_def)
  then show ?thesis by (simp add: s as_striped_def st_start_def st_elements_def holds_def)
qed

definition cg_start :: "'a coarse \<Rightarrow> bool" where
  "cg_start s \<longleftrightarrow> (\<exists>c. construct_coarse c = Inr s)"

definition cg_sim :: "('a \<Rightarrow> size_t) \<Rightarrow> ('a coarse, 'a cpc) sys \<Rightarrow> 'a interval \<Rightarrow> bool" where
  "cg_sim hash s i \<longleftrightarrow> (\<exists>s'. sys_matches s s' \<and> st.sim hash s' i)"

interpretation cg: simulation "coarse_program hash" cg_start "cg_sim hash" for hash
proof unfold_locales
  fix s s1 :: "('a coarse, 'a cpc) sys" and i l and sh :: "'a coarse"
  show "cg_sim hash (sys_init (coarse_program hash) sh) (i_init {})" if "cg_start sh"
    using that sys_matches_init st.sim_begin construct_coarse_start
    unfolding cg_sim_def cg_start_def by blast
  assume "cg_sim hash s i" "sys_step (coarse_program hash) s l s1"
  then obtain s' s1' where "st.sim hash s' i" "sys_step (striped_program hash) s' l s1'" "sys_matches s1 s1'"
    unfolding cg_sim_def using coarse_forward by blast
  with st.sim_any_step show "\<exists>i'. interval_run i (visible l) i' \<and> cg_sim hash s1 i'"
    unfolding cg_sim_def by blast
qed

lemma coarse_at_rest:
  assumes "construct_coarse c = Inr s0"
    and "sys_run (coarse_program hash) (sys_init (coarse_program hash) s0) h s" "\<And>t. pcs s t = CIdle"
  shows "cg_Size (shared s) = of_nat (card (contents (cg_table (shared s))))"
    "\<exists>a. atomic_run (a_init {}) h a \<and> a_set a = contents (cg_table (shared s)) \<and> (\<forall>t. a_status a t = AIdle)"
proof -
  note start = construct_coarse_start [OF assms(1), of hash]
  from coarse_run_forward [OF assms(2) sys_matches_init] obtain s' where
    s': "sys_run (striped_program hash) (sys_init (striped_program hash) (as_striped s0)) h s'"
      "sys_matches s s'" by blast
  then have idle: "st_stage (pcs s' t) = Outside" for t using assms(3) by (simp add: sys_matches_def)
  have same: "st_elements (shared s') = contents (cg_table (shared s))"
    "st_set_size (shared s') = cg_set_size (shared s)"
    using s'(2) by (simp_all add: sys_matches_def as_striped_def st_elements_def)
  show "cg_Size (shared s) = of_nat (card (contents (cg_table (shared s))))"
    using st.size_exact [OF start s'(1)] idle same by (simp add: cg_Size_def)
  from st.set_of_history [OF start s'(1) idle] same(1)
  show "\<exists>a. atomic_run (a_init {}) h a \<and> a_set a = contents (cg_table (shared s)) \<and>
      (\<forall>t. a_status a t = AIdle)" by auto
qed

section \<open>Properties\<close>

text \<open>
  C28 (equivalence): the coarse-grained set is the striped set with one stripe over the same table:
  the two programs have the same histories.
\<close>

theorem coarse_is_striped:
  "(\<exists>s. sys_run (coarse_program hash) (sys_init (coarse_program hash) s0) h s) \<longleftrightarrow>
   (\<exists>s. sys_run (striped_program hash) (sys_init (striped_program hash) (as_striped s0)) h s)"
  using coarse_run_forward [OF _ sys_matches_init] coarse_run_backward [OF _ sys_matches_init] by blast

text \<open>
  The coarse-grained set is linearizable, and at rest its table holds the elements
  of the atomic set after the same history and \<open>Size\<close> is their number.
\<close>

lemma coarse_linearizable:
  assumes "construct_coarse c = Inr s0"
  shows "linearizable (coarse_program hash) s0 {} \<and>
    (\<forall>h s. sys_run (coarse_program hash) (sys_init (coarse_program hash) s0) h s \<and> (\<forall>t. pcs s t = CIdle) \<longrightarrow>
       cg_Size (shared s) = of_nat (card (contents (cg_table (shared s)))) \<and>
       (\<exists>a. atomic_run (a_init {}) h a \<and> a_set a = contents (cg_table (shared s))))"
proof (intro conjI allI impI)
  show "linearizable (coarse_program hash) s0 {}"
    by (rule cg.sim_linearizable) (use assms in \<open>auto simp: cg_start_def\<close>)
next
  fix h s assume run: "sys_run (coarse_program hash) (sys_init (coarse_program hash) s0) h s \<and>
    (\<forall>t. pcs s t = CIdle)"
  with coarse_at_rest [OF assms, of hash h s]
  show "cg_Size (shared s) = of_nat (card (contents (cg_table (shared s))))"
    "\<exists>a. atomic_run (a_init {}) h a \<and> a_set a = contents (cg_table (shared s))" by blast+
qed

end
