(* ===== verification/MutexArena.thy ===== *)
theory MutexArena
  imports SizeBits
begin

text \<open>
  The arena of mutexes of \<open>HashSetRefinable.h\<close>: blocks that are never moved. Block 0 has the mutexes
  of the initial buckets, \<open>2 ^ initial_shift_\<close> of them; each doubling of the table adds a block for the
  buckets it adds. The theory has the arithmetic that finds the mutex of a bucket, and shows that the
  buckets of a table and the mutexes of the blocks it has correspond one to one.
\<close>

definition BlockIndex :: "nat \<Rightarrow> size_t \<Rightarrow> nat" where
  "BlockIndex initial_shift index = bit_width (drop_bit initial_shift index)"

definition BlockOffset :: "nat \<Rightarrow> size_t \<Rightarrow> size_t" where
  "BlockOffset initial_shift index =
     index - push_bit initial_shift (bit_floor (drop_bit initial_shift index))"

definition block_shift :: "nat \<Rightarrow> nat \<Rightarrow> nat" where
  "block_shift initial_shift block_index =
     (if block_index = 0 then initial_shift else initial_shift + block_index - 1)"

definition BlockSize :: "nat \<Rightarrow> nat \<Rightarrow> size_t" where
  "BlockSize initial_shift block_index = push_bit (block_shift initial_shift block_index) 1"

definition ValidatedShift :: "size_t \<Rightarrow> exn + nat" where
  "ValidatedShift initial_capacity =
     (if initial_capacity < 2 then Inl (Invalid_argument ''initial capacity must be at least two'')
      else if not_pow2 initial_capacity
      then Inl (Invalid_argument ''initial capacity must be a power of two'')
      else Inr (countr_zero initial_capacity))"

section \<open>Blocks in numbers\<close>

lemma BlockSize_nat: "block_shift s b < 64 \<Longrightarrow> unat (BlockSize s b) = 2 ^ block_shift s b"
  by (simp add: BlockSize_def push_bit_eq_mult)

lemma unat_shift: "unat (drop_bit s (i :: size_t)) = unat i div 2 ^ s"
  by (metis drop_bit_eq_div unat_drop_bit_eq)

lemma block_first:
  assumes "unat i < 2 ^ s" "s < 64"
  shows "BlockIndex s i = 0" "BlockOffset s i = i"
proof -
  have "drop_bit s i = 0"
    using assms unat_shift [of s i] by (simp only: unat_eq_0 div_less)
  then show "BlockIndex s i = 0" "BlockOffset s i = i"
    by (simp_all add: BlockIndex_def BlockOffset_def bit_floor_def)
qed

lemma block_later:
  assumes "2 ^ (s + m) \<le> unat i" "unat i < 2 ^ (s + Suc m)" "s + m < 64"
  shows "BlockIndex s i = Suc m" "unat (BlockOffset s i) = unat i - 2 ^ (s + m)"
proof -
  note d = unat_shift [of s i]
  have "2 ^ m \<le> unat i div 2 ^ s"
    using assms(1) by (simp add: power_add less_eq_div_iff_mult_less_eq mult.commute)
  moreover have "unat i div 2 ^ s < 2 ^ Suc m"
    by (rule less_mult_imp_div_less) (use assms(2) in \<open>simp add: power_add mult.commute mult.left_commute\<close>)
  ultimately show idx: "BlockIndex s i = Suc m"
    unfolding BlockIndex_def bit_width_def d by (rule nat_width_unique)
  then have "bit_floor (drop_bit s i) = 2 ^ m" unfolding BlockIndex_def by (rule bit_floor_eq)
  then have "BlockOffset s i = i - 2 ^ (s + m)"
    by (simp add: BlockOffset_def push_bit_eq_mult power_add mult.commute)
  moreover have "(2 :: size_t) ^ (s + m) \<le> i" using assms(1,3) by (simp add: word_le_nat_alt)
  ultimately show "unat (BlockOffset s i) = unat i - 2 ^ (s + m)"
    using assms(3) by (simp add: unat_sub)
qed

lemma index_cases:
  assumes "s < 64"
  obtains (first) "unat (i :: size_t) < 2 ^ s"
    | (later) m where "2 ^ (s + m) \<le> unat i" "unat i < 2 ^ (s + Suc m)" "s + m < 64"
proof (cases "unat i < 2 ^ s")
  case True
  then show thesis by (rule first)
next
  case False
  then have "i \<noteq> 0" by auto
  then obtain j where j: "j < 64" "2 ^ j \<le> unat i" "unat i < 2 ^ Suc j" by (rule bit_width_cases)
  have "s \<le> j"
  proof (rule ccontr)
    assume "\<not> s \<le> j"
    then have "(2::nat) ^ Suc j \<le> 2 ^ s" by (intro power_increasing) simp_all
    with j(3) False show False by simp
  qed
  with j show thesis by (intro later [of "j - s"]) simp_all
qed

text \<open>Every bucket of a table of \<open>2 ^ (s + k)\<close> buckets has its slot in one of the first blocks.\<close>

lemma block_in_range:
  assumes "s + k < 64" "unat i < 2 ^ (s + k)"
  shows "BlockIndex s i \<le> k" "unat (BlockOffset s i) < 2 ^ block_shift s (BlockIndex s i)"
    "block_shift s (BlockIndex s i) < 64"
proof -
  from assms have "s < 64" by simp
  then show "BlockIndex s i \<le> k" "unat (BlockOffset s i) < 2 ^ block_shift s (BlockIndex s i)"
    "block_shift s (BlockIndex s i) < 64"
  proof (atomize (full), cases rule: index_cases [of _ i])
    case first
    with block_first [OF first \<open>s < 64\<close>] \<open>s < 64\<close>
    show "BlockIndex s i \<le> k \<and> unat (BlockOffset s i) < 2 ^ block_shift s (BlockIndex s i) \<and>
        block_shift s (BlockIndex s i) < 64" by (simp add: block_shift_def)
  next
    case (later m)
    have "s + m < s + k"
    proof (rule ccontr)
      assume "\<not> s + m < s + k"
      then have "(2::nat) ^ (s + k) \<le> 2 ^ (s + m)" by (intro power_increasing) simp_all
      with later(1) assms(2) show False by simp
    qed
    with block_later [OF later] later
    show "BlockIndex s i \<le> k \<and> unat (BlockOffset s i) < 2 ^ block_shift s (BlockIndex s i) \<and>
        block_shift s (BlockIndex s i) < 64" by (simp add: block_shift_def)
  qed
qed

lemma slot_inject:
  assumes "s < 64" "BlockIndex s i = BlockIndex s j" "BlockOffset s i = BlockOffset s j"
  shows "i = j"
  using assms(1)
proof (cases rule: index_cases [of _ i])
  case first
  note i = block_first [OF first assms(1)]
  from assms(1) show ?thesis
  proof (cases rule: index_cases [of _ j])
    case first
    with block_first [OF first assms(1)] i assms(3) show ?thesis by simp
  next
    case (later m)
    with block_later(1) [OF later] i(1) assms(2) show ?thesis by simp
  qed
next
  case (later m)
  note i = later block_later [OF later]
  from assms(1) show ?thesis
  proof (cases rule: index_cases [of _ j])
    case first
    with block_first(1) [OF first assms(1)] i(4) assms(2) show ?thesis by simp
  next
    case (later n)
    with block_later [OF later] i assms(2,3) have "n = m" "unat i = unat j" by auto
    then show ?thesis by (simp add: word_unat_eq_iff)
  qed
qed

lemma slot_surj:
  assumes "s + k < 64" "b \<le> k" "p < 2 ^ block_shift s b"
  shows "\<exists>i. unat i < 2 ^ (s + k) \<and> BlockIndex s i = b \<and> unat (BlockOffset s i) = p"
proof (cases b)
  case 0
  with assms have p: "p < 2 ^ s" by (simp add: block_shift_def)
  also have "\<dots> \<le> 2 ^ (s + k)" by simp
  finally have pk: "p < 2 ^ (s + k)" .
  also have "\<dots> < 2 ^ 64" by (rule power_strict_increasing) (use assms(1) in simp_all)
  finally have u: "unat (of_nat p :: size_t) = p" by (rule unat_of_nat_size)
  from block_first [of "of_nat p" s] p u assms(1) 0 pk show ?thesis
    by (intro exI [of _ "of_nat p"]) simp
next
  case (Suc m)
  with assms have p: "p < 2 ^ (s + m)" by (simp add: block_shift_def)
  let ?n = "2 ^ (s + m) + p"
  have n: "2 ^ (s + m) \<le> ?n" "?n < 2 ^ (s + Suc m)" using p by simp_all
  have "(2::nat) ^ (s + Suc m) \<le> 2 ^ (s + k)" by (rule power_increasing) (use assms(2) Suc in simp_all)
  with n(2) have nk: "?n < 2 ^ (s + k)" by linarith
  also have "\<dots> < 2 ^ 64" by (rule power_strict_increasing) (use assms(1) in simp_all)
  finally have u: "unat (of_nat ?n :: size_t) = ?n" by (rule unat_of_nat_size)
  have "s + m < 64" using assms(1,2) Suc by simp
  from block_later [of s m "of_nat ?n", unfolded u, OF n this] nk u Suc show ?thesis
    by (intro exI [of _ "of_nat ?n"]) simp
qed

section \<open>The initial capacity\<close>

lemma nat_trailing_zeros_pow2: "nat_trailing_zeros (2 ^ k) = k"
  by (induction k) (simp_all add: nat_trailing_zeros.simps)

lemma ValidatedShift_cases:
  "ValidatedShift c = Inr s \<longleftrightarrow> 1 \<le> s \<and> s < 64 \<and> unat c = 2 ^ s"
proof
  assume "ValidatedShift c = Inr s"
  then have c: "\<not> c < 2" "\<not> not_pow2 c" "s = countr_zero c"
    by (auto simp: ValidatedShift_def split: if_splits)
  then have "c \<noteq> 0" by auto
  with c(2) obtain k where k: "k < 64" "unat c = 2 ^ k" by (auto simp: not_pow2_iff)
  note k(2)
  moreover from this have "countr_zero c = k"
    using \<open>c \<noteq> 0\<close> by (simp add: countr_zero_def nat_trailing_zeros_pow2)
  moreover have "1 \<le> k" using c(1) k(2) by (cases k) (simp_all add: word_less_nat_alt)
  ultimately show "1 \<le> s \<and> s < 64 \<and> unat c = 2 ^ s" using k(1) c(3) by simp
next
  assume s: "1 \<le> s \<and> s < 64 \<and> unat c = 2 ^ s"
  have "(2::nat) ^ 1 \<le> 2 ^ s" by (rule power_increasing) (use s in simp_all)
  then have "\<not> c < 2" using s by (simp add: word_less_nat_alt)
  moreover have "c \<noteq> 0" using s by auto
  moreover have "\<not> not_pow2 c" using s by (auto simp: not_pow2_iff)
  ultimately show "ValidatedShift c = Inr s"
    using s by (simp add: ValidatedShift_def countr_zero_def nat_trailing_zeros_pow2)
qed

end
