(* ===== verification/HashSetRefinable.thy ===== *)
theory HashSetRefinable
  imports PerThread BucketTable MutexArena
begin

text \<open>
  \<open>HashSetRefinable.h\<close>: a table of buckets with a mutex per bucket, in an arena that grows with the
  table. A thread locks the mutex of its bucket and then checks that the table has not been resized
  meanwhile; a resize raises the flag \<open>resizing_\<close> and takes and releases every mutex once, so that
  whoever was in a critical section has left it. Each step of the program makes one access to a
  mutex, an atomic variable or a bucket. \<open>hash\<close> is \<open>std::hash<T>\<close>; \<open>mem\<close> bounds the number of elements
  one allocation can have (a longer one throws \<open>std::bad_alloc\<close>); elements are copied where the code
  moves them; the pauses in the spin loop are no steps.
\<close>

section \<open>State and construction\<close>

text \<open>A mutex is a block of the arena and a position in it; a mutex is its owner, if it has one.\<close>

type_synonym mutex_at = "nat \<times> nat"

type_synonym arena = "tid option list option list"

record 'a refinable =
  rf_arena :: arena
  rf_initial_shift :: nat
  rf_table :: "'a list list"
  rf_capacity :: size_t
  rf_resizing :: bool
  rf_set_size :: size_t

definition rf_load_factor_numerator :: size_t where
  "rf_load_factor_numerator = 3"

definition rf_load_factor_denominator :: size_t where
  "rf_load_factor_denominator = 4"

definition kMaxBlocks :: nat where
  "kMaxBlocks = 64 + 1"

text \<open>
  \<open>EnlargeMutexArena\<close>: \<open>None\<close> when the assertion fails, the block index is out of range or the shift in
  \<open>BlockSize\<close> is undefined.
\<close>

definition EnlargeMutexArena :: "nat \<Rightarrow> nat \<Rightarrow> nat \<Rightarrow> arena \<Rightarrow> (exn + arena) option" where
  "EnlargeMutexArena mem initial_shift b arena =
     (if b < length arena \<and> arena ! b = None \<and> block_shift initial_shift b < 64
      then Some (if mem < unat (BlockSize initial_shift b) then Inl Bad_alloc
                 else Inr (arena[b := Some (replicate (unat (BlockSize initial_shift b)) None)]))
      else None)"

definition construct_refinable :: "nat \<Rightarrow> size_t \<Rightarrow> (exn + 'a refinable) option" where
  "construct_refinable mem initial_capacity =
     (case ValidatedShift initial_capacity of
        Inl ex \<Rightarrow> Some (Inl ex)
      | Inr shift \<Rightarrow>
          if vec_max < unat initial_capacity then Some (Inl Length_error)
          else if mem < unat initial_capacity then Some (Inl Bad_alloc)
          else (case EnlargeMutexArena mem shift 0 (replicate kMaxBlocks None) of
                  None \<Rightarrow> None
                | Some (Inl ex) \<Rightarrow> Some (Inl ex)
                | Some (Inr arena) \<Rightarrow>
                    Some (Inr \<lparr>rf_arena = arena, rf_initial_shift = shift,
                               rf_table = replicate (unat initial_capacity) [],
                               rf_capacity = initial_capacity, rf_resizing = False, rf_set_size = 0\<rparr>)))"

definition rf_Size :: "'a refinable \<Rightarrow> size_t" where
  "rf_Size s = rf_set_size s"

section \<open>Mutexes of the arena\<close>

text \<open>\<open>GetMutex\<close>: \<open>None\<close> when one of its assertions fails.\<close>

definition GetMutex :: "'a refinable \<Rightarrow> size_t \<Rightarrow> mutex_at option" where
  "GetMutex s index =
     (let b = BlockIndex (rf_initial_shift s) index; offset = BlockOffset (rf_initial_shift s) index
      in if b < length (rf_arena s) \<and> rf_arena s ! b \<noteq> None \<and> block_shift (rf_initial_shift s) b < 64 \<and>
            offset < BlockSize (rf_initial_shift s) b
         then Some (b, unat offset) else None)"

definition arena_lock :: "tid \<Rightarrow> mutex_at \<Rightarrow> arena \<Rightarrow> arena option option" where
  "arena_lock t l arena =
     (case l of (b, p) \<Rightarrow>
        if b < length arena
        then (case arena ! b of
                None \<Rightarrow> Some None
              | Some ms \<Rightarrow>
                  (case mutex_lock t p ms of
                     Locked ms' \<Rightarrow> Some (Some (arena[b := Some ms']))
                   | Waiting \<Rightarrow> None
                   | Lock_undef \<Rightarrow> Some None))
        else Some None)"

definition arena_unlock :: "tid \<Rightarrow> mutex_at \<Rightarrow> arena \<Rightarrow> arena option" where
  "arena_unlock t l arena =
     (case l of (b, p) \<Rightarrow>
        if b < length arena
        then (case arena ! b of
                None \<Rightarrow> None
              | Some ms \<Rightarrow> map_option (\<lambda>ms'. arena[b := Some ms']) (mutex_unlock t p ms))
        else None)"

section \<open>The operations as a program\<close>

text \<open>
  Program counters. \<open>RSpin\<close> to \<open>RRetry\<close> are the constructor of \<open>RefinableScopedLock\<close>: the spin on
  \<open>resizing_\<close>, the load of \<open>capacity_\<close>, the lock, the two checks, and the unlock before another round.
  \<open>RFind\<close> to \<open>RUnlock\<close> are the critical section on the bucket \<open>h\<close> under the mutex \<open>l\<close>. \<open>RPolicyCap\<close> and
  \<open>RPolicySize\<close> are \<open>Policy\<close>. From \<open>RExchange\<close> on it is \<open>Resize\<close>: \<open>RQuiesce\<close> and \<open>RRelease\<close> are the loop of
  \<open>Quiesce\<close>, \<open>RMove c k nt\<close> moves the bucket \<open>k\<close>, \<open>RReopen\<close> lowers the flag, \<open>RThrown\<close> is an exception that
  has left \<open>Add\<close>.
\<close>

datatype 'a rpc =
    RIdle
  | RSpin "'a op"
  | RCap "'a op"
  | RLock "'a op" size_t size_t mutex_at
  | RCheck1 "'a op" size_t size_t mutex_at
  | RCheck2 "'a op" size_t size_t mutex_at
  | RRetry "'a op" mutex_at
  | RFind "'a op" size_t mutex_at
  | RPush 'a size_t mutex_at
  | RErase 'a size_t nat mutex_at
  | RCount bool mutex_at
  | RUnlock bool bool mutex_at
  | RPolicyCap
  | RPolicySize size_t
  | RExchange
  | RRecheckCap
  | RRecheckSize size_t
  | ROldCap
  | RQuiesce size_t size_t
  | RRelease size_t size_t mutex_at
  | REnlarge size_t
  | RNewTable size_t
  | RMove size_t nat "'a list list"
  | RStoreCap size_t "'a list list"
  | RStoreTable "'a list list"
  | RReopen
  | RRet bool
  | RThrown exn
  | RUndef

definition rf_overloaded :: "'a refinable \<Rightarrow> size_t \<Rightarrow> bool" where
  "rf_overloaded s capacity \<longleftrightarrow>
     capacity * rf_load_factor_numerator div rf_load_factor_denominator < rf_set_size s"

definition rf_lock :: "tid \<Rightarrow> mutex_at \<Rightarrow> 'a refinable \<Rightarrow> 'a rpc \<Rightarrow> ('a refinable \<times> 'a rpc) option" where
  "rf_lock t l s pc =
     (case arena_lock t l (rf_arena s) of
        None \<Rightarrow> None
      | Some None \<Rightarrow> Some (s, RUndef)
      | Some (Some arena) \<Rightarrow> Some (s\<lparr>rf_arena := arena\<rparr>, pc))"

definition rf_unlock :: "tid \<Rightarrow> mutex_at \<Rightarrow> 'a refinable \<Rightarrow> 'a rpc \<Rightarrow> ('a refinable \<times> 'a rpc) option" where
  "rf_unlock t l s pc =
     (case arena_unlock t l (rf_arena s) of
        None \<Rightarrow> Some (s, RUndef)
      | Some arena \<Rightarrow> Some (s\<lparr>rf_arena := arena\<rparr>, pc))"

text \<open>
  What follows \<open>std::ranges::find\<close>. The first flag of \<open>RUnlock\<close> and the one of \<open>RCount\<close> say whether the
  operation is \<open>Add\<close>.
\<close>

definition rf_found :: "'a op \<Rightarrow> size_t \<Rightarrow> mutex_at \<Rightarrow> 'a list \<Rightarrow> 'a rpc" where
  "rf_found x h l bucket =
     (case x of
        Add e \<Rightarrow> if ranges_find e bucket \<noteq> length bucket then RUnlock True False l else RPush e h l
      | Remove e \<Rightarrow>
          let it = ranges_find e bucket in if it \<noteq> length bucket then RErase e h it l else RUnlock False False l
      | Contains e \<Rightarrow> RUnlock False (ranges_find e bucket \<noteq> length bucket) l)"

fun refinable_step ::
    "('a \<Rightarrow> size_t) \<Rightarrow> nat \<Rightarrow> tid \<Rightarrow> 'a refinable \<Rightarrow> 'a rpc \<Rightarrow> ('a refinable \<times> 'a rpc) option" where
  "refinable_step hash mem t s (RSpin x) = Some (s, if rf_resizing s then RSpin x else RCap x)"
| "refinable_step hash mem t s (RCap x) =
     Some (s, if rf_capacity s = 0 then RUndef
              else let h = hash (op_elem x) mod rf_capacity s
                   in case GetMutex s h of None \<Rightarrow> RUndef | Some l \<Rightarrow> RLock x (rf_capacity s) h l)"
| "refinable_step hash mem t s (RLock x c h l) = rf_lock t l s (RCheck1 x c h l)"
| "refinable_step hash mem t s (RCheck1 x c h l) =
     Some (s, if rf_resizing s then RRetry x l else RCheck2 x c h l)"
| "refinable_step hash mem t s (RCheck2 x c h l) =
     Some (s, if rf_capacity s = c then RFind x h l else RRetry x l)"
| "refinable_step hash mem t s (RRetry x l) = rf_unlock t l s (RSpin x)"
| "refinable_step hash mem t s (RFind x h l) =
     Some (s, if unat h < length (rf_table s) then rf_found x h l (rf_table s ! unat h) else RUndef)"
| "refinable_step hash mem t s (RPush e h l) =
     Some (if unat h < length (rf_table s)
           then (s\<lparr>rf_table := push_bucket (unat h) e (rf_table s)\<rparr>, RCount True l) else (s, RUndef))"
| "refinable_step hash mem t s (RErase e h it l) =
     Some (if unat h < length (rf_table s) \<and> it < length (rf_table s ! unat h)
           then (s\<lparr>rf_table := erase_bucket (unat h) it (rf_table s)\<rparr>, RCount False l) else (s, RUndef))"
| "refinable_step hash mem t s (RCount adding l) =
     Some (s\<lparr>rf_set_size := (if adding then rf_set_size s + 1 else rf_set_size s - 1)\<rparr>,
           RUnlock adding True l)"
| "refinable_step hash mem t s (RUnlock adding r l) =
     rf_unlock t l s (if adding \<and> r then RPolicyCap else RRet r)"
| "refinable_step hash mem t s RPolicyCap = Some (s, RPolicySize (rf_capacity s))"
| "refinable_step hash mem t s (RPolicySize c) =
     Some (s, if rf_overloaded s c then RExchange else RRet True)"
| "refinable_step hash mem t s RExchange =
     Some (s\<lparr>rf_resizing := True\<rparr>, if rf_resizing s then RRet True else RRecheckCap)"
| "refinable_step hash mem t s RRecheckCap = Some (s, RRecheckSize (rf_capacity s))"
| "refinable_step hash mem t s (RRecheckSize c) =
     Some (s, if rf_overloaded s c then ROldCap else RReopen)"
| "refinable_step hash mem t s ROldCap = Some (s, RQuiesce (rf_capacity s) 0)"
| "refinable_step hash mem t s (RQuiesce c i) =
     (if i < c
      then (case GetMutex s i of None \<Rightarrow> Some (s, RUndef) | Some l \<Rightarrow> rf_lock t l s (RRelease c i l))
      else Some (s, REnlarge c))"
| "refinable_step hash mem t s (RRelease c i l) = rf_unlock t l s (RQuiesce c (i + 1))"
| "refinable_step hash mem t s (REnlarge c) =
     Some (case EnlargeMutexArena mem (rf_initial_shift s) (BlockIndex (rf_initial_shift s) c) (rf_arena s) of
             None \<Rightarrow> (s, RUndef)
           | Some (Inl ex) \<Rightarrow> (s, RThrown ex)
           | Some (Inr arena) \<Rightarrow> (s\<lparr>rf_arena := arena\<rparr>, RNewTable (2 * c)))"
| "refinable_step hash mem t s (RNewTable c) =
     Some (s, if vec_max < unat c then RThrown Length_error
              else if mem < unat c then RThrown Bad_alloc
              else if c = 0 then RUndef
              else RMove c 0 (replicate (unat c) []))"
| "refinable_step hash mem t s (RMove c k nt) =
     Some (s, if k < length (rf_table s) then RMove c (k + 1) (move_bucket hash c (rf_table s ! k) nt)
              else RStoreCap c nt)"
| "refinable_step hash mem t s (RStoreCap c nt) = Some (s\<lparr>rf_capacity := c\<rparr>, RStoreTable nt)"
| "refinable_step hash mem t s (RStoreTable nt) = Some (s\<lparr>rf_table := nt\<rparr>, RReopen)"
| "refinable_step hash mem t s RReopen = Some (s\<lparr>rf_resizing := False\<rparr>, RRet True)"
| "refinable_step hash mem t s pc = None"

definition refinable_program :: "('a \<Rightarrow> size_t) \<Rightarrow> nat \<Rightarrow> ('a, 'a refinable, 'a rpc) program" where
  "refinable_program hash mem =
     \<lparr>p_idle = RIdle, p_start = RSpin, p_step = refinable_step hash mem,
      p_result = (\<lambda>pc. case pc of RRet r \<Rightarrow> Some r | _ \<Rightarrow> None)\<rparr>"

end
