(* ===== verification/RefinableInv.thy ===== *)
theory RefinableInv
  imports HashSetRefinable
begin

text \<open>
  The invariant of the refinable set: the arena has the mutexes of all the buckets, a thread in a
  critical section holds the mutex of its bucket and the table has not changed since it checked, and a
  resize goes on only where every mutex it has passed keeps later threads out.
\<close>

section \<open>Owners\<close>

definition owner_of :: "arena \<Rightarrow> mutex_at \<Rightarrow> tid option" where
  "owner_of a l =
     (case l of (b, p) \<Rightarrow>
        if b < length a
        then (case a ! b of None \<Rightarrow> None | Some ms \<Rightarrow> if p < length ms then ms ! p else None) else None)"

definition has_mutex :: "arena \<Rightarrow> mutex_at \<Rightarrow> bool" where
  "has_mutex a l \<longleftrightarrow> fst l < length a \<and> (\<exists>ms. a ! fst l = Some ms \<and> snd l < length ms)"

definition set_owner :: "arena \<Rightarrow> mutex_at \<Rightarrow> tid option \<Rightarrow> arena" where
  "set_owner a l v = a[fst l := map_option (\<lambda>ms. ms[snd l := v]) (a ! fst l)]"

lemma owner_of_set_owner:
  "has_mutex a l \<Longrightarrow> owner_of (set_owner a l v) = (owner_of a)(l := v)"
  by (rule ext) (auto simp: owner_of_def has_mutex_def set_owner_def nth_list_update split: prod.splits option.splits)

lemma arena_lock_eq:
  assumes "has_mutex a l" "owner_of a l \<noteq> Some t"
  shows "arena_lock t l a = (if owner_of a l = None then Some (Some (set_owner a l (Some t))) else None)"
  using assms
  by (auto simp: arena_lock_def mutex_lock_def owner_of_def has_mutex_def set_owner_def
      split: prod.splits option.splits if_splits)

lemma arena_unlock_eq:
  "has_mutex a l \<Longrightarrow> owner_of a l = Some t \<Longrightarrow> arena_unlock t l a = Some (set_owner a l None)"
  by (auto simp: arena_unlock_def mutex_unlock_def owner_of_def has_mutex_def set_owner_def
      split: prod.splits option.splits if_splits)

section \<open>Blocks\<close>

definition blocks :: "nat \<Rightarrow> nat \<Rightarrow> arena \<Rightarrow> bool" where
  "blocks n shift a \<longleftrightarrow>
     length a = kMaxBlocks \<and>
     (\<forall>b < kMaxBlocks. if b < n then \<exists>ms. a ! b = Some ms \<and> length ms = 2 ^ block_shift shift b
                       else a ! b = None)"

lemma blocks_set_owner [simp]: "blocks n shift (set_owner a l v) \<longleftrightarrow> blocks n shift a"
proof -
  have "(\<exists>ms. set_owner a l v ! b = Some ms \<and> length ms = c) \<longleftrightarrow> (\<exists>ms. a ! b = Some ms \<and> length ms = c)"
    "set_owner a l v ! b = None \<longleftrightarrow> a ! b = None" if "b < length a" for b c
    using that by (cases "b = fst l"; cases "a ! b"; simp add: set_owner_def)+
  then show ?thesis by (auto simp: blocks_def set_owner_def)
qed

lemma blocks_nth:
  assumes "blocks n shift a" "b < n" "b < kMaxBlocks"
  shows "\<exists>ms. a ! b = Some ms \<and> length ms = 2 ^ block_shift shift b"
proof -
  have "if b < n then \<exists>ms. a ! b = Some ms \<and> length ms = 2 ^ block_shift shift b else a ! b = None"
    using assms(1,3) unfolding blocks_def by blast
  with assms(2) show ?thesis by simp
qed

lemma blocks_enlarge:
  assumes "blocks n shift a" "n < kMaxBlocks" "block_shift shift n < 64" "EnlargeMutexArena mem shift n a = Some (Inr a')"
  shows "blocks (Suc n) shift a'" "owner_of a' = owner_of a"
proof -
  have len: "n < length a" "a ! n = None" using assms(1,2) by (auto simp: blocks_def)
  then have a': "a' = a[n := Some (replicate (unat (BlockSize shift n)) None)]"
    using assms(3,4) by (auto simp: EnlargeMutexArena_def split: if_splits)
  show "blocks (Suc n) shift a'"
    using assms(1,2) BlockSize_nat [OF assms(3)] by (auto simp: a' blocks_def nth_list_update less_Suc_eq)
  show "owner_of a' = owner_of a"
    using len by (intro ext) (auto simp: a' owner_of_def nth_list_update split: prod.splits option.splits)
qed

lemma EnlargeMutexArena_cases:
  assumes "blocks n shift a" "n < kMaxBlocks" "block_shift shift n < 64"
  shows "EnlargeMutexArena mem shift n a = Some (Inl Bad_alloc) \<or>
    (\<exists>a'. EnlargeMutexArena mem shift n a = Some (Inr a'))"
  using assms by (auto simp: EnlargeMutexArena_def blocks_def)

lemma GetMutex_Some:
  assumes "blocks n (rf_initial_shift s) (rf_arena s)" "rf_initial_shift s + k < 64" "k < n"
    and "unat h < 2 ^ (rf_initial_shift s + k)"
  shows "\<exists>l. GetMutex s h = Some l"
proof -
  let ?b = "BlockIndex (rf_initial_shift s) h"
  note r = block_in_range [OF assms(2,4)]
  have "?b < kMaxBlocks" using r(1) assms(2) by (simp add: kMaxBlocks_def)
  moreover from this have "\<exists>ms. rf_arena s ! ?b = Some ms"
    using blocks_nth [OF assms(1), of ?b] assms(3) r(1) by auto
  moreover have "BlockOffset (rf_initial_shift s) h < BlockSize (rf_initial_shift s) ?b"
    using r(2) BlockSize_nat [OF r(3)] by (simp add: word_less_nat_alt)
  ultimately show ?thesis using assms(1) r(3) by (auto simp: GetMutex_def Let_def blocks_def)
qed

lemma GetMutex_has:
  assumes "blocks n (rf_initial_shift s) (rf_arena s)" "GetMutex s h = Some l"
  shows "has_mutex (rf_arena s) l"
proof -
  let ?b = "BlockIndex (rf_initial_shift s) h" and ?o = "BlockOffset (rf_initial_shift s) h"
  from assms(2) have l: "l = (?b, unat ?o)" "?b < length (rf_arena s)" "rf_arena s ! ?b \<noteq> None"
    "block_shift (rf_initial_shift s) ?b < 64" "?o < BlockSize (rf_initial_shift s) ?b"
    by (auto simp: GetMutex_def Let_def split: if_splits)
  then obtain ms where ms: "rf_arena s ! ?b = Some ms" by auto
  have "?b < n" using assms(1) l(2) ms by (auto simp: blocks_def split: if_splits)
  with ms assms(1) l(2) have "length ms = 2 ^ block_shift (rf_initial_shift s) ?b"
    by (auto simp: blocks_def)
  then have "unat ?o < length ms" using l(4,5) BlockSize_nat by (simp add: word_less_nat_alt)
  with l(1,2) ms show ?thesis by (simp add: has_mutex_def)
qed

lemma GetMutex_mono:
  assumes "GetMutex s h = Some l" "rf_initial_shift s' = rf_initial_shift s"
    and "blocks n (rf_initial_shift s) (rf_arena s)" "blocks n' (rf_initial_shift s) (rf_arena s')" "n \<le> n'"
  shows "GetMutex s' h = Some l"
proof -
  have "\<And>b. b < kMaxBlocks \<Longrightarrow> rf_arena s ! b \<noteq> None \<Longrightarrow> rf_arena s' ! b \<noteq> None"
    using assms(3,4,5) unfolding blocks_def by (metis less_le_trans option.discI)
  moreover have "length (rf_arena s) = kMaxBlocks" "length (rf_arena s') = kMaxBlocks"
    using assms(3,4) by (simp_all add: blocks_def)
  ultimately show ?thesis
    using assms(1) unfolding GetMutex_def Let_def assms(2) by (simp split: if_splits)
qed

lemma GetMutex_inject:
  assumes "GetMutex s h = Some l" "GetMutex s h' = Some l" "rf_initial_shift s < 64"
  shows "h = h'"
  by (rule slot_inject [OF assms(3)])
    (use assms in \<open>auto simp: GetMutex_def Let_def word_unat_eq_iff split: if_splits\<close>)

section \<open>The invariant of the shared state\<close>

definition rf_buckets :: "'a refinable \<Rightarrow> size_t" where
  "rf_buckets s = of_nat (length (rf_table s))"

text \<open>How often the table has doubled; and how many blocks there are beyond that.\<close>

definition rf_level :: "'a refinable \<Rightarrow> nat" where
  "rf_level s = nat_width (length (rf_table s)) - Suc (rf_initial_shift s)"

definition rf_extra :: "nat \<Rightarrow> 'a refinable \<Rightarrow> bool" where
  "rf_extra j s \<longleftrightarrow> blocks (rf_level s + j) (rf_initial_shift s) (rf_arena s)"

definition rf_inv :: "('a \<Rightarrow> size_t) \<Rightarrow> 'a refinable \<Rightarrow> bool" where
  "rf_inv hash s \<longleftrightarrow>
     table_ok hash (rf_table s) \<and>
     length (rf_table s) = 2 ^ (rf_initial_shift s + rf_level s) \<and>
     (rf_extra 1 s \<and> rf_capacity s = rf_buckets s \<or>
      rf_resizing s \<and> rf_extra 2 s \<and> (rf_capacity s = rf_buckets s \<or> rf_capacity s = 2 * rf_buckets s))"

lemma level_eq: "length (rf_table s) = 2 ^ (rf_initial_shift s + k) \<Longrightarrow> rf_level s = k"
  using nat_width_unique [of "rf_initial_shift s + k" "length (rf_table s)"] by (simp add: rf_level_def)

lemma rf_invD:
  assumes "rf_inv hash s"
  shows "table_ok hash (rf_table s)" "length (rf_table s) = 2 ^ (rf_initial_shift s + rf_level s)"
    "rf_initial_shift s + rf_level s < 62" "unat (rf_buckets s) = length (rf_table s)"
    "rf_buckets s \<noteq> 0" "unat (2 * rf_buckets s) = 2 * length (rf_table s)" "rf_capacity s \<noteq> 0"
proof -
  show tab: "table_ok hash (rf_table s)" and len: "length (rf_table s) = 2 ^ (rf_initial_shift s + rf_level s)"
    using assms by (simp_all add: rf_inv_def)
  note t = table_okD [OF tab]
  show "rf_initial_shift s + rf_level s < 62"
  proof (rule ccontr)
    assume "\<not> ?thesis"
    then have "(2::nat) ^ 62 \<le> length (rf_table s)" unfolding len by (intro power_increasing) simp_all
    with t(4) show False by simp
  qed
  show "unat (rf_buckets s) = length (rf_table s)" "rf_buckets s \<noteq> 0"
    "unat (2 * rf_buckets s) = 2 * length (rf_table s)"
    using t(2,3) double_length(1) [OF tab] by (simp_all add: rf_buckets_def)
  then show "rf_capacity s \<noteq> 0"
    using assms double_length(2) [OF tab] by (auto simp: rf_inv_def rf_buckets_def)
qed

lemma rf_inv_blocks:
  assumes "rf_inv hash s"
  obtains n where "blocks n (rf_initial_shift s) (rf_arena s)" "rf_level s < n"
    "rf_capacity s = rf_buckets s \<or> rf_level s + 1 < n"
proof (cases "rf_extra 2 s")
  case True
  then show thesis by (intro that [of "rf_level s + 2"]) (simp_all add: rf_extra_def)
next
  case False
  with assms show thesis by (intro that [of "rf_level s + 1"]) (auto simp: rf_inv_def rf_extra_def)
qed

text \<open>Every index below \<open>capacity_\<close> has a mutex.\<close>

lemma capacity_mutex:
  assumes inv: "rf_inv hash s" and h: "unat h < unat (rf_capacity s)"
  shows "\<exists>l. GetMutex s h = Some l"
proof -
  note D = rf_invD [OF inv]
  from inv obtain n where n: "blocks n (rf_initial_shift s) (rf_arena s)" "rf_level s < n"
    "rf_capacity s = rf_buckets s \<or> rf_level s + 1 < n"
    by (rule rf_inv_blocks)
  show ?thesis
  proof (cases "rf_capacity s = rf_buckets s")
    case True
    with h D(2,4) GetMutex_Some [OF n(1) _ n(2)] D(3) show ?thesis by simp
  next
    case False
    with inv have c: "rf_capacity s = 2 * rf_buckets s" by (auto simp: rf_inv_def)
    have "unat h < 2 ^ (rf_initial_shift s + (rf_level s + 1))" using h D(2,6) c by simp
    from GetMutex_Some [OF n(1) _ _ this] n(3) False D(3) show ?thesis by simp
  qed
qed

section \<open>What the threads know\<close>

text \<open>The mutex a thread holds.\<close>

fun rf_held :: "'a rpc \<Rightarrow> mutex_at option" where
  "rf_held (RCheck1 x c h l) = Some l"
| "rf_held (RCheck2 x c h l) = Some l"
| "rf_held (RRetry x l) = Some l"
| "rf_held (RFind x h l) = Some l"
| "rf_held (RPush e h l) = Some l"
| "rf_held (RErase e h k l) = Some l"
| "rf_held (RCount a l) = Some l"
| "rf_held (RUnlock a r l) = Some l"
| "rf_held (RRelease c i l) = Some l"
| "rf_held pc = None"

text \<open>
  The threads that have seen no resize since they locked the mutex of the bucket \<open>h\<close>; the thread that
  resizes; and the buckets whose mutexes it has passed.
\<close>

fun rf_entered :: "'a rpc \<Rightarrow> size_t option" where
  "rf_entered (RCheck2 x c h l) = Some h"
| "rf_entered (RFind x h l) = Some h"
| "rf_entered (RPush e h l) = Some h"
| "rf_entered (RErase e h k l) = Some h"
| "rf_entered pc = None"

fun rf_resizer :: "'a rpc \<Rightarrow> bool" where
  "rf_resizer RRecheckCap = True"
| "rf_resizer (RRecheckSize c) = True"
| "rf_resizer ROldCap = True"
| "rf_resizer (RQuiesce c i) = True"
| "rf_resizer (RRelease c i l) = True"
| "rf_resizer (REnlarge c) = True"
| "rf_resizer (RNewTable c) = True"
| "rf_resizer (RMove c k nt) = True"
| "rf_resizer (RStoreCap c nt) = True"
| "rf_resizer (RStoreTable nt) = True"
| "rf_resizer RReopen = True"
| "rf_resizer (RThrown ex) = True"
| "rf_resizer pc = False"

fun rf_swept :: "'a rpc \<Rightarrow> size_t \<Rightarrow> bool" where
  "rf_swept (RQuiesce c i) h \<longleftrightarrow> h < i"
| "rf_swept (RRelease c i l) h \<longleftrightarrow> h \<le> i"
| "rf_swept (REnlarge c) h \<longleftrightarrow> True"
| "rf_swept (RNewTable c) h \<longleftrightarrow> True"
| "rf_swept (RMove c k nt) h \<longleftrightarrow> True"
| "rf_swept (RStoreCap c nt) h \<longleftrightarrow> True"
| "rf_swept (RStoreTable nt) h \<longleftrightarrow> True"
| "rf_swept pc h \<longleftrightarrow> False"

definition rf_pair :: "'a rpc \<Rightarrow> 'a rpc \<Rightarrow> bool" where
  "rf_pair p q \<longleftrightarrow>
     (\<forall>h. rf_entered p = Some h \<longrightarrow> \<not> rf_swept q h) \<and> \<not> (rf_resizer p \<and> rf_resizer q)"

definition rf_lockable :: "('a \<Rightarrow> size_t) \<Rightarrow> 'a refinable \<Rightarrow> 'a op \<Rightarrow> size_t \<Rightarrow> size_t \<Rightarrow> mutex_at \<Rightarrow> bool" where
  "rf_lockable hash s x c h l \<longleftrightarrow>
     c \<noteq> 0 \<and> c \<le> rf_capacity s \<and> h = hash (op_elem x) mod c \<and> GetMutex s h = Some l"

definition rf_inside :: "('a \<Rightarrow> size_t) \<Rightarrow> 'a refinable \<Rightarrow> 'a \<Rightarrow> size_t \<Rightarrow> mutex_at \<Rightarrow> bool" where
  "rf_inside hash s e h l \<longleftrightarrow>
     rf_capacity s = rf_buckets s \<and> h = hash e mod rf_buckets s \<and> GetMutex s h = Some l"

definition rf_quiet :: "'a refinable \<Rightarrow> bool" where
  "rf_quiet s \<longleftrightarrow> rf_resizing s \<and> rf_capacity s = rf_buckets s \<and> rf_extra 1 s"

definition rf_growing :: "'a refinable \<Rightarrow> bool" where
  "rf_growing s \<longleftrightarrow> rf_resizing s \<and> rf_capacity s = rf_buckets s \<and> rf_extra 2 s"

definition rf_filled :: "('a \<Rightarrow> size_t) \<Rightarrow> 'a refinable \<Rightarrow> size_t \<Rightarrow> nat \<Rightarrow> 'a list list \<Rightarrow> bool" where
  "rf_filled hash s c k nt \<longleftrightarrow>
     c = 2 * rf_buckets s \<and> unat c \<le> vec_max \<and> k \<le> length (rf_table s) \<and> buckets_ok hash c nt \<and>
     contents nt = contents (take k (rf_table s))"

fun rf_facts :: "('a \<Rightarrow> size_t) \<Rightarrow> 'a refinable \<Rightarrow> 'a rpc \<Rightarrow> bool" where
  "rf_facts hash s (RLock x c h l) \<longleftrightarrow> rf_lockable hash s x c h l"
| "rf_facts hash s (RCheck1 x c h l) \<longleftrightarrow> rf_lockable hash s x c h l"
| "rf_facts hash s (RCheck2 x c h l) \<longleftrightarrow> rf_lockable hash s x c h l \<and> rf_capacity s = rf_buckets s"
| "rf_facts hash s (RFind x h l) \<longleftrightarrow> rf_inside hash s (op_elem x) h l"
| "rf_facts hash s (RPush e h l) \<longleftrightarrow> rf_inside hash s e h l \<and> e \<notin> set (rf_table s ! unat h)"
| "rf_facts hash s (RErase e h k l) \<longleftrightarrow>
     rf_inside hash s e h l \<and> e \<in> set (rf_table s ! unat h) \<and> k = ranges_find e (rf_table s ! unat h)"
| "rf_facts hash s RRecheckCap \<longleftrightarrow> rf_quiet s"
| "rf_facts hash s (RRecheckSize c) \<longleftrightarrow> rf_quiet s"
| "rf_facts hash s ROldCap \<longleftrightarrow> rf_quiet s"
| "rf_facts hash s (RQuiesce c i) \<longleftrightarrow> rf_quiet s \<and> c = rf_buckets s \<and> i \<le> c"
| "rf_facts hash s (RRelease c i l) \<longleftrightarrow> rf_quiet s \<and> c = rf_buckets s \<and> i < c"
| "rf_facts hash s (REnlarge c) \<longleftrightarrow> rf_quiet s \<and> c = rf_buckets s"
| "rf_facts hash s (RNewTable c) \<longleftrightarrow> rf_growing s \<and> c = 2 * rf_buckets s"
| "rf_facts hash s (RMove c k nt) \<longleftrightarrow> rf_growing s \<and> rf_filled hash s c k nt"
| "rf_facts hash s (RStoreCap c nt) \<longleftrightarrow> rf_growing s \<and> rf_filled hash s c (length (rf_table s)) nt"
| "rf_facts hash s (RStoreTable nt) \<longleftrightarrow>
     rf_resizing s \<and> rf_capacity s = 2 * rf_buckets s \<and> rf_extra 2 s \<and>
     rf_filled hash s (2 * rf_buckets s) (length (rf_table s)) nt"
| "rf_facts hash s RReopen \<longleftrightarrow> rf_quiet s"
| "rf_facts hash s (RThrown ex) \<longleftrightarrow> rf_resizing s"
| "rf_facts hash s RUndef \<longleftrightarrow> False"
| "rf_facts hash s pc \<longleftrightarrow> True"

text \<open>A thread owns the mutex it holds and no other.\<close>

definition rf_owns :: "tid \<Rightarrow> 'a refinable \<Rightarrow> 'a rpc \<Rightarrow> bool" where
  "rf_owns t s pc \<longleftrightarrow>
     (\<forall>l. owner_of (rf_arena s) l = Some t \<longleftrightarrow> rf_held pc = Some l) \<and>
     (\<forall>l. rf_held pc = Some l \<longrightarrow> has_mutex (rf_arena s) l)"

definition rf_ok :: "('a \<Rightarrow> size_t) \<Rightarrow> tid \<Rightarrow> 'a refinable \<Rightarrow> 'a rpc \<Rightarrow> bool" where
  "rf_ok hash t s pc \<longleftrightarrow> rf_owns t s pc \<and> rf_facts hash s pc"

fun rf_stage :: "'a rpc \<Rightarrow> 'a stage" where
  "rf_stage RIdle = Outside"
| "rf_stage (RSpin x) = Before x"
| "rf_stage (RCap x) = Before x"
| "rf_stage (RLock x c h l) = Before x"
| "rf_stage (RCheck1 x c h l) = Before x"
| "rf_stage (RCheck2 x c h l) = Before x"
| "rf_stage (RRetry x l) = Before x"
| "rf_stage (RFind x h l) = Before x"
| "rf_stage (RPush e h l) = Before (Add e)"
| "rf_stage (RErase e h k l) = Before (Remove e)"
| "rf_stage (RCount a l) = Done True (if a then 1 else - 1)"
| "rf_stage (RUnlock a r l) = Done r 0"
| "rf_stage (RRet r) = Done r 0"
| "rf_stage RUndef = Broken"
| "rf_stage pc = Done True 0"

definition rf_elements :: "'a refinable \<Rightarrow> 'a set" where
  "rf_elements s = contents (rf_table s)"

end
