(* ===== verification/RefinableFrame.thy ===== *)
theory RefinableFrame
  imports RefinableInv
begin

text \<open>
  What a step of one thread may do to the shared state of the refinable set (\<open>rf_change\<close>) and to its
  own place in the protocol (\<open>rf_next\<close>), and that the other threads keep what they know.
\<close>

section \<open>Changes\<close>

definition rf_same :: "'a refinable \<Rightarrow> 'a refinable \<Rightarrow> bool" where
  "rf_same s s' \<longleftrightarrow>
     length (rf_table s') = length (rf_table s) \<and> rf_capacity s' = rf_capacity s \<and>
     (\<forall>n. blocks n (rf_initial_shift s) (rf_arena s') \<longleftrightarrow> blocks n (rf_initial_shift s) (rf_arena s))"

text \<open>
  A step changes owners only; or the bucket whose mutex the thread holds; or, once all the mutexes have
  been passed, anything; or it raises the flag; or it lowers it.
\<close>

definition rf_change :: "'a refinable \<Rightarrow> 'a rpc \<Rightarrow> 'a refinable \<Rightarrow> bool" where
  "rf_change s pc s' \<longleftrightarrow>
     (rf_same s s' \<and> rf_table s' = rf_table s \<and>
        (rf_resizing s' = rf_resizing s \<or> \<not> rf_resizing s \<or> rf_resizer pc)) \<or>
     (rf_same s s' \<and> rf_resizing s' = rf_resizing s \<and>
        (\<exists>h l. rf_entered pc = Some h \<and> GetMutex s h = Some l \<and> rf_held pc = Some l \<and>
           (\<forall>i. i \<noteq> unat h \<longrightarrow> rf_table s' ! i = rf_table s ! i))) \<or>
     (rf_resizer pc \<and> (\<forall>h. rf_swept pc h))"

definition rf_frame :: "tid \<Rightarrow> 'a refinable \<Rightarrow> 'a rpc \<Rightarrow> 'a refinable \<Rightarrow> bool" where
  "rf_frame t s pc s' \<longleftrightarrow>
     rf_initial_shift s' = rf_initial_shift s \<and>
     (\<forall>l u. u \<noteq> t \<longrightarrow> (owner_of (rf_arena s') l = Some u \<longleftrightarrow> owner_of (rf_arena s) l = Some u)) \<and>
     (\<forall>l. has_mutex (rf_arena s) l \<longrightarrow> has_mutex (rf_arena s') l) \<and>
     (\<forall>h l. GetMutex s h = Some l \<longrightarrow> GetMutex s' h = Some l) \<and>
     rf_capacity s \<le> rf_capacity s' \<and> rf_change s pc s'"

definition rf_next :: "'a refinable \<Rightarrow> 'a rpc \<Rightarrow> 'a rpc \<Rightarrow> bool" where
  "rf_next s pc pc' \<longleftrightarrow>
     (rf_resizer pc' \<longrightarrow> rf_resizer pc \<or> \<not> rf_resizing s) \<and>
     (\<forall>h. rf_entered pc' = Some h \<longrightarrow> rf_entered pc = Some h \<or> \<not> rf_resizing s) \<and>
     (\<forall>h. rf_swept pc' h \<longrightarrow> h < rf_buckets s \<longrightarrow>
        rf_swept pc h \<or> (\<exists>l. GetMutex s h = Some l \<and> owner_of (rf_arena s) l = None))"

section \<open>Threads that have entered, threads that resize\<close>

lemma entered_facts:
  assumes "rf_inv hash s" "rf_facts hash s q" "rf_entered q = Some h"
  shows "h < rf_buckets s \<and> rf_capacity s = rf_buckets s \<and> (\<exists>l. GetMutex s h = Some l \<and> rf_held q = Some l)"
proof -
  have less: "a mod c < rf_buckets s" if "c \<noteq> 0" "c \<le> rf_buckets s" for a c :: size_t
    using that by (metis less_le_trans word_mod_less_divisor word_neq_0_conv)
  show ?thesis
    using assms(2,3) less rf_invD(5) [OF assms(1)]
    by (cases q) (auto simp: rf_lockable_def rf_inside_def)
qed

lemma resizer_facts: "rf_facts hash s q \<Longrightarrow> rf_resizer q \<Longrightarrow> rf_resizing s"
  by (cases q) (simp_all add: rf_quiet_def rf_growing_def)

lemma swept_resizer: "rf_swept q h \<Longrightarrow> rf_resizer q"
  by (cases q) simp_all

lemma rf_same_facts:
  assumes "rf_same s s'" "rf_initial_shift s' = rf_initial_shift s"
  shows "rf_buckets s' = rf_buckets s" "rf_level s' = rf_level s" "rf_extra j s' = rf_extra j s"
proof -
  show b: "rf_buckets s' = rf_buckets s" and l: "rf_level s' = rf_level s"
    using assms by (simp_all add: rf_same_def rf_buckets_def rf_level_def)
  then show "rf_extra j s' = rf_extra j s" using assms by (simp add: rf_extra_def rf_same_def)
qed

text \<open>The facts of a thread only depend on the buckets it is at.\<close>

lemma rf_facts_same:
  assumes same: "rf_same s s'" and sh: "rf_initial_shift s' = rf_initial_shift s"
    and mono: "\<And>h l. GetMutex s h = Some l \<Longrightarrow> GetMutex s' h = Some l"
    and res: "rf_resizer q \<Longrightarrow> rf_resizing s' = rf_resizing s"
    and bucket: "\<And>h. rf_entered q = Some h \<Longrightarrow> rf_table s' ! unat h = rf_table s ! unat h"
    and all: "\<forall>h. rf_swept q h \<Longrightarrow> rf_table s' = rf_table s"
    and facts: "rf_facts hash s q"
  shows "rf_facts hash s' q"
proof -
  note eqs = rf_same_facts [OF same sh]
  have cap: "rf_capacity s' = rf_capacity s" "length (rf_table s') = length (rf_table s)"
    using same by (simp_all add: rf_same_def)
  show ?thesis
    using facts res bucket all mono
    by (cases q) (auto simp: rf_lockable_def rf_inside_def rf_quiet_def rf_growing_def rf_filled_def eqs cap)
qed

lemma rf_facts_stable:
  assumes inv: "rf_inv hash s" and fr: "rf_frame t s pc s'" and ut: "u \<noteq> t"
    and own: "rf_owns t s pc" and ok: "rf_owns u s q" "rf_facts hash s q"
    and pairs: "rf_pair pc q" "rf_pair q pc"
  shows "rf_facts hash s' q"
proof -
  have sh: "rf_initial_shift s' = rf_initial_shift s"
    and mono: "\<And>h l. GetMutex s h = Some l \<Longrightarrow> GetMutex s' h = Some l"
    and le: "rf_capacity s \<le> rf_capacity s'" using fr unfolding rf_frame_def by blast+
  from fr have "rf_change s pc s'" by (simp add: rf_frame_def)
  then consider
      (owners) "rf_same s s'" "rf_table s' = rf_table s"
        "rf_resizing s' = rf_resizing s \<or> \<not> rf_resizing s \<or> rf_resizer pc"
    | (bucket) h l where "rf_same s s'" "rf_resizing s' = rf_resizing s" "rf_entered pc = Some h"
        "GetMutex s h = Some l" "rf_held pc = Some l"
        "\<And>i. i \<noteq> unat h \<Longrightarrow> rf_table s' ! i = rf_table s ! i"
    | (all) "rf_resizer pc" "\<And>h. rf_swept pc h"
    unfolding rf_change_def by blast
  then show ?thesis
  proof cases
    case owners
    have "rf_resizing s' = rf_resizing s" if "rf_resizer q"
      using owners(3) that resizer_facts [OF ok(2) that] pairs(1) by (auto simp: rf_pair_def)
    with owners show ?thesis
      by (intro rf_facts_same [OF owners(1) sh mono _ _ _ ok(2)]) simp_all
  next
    case (bucket h l)
    show ?thesis
    proof (rule rf_facts_same [OF bucket(1) sh mono _ _ _ ok(2)])
      fix h' assume q: "rf_entered q = Some h'"
      from entered_facts [OF inv ok(2) q] obtain l' where
        l': "GetMutex s h' = Some l'" "rf_held q = Some l'" by blast
      have "h' \<noteq> h"
      proof
        assume "h' = h"
        with l' bucket(4) have "l' = l" by simp
        with l' bucket(5) own ok(1) have "owner_of (rf_arena s) l = Some t" "owner_of (rf_arena s) l = Some u"
          unfolding rf_owns_def by blast+
        with ut show False by simp
      qed
      with bucket(6) show "rf_table s' ! unat h' = rf_table s ! unat h'" by (simp add: word_unat_eq_iff)
    next
      assume "\<forall>h. rf_swept q h"
      with pairs(1) bucket(3) show "rf_table s' = rf_table s" by (simp add: rf_pair_def)
    qed (use bucket(2) in simp_all)
  next
    case all
    then have "rf_entered q = None" "\<not> rf_resizer q"
      using pairs by (cases "rf_entered q", auto simp: rf_pair_def)+
    with ok(2) show ?thesis
      using mono le by (cases q) (auto simp: rf_lockable_def)
  qed
qed

text \<open>What \<open>per_thread\<close> asks for the other threads.\<close>

lemma rf_others:
  assumes inv: "rf_inv hash s" and fr: "rf_frame t s pc s'" and nx: "rf_next s pc pc'" and ut: "u \<noteq> t"
    and own: "rf_ok hash t s pc" and ok: "rf_ok hash u s q" and pairs: "rf_pair pc q" "rf_pair q pc"
  shows "rf_ok hash u s' q \<and> rf_pair pc' q \<and> rf_pair q pc'"
proof -
  have owns: "rf_owns t s pc" "rf_owns u s q" and facts: "rf_facts hash s q"
    using own ok by (simp_all add: rf_ok_def)
  have "rf_owns u s' q" using owns(2) fr ut unfolding rf_owns_def rf_frame_def by blast
  moreover have "rf_facts hash s' q"
    by (rule rf_facts_stable [OF inv fr ut owns facts pairs])
  moreover have "\<not> (rf_resizer pc' \<and> rf_resizer q)"
    using nx pairs(1) resizer_facts [OF facts] by (auto simp: rf_next_def rf_pair_def)
  moreover have "\<not> rf_swept q h" if "rf_entered pc' = Some h" for h
    using nx that pairs(1) resizer_facts [OF facts] swept_resizer [of q h]
    by (auto simp: rf_next_def rf_pair_def)
  moreover have "\<not> rf_swept pc' h" if e: "rf_entered q = Some h" for h
  proof
    assume sw: "rf_swept pc' h"
    from entered_facts [OF inv facts e] obtain l where
      l: "h < rf_buckets s" "GetMutex s h = Some l" "rf_held q = Some l" by blast
    have "owner_of (rf_arena s) l = Some u" using owns(2) l(3) unfolding rf_owns_def by blast
    with nx sw l(1,2) have "rf_swept pc h" unfolding rf_next_def by fastforce
    with pairs(2) e show False by (simp add: rf_pair_def)
  qed
  ultimately show ?thesis by (auto simp: rf_ok_def rf_pair_def)
qed

end
