(* ===== verification/RefinableCorrect.thy ===== *)
theory RefinableCorrect
  imports RefinableFrame
begin

text \<open>
  The refinable set keeps the contract of the locale \<open>per_thread\<close>, step by step.
\<close>

definition rf_goes ::
    "('a \<Rightarrow> size_t) \<Rightarrow> tid \<Rightarrow> 'a refinable \<Rightarrow> 'a rpc \<Rightarrow> 'a refinable \<Rightarrow> 'a rpc \<Rightarrow> bool" where
  "rf_goes hash t s pc s' pc' \<longleftrightarrow>
     rf_inv hash s' \<and> rf_ok hash t s' pc' \<and> rf_frame t s pc s' \<and> rf_next s pc pc' \<and>
     moves (rf_elements s) (rf_set_size s) (rf_stage pc) (rf_elements s') (rf_set_size s') (rf_stage pc')"

lemma rf_okD:
  assumes "rf_ok hash t s pc"
  shows "rf_owns t s pc" "rf_facts hash s pc"
  using assms by (simp_all add: rf_ok_def)

lemma rf_ownsD:
  assumes "rf_owns t s pc"
  shows "owner_of (rf_arena s) l = Some t \<longleftrightarrow> rf_held pc = Some l"
    "rf_held pc = Some l \<Longrightarrow> has_mutex (rf_arena s) l"
  using assms unfolding rf_owns_def by blast+

lemma rf_same_refl [simp]: "rf_same s s"
  by (simp add: rf_same_def)

section \<open>Steps that leave the shared state\<close>

lemma rf_goes_stay:
  assumes "rf_inv hash s" "rf_ok hash t s pc" "rf_facts hash s pc'" "rf_held pc' = rf_held pc"
    and "rf_next s pc pc'"
    and "moves (rf_elements s) (rf_set_size s) (rf_stage pc) (rf_elements s) (rf_set_size s) (rf_stage pc')"
  shows "rf_goes hash t s pc s pc'"
  using assms by (simp add: rf_goes_def rf_ok_def rf_owns_def rf_frame_def rf_change_def)

section \<open>Mutexes\<close>

lemma GetMutex_set_owner [simp]:
  "GetMutex (s\<lparr>rf_arena := set_owner (rf_arena s) l v\<rparr>) h = GetMutex s h"
proof -
  have "set_owner (rf_arena s) l v ! b = None \<longleftrightarrow> rf_arena s ! b = None" if "b < length (rf_arena s)" for b
    using that by (cases "b = fst l"; cases "rf_arena s ! b"; simp add: set_owner_def)
  moreover have "length (set_owner (rf_arena s) l v) = length (rf_arena s)" by (simp add: set_owner_def)
  ultimately show ?thesis by (simp add: GetMutex_def Let_def cong: conj_cong)
qed

lemma has_mutex_set_owner [simp]: "has_mutex (set_owner a l v) k \<longleftrightarrow> has_mutex a k"
proof (cases "fst k < length a \<and> fst k = fst l")
  case True
  then show ?thesis by (cases "a ! fst l") (auto simp: has_mutex_def set_owner_def)
next
  case False
  then have "fst k < length a \<Longrightarrow> set_owner a l v ! fst k = a ! fst k" by (auto simp: set_owner_def)
  moreover have "length (set_owner a l v) = length a" by (simp add: set_owner_def)
  ultimately show ?thesis by (simp add: has_mutex_def cong: conj_cong)
qed

lemma rf_same_set_owner: "rf_same s (s\<lparr>rf_arena := set_owner (rf_arena s) l v\<rparr>)"
  by (simp add: rf_same_def)

lemma rf_inv_same:
  assumes "rf_inv hash s" "rf_same s s'" "rf_initial_shift s' = rf_initial_shift s"
    "table_ok hash (rf_table s')" "rf_resizing s' = rf_resizing s"
  shows "rf_inv hash s'"
proof -
  have "length (rf_table s') = length (rf_table s)" "rf_capacity s' = rf_capacity s"
    using assms(2) by (simp_all add: rf_same_def)
  then show ?thesis
    using assms(1,3,4,5) rf_same_facts [OF assms(2,3)] by (simp add: rf_inv_def)
qed

lemma rf_goes_owner:
  fixes s :: "'a refinable"
  defines "s1 \<equiv> \<lambda>l v. s\<lparr>rf_arena := set_owner (rf_arena s) l v\<rparr>"
  assumes inv: "rf_inv hash s" and has: "has_mutex (rf_arena s) l"
    and owns: "rf_owns t (s1 l v) pc'" and old: "\<And>u. u \<noteq> t \<Longrightarrow> v \<noteq> Some u \<and> owner_of (rf_arena s) l \<noteq> Some u"
    and facts: "rf_facts hash s pc'" and nx: "rf_next s pc pc'" and stage: "rf_stage pc' = rf_stage pc"
  shows "rf_goes hash t s pc (s1 l v) pc'"
proof -
  have same: "rf_same s (s1 l v)" unfolding s1_def by (rule rf_same_set_owner)
  have "rf_inv hash (s1 l v)"
    by (rule rf_inv_same [OF inv same]) (use rf_invD(1) [OF inv] in \<open>simp_all add: s1_def\<close>)
  moreover have "rf_facts hash (s1 l v) pc'"
    by (rule rf_facts_same [OF same _ _ _ _ _ facts]) (simp_all add: s1_def)
  moreover have "owner_of (rf_arena (s1 l v)) k = Some u \<longleftrightarrow> owner_of (rf_arena s) k = Some u" if "u \<noteq> t" for k u
    using owner_of_set_owner [OF has, of v] old [OF that] by (simp add: s1_def)
  then have "rf_frame t s pc (s1 l v)"
    unfolding rf_frame_def rf_change_def using same by (auto simp: s1_def)
  ultimately show ?thesis
    using owns nx stage move_stay by (simp add: rf_goes_def rf_ok_def) (simp add: s1_def rf_elements_def)
qed

lemma rf_goes_lock:
  assumes inv: "rf_inv hash s" and ok: "rf_ok hash t s pc" and idle: "rf_held pc = None"
    and has: "has_mutex (rf_arena s) l" and stp: "rf_lock t l s q = Some (s', pc')" and held: "rf_held q = Some l"
    and facts: "rf_facts hash s q" and nx: "owner_of (rf_arena s) l = None \<Longrightarrow> rf_next s pc q"
    and stage: "rf_stage q = rf_stage pc"
  shows "rf_goes hash t s pc s' pc'"
proof -
  note own = rf_ownsD [OF rf_okD(1) [OF ok]]
  have "owner_of (rf_arena s) l \<noteq> Some t" using own(1) idle by simp
  with stp arena_lock_eq [OF has this] have free: "owner_of (rf_arena s) l = None"
    and r: "s' = s\<lparr>rf_arena := set_owner (rf_arena s) l (Some t)\<rparr>" "pc' = q"
    by (auto simp: rf_lock_def split: if_splits)
  have "rf_owns t (s\<lparr>rf_arena := set_owner (rf_arena s) l (Some t)\<rparr>) q"
    unfolding rf_owns_def using owner_of_set_owner [OF has] own idle held has by auto
  from rf_goes_owner [OF inv has this _ facts nx [OF free] stage] free show ?thesis
    unfolding r by auto
qed

lemma rf_goes_unlock:
  assumes inv: "rf_inv hash s" and ok: "rf_ok hash t s pc" and held: "rf_held pc = Some l"
    and stp: "rf_unlock t l s q = Some (s', pc')" and free: "rf_held q = None"
    and facts: "rf_facts hash s q" and nx: "rf_next s pc q" and stage: "rf_stage q = rf_stage pc"
  shows "rf_goes hash t s pc s' pc'"
proof -
  note own = rf_ownsD [OF rf_okD(1) [OF ok]]
  have has: "has_mutex (rf_arena s) l" and t: "owner_of (rf_arena s) l = Some t"
    using own held by blast+
  from stp arena_unlock_eq [OF has t]
  have r: "s' = s\<lparr>rf_arena := set_owner (rf_arena s) l None\<rparr>" "pc' = q"
    by (auto simp: rf_unlock_def)
  have "rf_owns t (s\<lparr>rf_arena := set_owner (rf_arena s) l None\<rparr>) q"
    unfolding rf_owns_def using owner_of_set_owner [OF has] own held free by auto
  from rf_goes_owner [OF inv has this _ facts nx stage] t show ?thesis unfolding r by auto
qed

section \<open>The scoped lock\<close>

lemma spin_step:
  assumes inv: "rf_inv hash s" and ok: "rf_ok hash t s (RSpin x)"
    and stp: "refinable_step hash mem t s (RSpin x) = Some (s', pc')"
  shows "rf_goes hash t s (RSpin x) s' pc'"
proof -
  from stp have r: "s' = s" "pc' = (if rf_resizing s then RSpin x else RCap x)" by auto
  show ?thesis unfolding r(1)
    by (rule rf_goes_stay [OF inv ok]) (auto simp: r rf_next_def move_stay)
qed

lemma cap_step:
  assumes inv: "rf_inv hash s" and ok: "rf_ok hash t s (RCap x)"
    and stp: "refinable_step hash mem t s (RCap x) = Some (s', pc')"
  shows "rf_goes hash t s (RCap x) s' pc'"
proof -
  let ?c = "rf_capacity s" and ?h = "hash (op_elem x) mod rf_capacity s"
  have c: "?c \<noteq> 0" by (rule rf_invD(7) [OF inv])
  then have "unat ?h < unat ?c" by (simp add: unat_mod unat_gt_0)
  from capacity_mutex [OF inv this] obtain l where l: "GetMutex s ?h = Some l" by blast
  with stp c have r: "s' = s" "pc' = RLock x ?c ?h l" by (auto simp: Let_def)
  show ?thesis unfolding r(1)
    by (rule rf_goes_stay [OF inv ok]) (use l c in \<open>simp_all add: r rf_next_def rf_lockable_def move_stay\<close>)
qed

lemma rf_lock_step:
  assumes inv: "rf_inv hash s" and ok: "rf_ok hash t s (RLock x c h l)"
    and stp: "refinable_step hash mem t s (RLock x c h l) = Some (s', pc')"
  shows "rf_goes hash t s (RLock x c h l) s' pc'"
proof -
  have facts: "rf_lockable hash s x c h l" using rf_okD(2) [OF ok] by simp
  from inv obtain n where "blocks n (rf_initial_shift s) (rf_arena s)" by (rule rf_inv_blocks)
  with facts have has: "has_mutex (rf_arena s) l" using GetMutex_has [of n s h l] by (auto simp: rf_lockable_def)
  from stp have "rf_lock t l s (RCheck1 x c h l) = Some (s', pc')" by simp
  then show ?thesis
    by (rule rf_goes_lock [OF inv ok _ has, rotated]) (use facts in \<open>simp_all add: rf_next_def\<close>)
qed

lemma check1_step:
  assumes inv: "rf_inv hash s" and ok: "rf_ok hash t s (RCheck1 x c h l)"
    and stp: "refinable_step hash mem t s (RCheck1 x c h l) = Some (s', pc')"
  shows "rf_goes hash t s (RCheck1 x c h l) s' pc'"
proof -
  from stp have r: "s' = s" "pc' = (if rf_resizing s then RRetry x l else RCheck2 x c h l)" by auto
  have "\<not> rf_resizing s \<Longrightarrow> rf_capacity s = rf_buckets s" using inv by (auto simp: rf_inv_def)
  then show ?thesis unfolding r(1)
    by (intro rf_goes_stay [OF inv ok]) (use rf_okD(2) [OF ok] in \<open>auto simp: r rf_next_def move_stay\<close>)
qed

lemma check2_step:
  assumes inv: "rf_inv hash s" and ok: "rf_ok hash t s (RCheck2 x c h l)"
    and stp: "refinable_step hash mem t s (RCheck2 x c h l) = Some (s', pc')"
  shows "rf_goes hash t s (RCheck2 x c h l) s' pc'"
proof -
  from stp have r: "s' = s" "pc' = (if rf_capacity s = c then RFind x h l else RRetry x l)" by auto
  show ?thesis unfolding r(1)
    by (rule rf_goes_stay [OF inv ok])
      (use rf_okD(2) [OF ok] in \<open>auto simp: r rf_next_def rf_lockable_def rf_inside_def move_stay\<close>)
qed

lemma retry_unlock_step:
  assumes inv: "rf_inv hash s" and ok: "rf_ok hash t s (RRetry x l)"
    and stp: "refinable_step hash mem t s (RRetry x l) = Some (s', pc')"
  shows "rf_goes hash t s (RRetry x l) s' pc'"
proof -
  from stp have "rf_unlock t l s (RSpin x) = Some (s', pc')" by simp
  then show ?thesis by (rule rf_goes_unlock [OF inv ok, rotated]) (simp_all add: rf_next_def)
qed

section \<open>The critical section\<close>

lemma inside_bucket:
  assumes "rf_inv hash s" "rf_inside hash s e h l"
  shows "unat h = bucket_index hash (of_nat (length (rf_table s))) e" "unat h < length (rf_table s)"
    "e \<in> set (rf_table s ! unat h) \<longleftrightarrow> e \<in> rf_elements s"
proof -
  show h: "unat h = bucket_index hash (of_nat (length (rf_table s))) e"
    using assms(2) by (simp add: rf_inside_def rf_buckets_def bucket_index_def)
  then show "unat h < length (rf_table s)" "e \<in> set (rf_table s ! unat h) \<longleftrightarrow> e \<in> rf_elements s"
    using in_table [OF rf_invD(1) [OF assms(1)], of e] by (simp_all add: rf_elements_def)
qed

lemma rf_find_step:
  assumes inv: "rf_inv hash s" and ok: "rf_ok hash t s (RFind x h l)"
    and stp: "refinable_step hash mem t s (RFind x h l) = Some (s', pc')"
  shows "rf_goes hash t s (RFind x h l) s' pc'"
proof -
  have facts: "rf_inside hash s (op_elem x) h l" using rf_okD(2) [OF ok] by simp
  note b = inside_bucket [OF inv facts]
  from stp b(2) have r: "s' = s" "pc' = rf_found x h l (rf_table s ! unat h)" by auto
  have "moves (rf_elements s) (rf_set_size s) (rf_stage (RFind x h l))
      (rf_elements s) (rf_set_size s) (rf_stage pc')"
    using move_read [of x "rf_elements s"] move_stay b(3)
    by (cases x) (auto simp: r rf_found_def Let_def)
  moreover have "rf_facts hash s pc'" "rf_held pc' = Some l" "rf_next s (RFind x h l) pc'"
    using facts by (cases x; auto simp: r rf_found_def Let_def rf_next_def)+
  ultimately show ?thesis unfolding r(1) by (intro rf_goes_stay [OF inv ok]) simp_all
qed

lemma rf_goes_bucket:
  assumes inv: "rf_inv hash s" and ok: "rf_ok hash t s pc"
    and pc: "rf_entered pc = Some h" "rf_held pc = Some l" and ins: "rf_inside hash s e h l"
    and T: "table_ok hash T" "length T = length (rf_table s)" "\<And>j. j \<noteq> unat h \<Longrightarrow> T ! j = rf_table s ! j"
    and x: "pc' = RCount (is_add x) l" "rf_stage pc = Before x" "x \<noteq> Contains e" "op_elem x = e"
    and eff: "updates x (rf_elements s)" "contents T = snd (apply_op x (rf_elements s))"
  shows "rf_goes hash t s pc (s\<lparr>rf_table := T\<rparr>) pc'"
proof -
  let ?s = "s\<lparr>rf_table := T\<rparr>"
  have same: "rf_same s ?s" using T(2) by (simp add: rf_same_def)
  have g: "GetMutex ?s = GetMutex s" by (rule ext) (simp add: GetMutex_def)
  have "rf_inv hash ?s" by (rule rf_inv_same [OF inv same]) (use T(1) in simp_all)
  moreover have "rf_ok hash t ?s pc'"
    using rf_okD(1) [OF ok] pc(2) unfolding rf_ok_def rf_owns_def x(1) by simp
  moreover have "rf_change s pc ?s"
    using same pc ins T(3) unfolding rf_change_def rf_inside_def by auto
  then have "rf_frame t s pc ?s" unfolding rf_frame_def g by simp
  moreover have "rf_next s pc pc'" by (simp add: rf_next_def x(1))
  moreover have "moves (rf_elements s) (rf_set_size s) (Before x) (contents T) (rf_set_size s)
      (Done True (weight x))"
    by (rule move_update [OF eff])
  moreover have "weight x = (if is_add x then 1 else - 1)" using x(3,4) by (cases x) auto
  ultimately show ?thesis using x(1,2) by (simp add: rf_goes_def rf_elements_def)
qed

lemma rf_push_step:
  assumes inv: "rf_inv hash s" and ok: "rf_ok hash t s (RPush e h l)"
    and stp: "refinable_step hash mem t s (RPush e h l) = Some (s', pc')"
  shows "rf_goes hash t s (RPush e h l) s' pc'"
proof -
  have ins: "rf_inside hash s e h l" and new: "e \<notin> set (rf_table s ! unat h)"
    using rf_okD(2) [OF ok] by simp_all
  note b = inside_bucket [OF inv ins]
  have push: "table_ok hash (push_bucket (unat h) e (rf_table s))"
    "contents (push_bucket (unat h) e (rf_table s)) = insert e (rf_elements s)"
    using table_ok_push [OF rf_invD(1) [OF inv] b(1) new] by (simp_all add: rf_elements_def)
  have "e \<notin> rf_elements s" using b(3) new by simp
  then have "rf_goes hash t s (RPush e h l) (s\<lparr>rf_table := push_bucket (unat h) e (rf_table s)\<rparr>) (RCount True l)"
    by (intro rf_goes_bucket [OF inv ok _ _ ins, where x = "Add e"])
      (use push in \<open>simp_all add: push_bucket_other updates_def\<close>)
  with stp b(2) show ?thesis by simp
qed

lemma rf_erase_step:
  assumes inv: "rf_inv hash s" and ok: "rf_ok hash t s (RErase e h k l)"
    and stp: "refinable_step hash mem t s (RErase e h k l) = Some (s', pc')"
  shows "rf_goes hash t s (RErase e h k l) s' pc'"
proof -
  have ins: "rf_inside hash s e h l" and old: "e \<in> set (rf_table s ! unat h)"
    and k: "k = ranges_find e (rf_table s ! unat h)"
    using rf_okD(2) [OF ok] by auto
  note b = inside_bucket [OF inv ins]
  have less: "k < length (rf_table s ! unat h)" using old k ranges_find_less by metis
  have erase: "table_ok hash (erase_bucket (unat h) k (rf_table s))"
    "contents (erase_bucket (unat h) k (rf_table s)) = rf_elements s - {e}"
    using table_ok_erase [OF rf_invD(1) [OF inv] b(1) k] by (simp_all add: rf_elements_def)
  have "e \<in> rf_elements s" using b(3) old by simp
  then have "rf_goes hash t s (RErase e h k l) (s\<lparr>rf_table := erase_bucket (unat h) k (rf_table s)\<rparr>)
      (RCount False l)"
    by (intro rf_goes_bucket [OF inv ok _ _ ins, where x = "Remove e"])
      (use erase in \<open>simp_all add: erase_bucket_other updates_def\<close>)
  with stp b(2) less show ?thesis by simp
qed

lemma rf_count_step:
  assumes inv: "rf_inv hash s" and ok: "rf_ok hash t s (RCount a l)"
    and stp: "refinable_step hash mem t s (RCount a l) = Some (s', pc')"
  shows "rf_goes hash t s (RCount a l) s' pc'"
proof -
  let ?n = "if a then rf_set_size s + 1 else rf_set_size s - 1"
  let ?s = "s\<lparr>rf_set_size := ?n\<rparr>"
  from stp have r: "s' = ?s" "pc' = RUnlock a True l" by simp_all
  have same: "rf_same s ?s" by (simp add: rf_same_def)
  have g: "GetMutex ?s = GetMutex s" by (rule ext) (simp add: GetMutex_def)
  have "rf_inv hash ?s" by (rule rf_inv_same [OF inv same]) (use rf_invD(1) [OF inv] in simp_all)
  moreover have "rf_ok hash t ?s pc'"
    using rf_okD(1) [OF ok] unfolding rf_ok_def rf_owns_def r(2) by simp
  moreover have "rf_frame t s (RCount a l) ?s" unfolding rf_frame_def g using same by (simp add: rf_change_def)
  moreover have "rf_next s (RCount a l) pc'" by (simp add: rf_next_def r(2))
  moreover have "moves (rf_elements s) (rf_set_size s) (rf_stage (RCount a l)) (rf_elements s) ?n (Done True 0)"
    unfolding rf_stage.simps by (rule move_count) simp
  ultimately show ?thesis by (simp add: r rf_goes_def rf_elements_def)
qed

lemma rf_unlock_step:
  assumes inv: "rf_inv hash s" and ok: "rf_ok hash t s (RUnlock a r l)"
    and stp: "refinable_step hash mem t s (RUnlock a r l) = Some (s', pc')"
  shows "rf_goes hash t s (RUnlock a r l) s' pc'"
proof -
  from stp have "rf_unlock t l s (if a \<and> r then RPolicyCap else RRet r) = Some (s', pc')" by simp
  then show ?thesis by (rule rf_goes_unlock [OF inv ok, rotated]) (simp_all add: rf_next_def)
qed

section \<open>Resizing\<close>

lemma rf_policy_steps:
  assumes inv: "rf_inv hash s" and ok: "rf_ok hash t s pc"
    and stp: "refinable_step hash mem t s pc = Some (s', pc')"
    and pc: "pc = RPolicyCap \<or> (\<exists>c. pc = RPolicySize c) \<or> pc = RRecheckCap \<or> (\<exists>c. pc = RRecheckSize c) \<or>
      pc = ROldCap"
  shows "rf_goes hash t s pc s' pc'"
proof -
  have "s' = s" "rf_stage pc' = Done True 0" "rf_stage pc = Done True 0" "rf_held pc' = rf_held pc"
    "rf_next s pc pc'"
    using pc stp by (auto simp: rf_next_def split: if_splits)
  moreover have "rf_facts hash s pc'"
    using pc stp rf_okD(2) [OF ok] by (auto simp: rf_quiet_def split: if_splits)
  ultimately show ?thesis using rf_goes_stay [OF inv ok] by (simp add: move_stay)
qed

text \<open>The flag goes up, and comes down.\<close>

lemma rf_goes_flag:
  fixes s :: "'a refinable"
  defines "s1 \<equiv> \<lambda>f. s\<lparr>rf_resizing := f\<rparr>"
  assumes inv: "rf_inv hash s" and ok: "rf_ok hash t s pc" and inv': "rf_inv hash (s1 f)"
    and facts: "rf_facts hash (s1 f) pc'" and held: "rf_held pc = None" "rf_held pc' = None"
    and nx: "rf_next s pc pc'" and stage: "rf_stage pc' = rf_stage pc"
    and ch: "f = rf_resizing s \<or> \<not> rf_resizing s \<or> rf_resizer pc"
  shows "rf_goes hash t s pc (s1 f) pc'"
proof -
  have same: "rf_same s (s1 f)" by (simp add: rf_same_def s1_def)
  have g: "GetMutex (s1 f) = GetMutex s" by (rule ext) (simp add: GetMutex_def s1_def)
  have "rf_change s pc (s1 f)" using same ch by (auto simp: rf_change_def s1_def)
  then have "rf_frame t s pc (s1 f)" unfolding rf_frame_def g by (simp add: s1_def)
  moreover have "rf_owns t (s1 f) pc'"
    using rf_okD(1) [OF ok] held by (simp add: rf_owns_def s1_def)
  ultimately show ?thesis
    using inv' facts nx stage move_stay by (simp add: rf_goes_def rf_ok_def) (simp add: s1_def rf_elements_def)
qed

lemma exchange_step:
  assumes inv: "rf_inv hash s" and ok: "rf_ok hash t s RExchange"
    and stp: "refinable_step hash mem t s RExchange = Some (s', pc')"
  shows "rf_goes hash t s RExchange s' pc'"
proof -
  let ?s = "s\<lparr>rf_resizing := True\<rparr>"
  from stp have r: "s' = ?s" "pc' = (if rf_resizing s then RRet True else RRecheckCap)" by auto
  have same: "rf_same s ?s" by (simp add: rf_same_def)
  note eqs = rf_same_facts [OF same]
  have "rf_inv hash ?s" using inv eqs by (auto simp: rf_inv_def)
  moreover have "rf_facts hash ?s pc'"
    using inv eqs by (auto simp: r rf_quiet_def rf_inv_def)
  ultimately show ?thesis unfolding r(1)
    by (intro rf_goes_flag [OF inv ok]) (auto simp: r rf_next_def)
qed

lemma reopen_step:
  assumes inv: "rf_inv hash s" and ok: "rf_ok hash t s RReopen"
    and stp: "refinable_step hash mem t s RReopen = Some (s', pc')"
  shows "rf_goes hash t s RReopen s' pc'"
proof -
  let ?s = "s\<lparr>rf_resizing := False\<rparr>"
  from stp have r: "s' = ?s" "pc' = RRet True" by auto
  have same: "rf_same s ?s" by (simp add: rf_same_def)
  have "rf_quiet s" using rf_okD(2) [OF ok] by simp
  then have "rf_inv hash ?s" using inv rf_same_facts [OF same] by (simp add: rf_inv_def rf_quiet_def)
  then show ?thesis unfolding r(1)
    by (intro rf_goes_flag [OF inv ok]) (auto simp: r rf_next_def)
qed

lemma quiesce_step:
  assumes inv: "rf_inv hash s" and ok: "rf_ok hash t s (RQuiesce c i)"
    and stp: "refinable_step hash mem t s (RQuiesce c i) = Some (s', pc')"
  shows "rf_goes hash t s (RQuiesce c i) s' pc'"
proof -
  have q: "rf_quiet s" "c = rf_buckets s" "i \<le> c" using rf_okD(2) [OF ok] by auto
  show ?thesis
  proof (cases "i < c")
    case True
    then have "unat i < unat (rf_capacity s)" using q by (simp add: rf_quiet_def word_less_nat_alt)
    from capacity_mutex [OF inv this] obtain l where l: "GetMutex s i = Some l" by blast
    from inv obtain n where "blocks n (rf_initial_shift s) (rf_arena s)" by (rule rf_inv_blocks)
    from GetMutex_has [OF this l] have has: "has_mutex (rf_arena s) l" .
    have "rf_lock t l s (RRelease c i l) = Some (s', pc')" using stp True l by simp
    moreover have "rf_next s (RQuiesce c i) (RRelease c i l)" if "owner_of (rf_arena s) l = None"
      unfolding rf_next_def using that l by (auto simp: order_le_less simp del: split_paired_Ex)
    ultimately show ?thesis
      by (intro rf_goes_lock [OF inv ok _ has, where q = "RRelease c i l"]) (use q True in simp_all)
  next
    case False
    with stp have r: "s' = s" "pc' = REnlarge c" by auto
    have "rf_next s (RQuiesce c i) (REnlarge c)" using False q(2,3) by (auto simp: rf_next_def)
    then show ?thesis unfolding r(1)
      by (intro rf_goes_stay [OF inv ok]) (use q in \<open>simp_all add: r move_stay\<close>)
  qed
qed

lemma release_step:
  assumes inv: "rf_inv hash s" and ok: "rf_ok hash t s (RRelease c i l)"
    and stp: "refinable_step hash mem t s (RRelease c i l) = Some (s', pc')"
  shows "rf_goes hash t s (RRelease c i l) s' pc'"
proof -
  have q: "rf_quiet s" "c = rf_buckets s" "i < c" using rf_okD(2) [OF ok] by auto
  have "unat i + 1 < 2 ^ 64" using q(3) unat_size_less [of c] by (simp add: word_less_nat_alt)
  then have "unat (i + 1) = unat i + 1" by (simp add: unat_word_ariths)
  then have i: "i + 1 \<le> c" "\<And>h. h < i + 1 \<longleftrightarrow> h \<le> i"
    using q(3) by (simp_all add: word_le_nat_alt word_less_nat_alt less_Suc_eq_le)
  from stp have "rf_unlock t l s (RQuiesce c (i + 1)) = Some (s', pc')" by simp
  then show ?thesis
    by (rule rf_goes_unlock [OF inv ok, rotated]) (use q i in \<open>simp_all add: rf_next_def\<close>)
qed

text \<open>The steps behind the sweep.\<close>

lemma rf_goes_swept:
  assumes inv: "rf_inv hash s" and ok: "rf_ok hash t s pc" and res: "rf_resizer pc" "\<And>h. rf_swept pc h"
    and inv': "rf_inv hash s'" and facts: "rf_facts hash s' pc'" and held: "rf_held pc = None" "rf_held pc' = None"
    and sh: "rf_initial_shift s' = rf_initial_shift s" and own: "owner_of (rf_arena s') = owner_of (rf_arena s)"
    and has: "\<And>l. has_mutex (rf_arena s) l \<Longrightarrow> has_mutex (rf_arena s') l"
    and get: "\<And>h l. GetMutex s h = Some l \<Longrightarrow> GetMutex s' h = Some l" and cap: "rf_capacity s \<le> rf_capacity s'"
    and stage: "rf_stage pc = Done True 0" "rf_stage pc' = Done True 0" "rf_entered pc' = None"
    and el: "rf_elements s' = rf_elements s" "rf_set_size s' = rf_set_size s"
  shows "rf_goes hash t s pc s' pc'"
proof -
  have "rf_frame t s pc s'"
    unfolding rf_frame_def rf_change_def using sh own has get cap res by auto
  moreover have "rf_owns t s' pc'" using rf_okD(1) [OF ok] held unfolding rf_owns_def own by simp
  moreover have "rf_next s pc pc'" using res stage(3) by (simp add: rf_next_def)
  ultimately show ?thesis
    using inv' facts stage(1,2) el by (simp add: rf_goes_def rf_ok_def move_stay)
qed

lemma bucket_block:
  assumes "rf_inv hash s"
  shows "BlockIndex (rf_initial_shift s) (rf_buckets s) = rf_level s + 1"
    "rf_level s + 1 < kMaxBlocks" "block_shift (rf_initial_shift s) (rf_level s + 1) < 64"
proof -
  note D = rf_invD [OF assms]
  have "unat (rf_buckets s) = 2 ^ (rf_initial_shift s + rf_level s)" using D(2,4) by simp
  with block_later(1) [of "rf_initial_shift s" "rf_level s" "rf_buckets s"] D(3)
  show "BlockIndex (rf_initial_shift s) (rf_buckets s) = rf_level s + 1" by simp
  show "rf_level s + 1 < kMaxBlocks" "block_shift (rf_initial_shift s) (rf_level s + 1) < 64"
    using D(3) by (simp_all add: kMaxBlocks_def block_shift_def)
qed

lemma enlarge_step:
  assumes inv: "rf_inv hash s" and ok: "rf_ok hash t s (REnlarge c)"
    and stp: "refinable_step hash mem t s (REnlarge c) = Some (s', pc')"
  shows "rf_goes hash t s (REnlarge c) s' pc'"
proof -
  let ?sh = "rf_initial_shift s"
  have q: "rf_quiet s" "c = rf_buckets s" using rf_okD(2) [OF ok] by simp_all
  note bb = bucket_block [OF inv] and D = rf_invD [OF inv]
  have bl: "blocks (rf_level s + 1) ?sh (rf_arena s)" using q(1) by (simp add: rf_quiet_def rf_extra_def)
  from EnlargeMutexArena_cases [OF bl bb(2,3), of mem] show ?thesis
  proof
    assume "EnlargeMutexArena mem ?sh (rf_level s + 1) (rf_arena s) = Some (Inl Bad_alloc)"
    with stp q(2) bb(1) have r: "s' = s" "pc' = RThrown Bad_alloc" by auto
    show ?thesis unfolding r(1)
      by (rule rf_goes_stay [OF inv ok])
        (use q in \<open>simp_all add: r rf_quiet_def rf_next_def move_stay\<close>)
  next
    assume "\<exists>a'. EnlargeMutexArena mem ?sh (rf_level s + 1) (rf_arena s) = Some (Inr a')"
    then obtain a' where a': "EnlargeMutexArena mem ?sh (rf_level s + 1) (rf_arena s) = Some (Inr a')" by blast
    let ?s = "s\<lparr>rf_arena := a'\<rparr>"
    from stp a' q(2) bb(1) have r: "s' = ?s" "pc' = RNewTable (2 * c)" by auto
    note en = blocks_enlarge [OF bl bb(2,3) a']
    have lv: "rf_level ?s = rf_level s" "rf_buckets ?s = rf_buckets s"
      by (simp_all add: rf_level_def rf_buckets_def)
    have ex: "rf_extra 2 ?s" using en(1) by (simp add: rf_extra_def lv)
    have inv': "rf_inv hash ?s"
      using D(1,2) q(1) ex by (simp add: rf_inv_def lv rf_quiet_def)
    have a'_eq: "a' = (rf_arena s)[rf_level s + 1 := Some (replicate (unat (BlockSize ?sh (rf_level s + 1))) None)]"
      and none: "rf_arena s ! (rf_level s + 1) = None"
      using a' by (auto simp: EnlargeMutexArena_def split: if_splits)
    have has: "has_mutex a' l" if "has_mutex (rf_arena s) l" for l
      using that none by (cases "fst l = rf_level s + 1") (auto simp: a'_eq has_mutex_def)
    have get: "GetMutex ?s h = Some l" if "GetMutex s h = Some l" for h l
      by (rule GetMutex_mono [OF that _ bl, where n' = "Suc (rf_level s + 1)"]) (use en(1) in simp_all)
    show ?thesis unfolding r
      by (rule rf_goes_swept [OF inv ok])
        (use q ex inv' en(2) has get in \<open>auto simp: rf_growing_def rf_quiet_def lv rf_elements_def\<close>)
  qed
qed

lemma rf_new_table_step:
  assumes inv: "rf_inv hash s" and ok: "rf_ok hash t s (RNewTable c)"
    and stp: "refinable_step hash mem t s (RNewTable c) = Some (s', pc')"
  shows "rf_goes hash t s (RNewTable c) s' pc'"
proof -
  have q: "rf_growing s" "c = 2 * rf_buckets s" using rf_okD(2) [OF ok] by simp_all
  have c: "c \<noteq> 0" using double_length(2) [OF rf_invD(1) [OF inv]] by (simp add: q(2) rf_buckets_def)
  have r: "s' = s" "pc' = (if vec_max < unat c then RThrown Length_error
      else if mem < unat c then RThrown Bad_alloc else RMove c 0 (replicate (unat c) []))"
    using stp c by auto
  show ?thesis unfolding r(1)
    by (rule rf_goes_stay [OF inv ok])
      (use q buckets_ok_empty [of hash c] in
        \<open>auto simp: r rf_growing_def rf_filled_def rf_next_def move_stay contents_def\<close>)
qed

lemma rf_move_step:
  assumes inv: "rf_inv hash s" and ok: "rf_ok hash t s (RMove c k nt)"
    and stp: "refinable_step hash mem t s (RMove c k nt) = Some (s', pc')"
  shows "rf_goes hash t s (RMove c k nt) s' pc'"
proof -
  have q: "rf_growing s" and F: "c = 2 * rf_buckets s" "unat c \<le> vec_max" "k \<le> length (rf_table s)"
    "buckets_ok hash c nt" "contents nt = contents (take k (rf_table s))"
    using rf_okD(2) [OF ok] by (auto simp: rf_filled_def)
  have c: "c \<noteq> 0" using double_length(2) [OF rf_invD(1) [OF inv]] by (simp add: F(1) rf_buckets_def)
  from stp have r: "s' = s" "pc' = (if k < length (rf_table s)
      then RMove c (k + 1) (move_bucket hash c (rf_table s ! k) nt) else RStoreCap c nt)" by auto
  have "rf_facts hash s pc'"
    using q F move_one [OF table_okD(1) [OF rf_invD(1) [OF inv]] _ F(4) c F(5)]
    by (auto simp: r rf_filled_def)
  then show ?thesis unfolding r(1)
    by (intro rf_goes_stay [OF inv ok]) (auto simp: r rf_next_def move_stay)
qed

lemma store_cap_step:
  assumes inv: "rf_inv hash s" and ok: "rf_ok hash t s (RStoreCap c nt)"
    and stp: "refinable_step hash mem t s (RStoreCap c nt) = Some (s', pc')"
  shows "rf_goes hash t s (RStoreCap c nt) s' pc'"
proof -
  let ?s = "s\<lparr>rf_capacity := c\<rparr>"
  have q: "rf_growing s" and F: "rf_filled hash s c (length (rf_table s)) nt"
    using rf_okD(2) [OF ok] by simp_all
  note D = rf_invD [OF inv]
  from stp have r: "s' = ?s" "pc' = RStoreTable nt" by simp_all
  have lv: "rf_level (s\<lparr>rf_capacity := x\<rparr>) = rf_level s" "rf_buckets (s\<lparr>rf_capacity := x\<rparr>) = rf_buckets s"
    "rf_extra j (s\<lparr>rf_capacity := x\<rparr>) = rf_extra j s" for j x
    by (simp_all add: rf_level_def rf_buckets_def rf_extra_def)
  have c: "c = 2 * rf_buckets s" using F by (simp add: rf_filled_def)
  have "rf_capacity s \<le> c"
    using q D(4,6) by (simp add: c rf_growing_def word_le_nat_alt)
  moreover have "rf_inv hash ?s" using D(1,2) q by (simp add: rf_inv_def lv rf_growing_def c)
  moreover have "rf_facts hash ?s pc'"
    using q F by (simp add: r lv rf_growing_def c rf_filled_def)
  moreover have "GetMutex ?s = GetMutex s" by (rule ext) (simp add: GetMutex_def)
  ultimately show ?thesis unfolding r
    by (intro rf_goes_swept [OF inv ok]) (auto simp: rf_elements_def)
qed

lemma store_table_step:
  assumes inv: "rf_inv hash s" and ok: "rf_ok hash t s (RStoreTable nt)"
    and stp: "refinable_step hash mem t s (RStoreTable nt) = Some (s', pc')"
  shows "rf_goes hash t s (RStoreTable nt) s' pc'"
proof -
  let ?s = "s\<lparr>rf_table := nt\<rparr>"
  have q: "rf_resizing s" "rf_capacity s = 2 * rf_buckets s" "rf_extra 2 s"
    and F: "rf_filled hash s (2 * rf_buckets s) (length (rf_table s)) nt"
    using rf_okD(2) [OF ok] by simp_all
  note D = rf_invD [OF inv]
  from stp have r: "s' = ?s" "pc' = RReopen" by simp_all
  have c: "2 * rf_buckets s \<noteq> 0" using double_length(2) [OF D(1)] by (simp add: rf_buckets_def)
  have len: "length nt = 2 * length (rf_table s)" using F D(6) by (simp add: rf_filled_def buckets_ok_def)
  then have lv: "rf_level ?s = rf_level s + 1"
    using D(2) by (intro level_eq) simp
  have b: "rf_buckets ?s = 2 * rf_buckets s" by (simp add: rf_buckets_def len)
  have ex: "rf_extra 1 ?s" using q(3) by (simp add: rf_extra_def lv)
  have "table_ok hash nt" using F c by (intro table_ok_of) (auto simp: rf_filled_def)
  then have "rf_inv hash ?s" using q ex D(2) len lv b by (simp add: rf_inv_def)
  moreover have "rf_facts hash ?s pc'" using q ex b by (simp add: r rf_quiet_def)
  moreover have "GetMutex ?s = GetMutex s" by (rule ext) (simp add: GetMutex_def)
  moreover have "contents nt = rf_elements s" using F by (simp add: rf_filled_def rf_elements_def)
  ultimately show ?thesis unfolding r
    by (intro rf_goes_swept [OF inv ok]) (simp_all add: rf_elements_def)
qed

section \<open>The contract\<close>

lemma refinable_goes:
  assumes "rf_inv hash s" "rf_ok hash t s pc" "refinable_step hash mem t s pc = Some (s', pc')"
  shows "rf_goes hash t s pc s' pc'"
proof (cases pc)
  case (RSpin x)
  show ?thesis unfolding RSpin by (rule spin_step) (use assms in \<open>simp_all only: RSpin\<close>)
next
  case (RCap x)
  show ?thesis unfolding RCap by (rule cap_step) (use assms in \<open>simp_all only: RCap\<close>)
next
  case (RLock x c h l)
  show ?thesis unfolding RLock by (rule rf_lock_step) (use assms in \<open>simp_all only: RLock\<close>)
next
  case (RCheck1 x c h l)
  show ?thesis unfolding RCheck1 by (rule check1_step) (use assms in \<open>simp_all only: RCheck1\<close>)
next
  case (RCheck2 x c h l)
  show ?thesis unfolding RCheck2 by (rule check2_step) (use assms in \<open>simp_all only: RCheck2\<close>)
next
  case (RRetry x l)
  show ?thesis unfolding RRetry by (rule retry_unlock_step) (use assms in \<open>simp_all only: RRetry\<close>)
next
  case (RFind x h l)
  show ?thesis unfolding RFind by (rule rf_find_step) (use assms in \<open>simp_all only: RFind\<close>)
next
  case (RPush e h l)
  show ?thesis unfolding RPush by (rule rf_push_step) (use assms in \<open>simp_all only: RPush\<close>)
next
  case (RErase e h k l)
  show ?thesis unfolding RErase by (rule rf_erase_step) (use assms in \<open>simp_all only: RErase\<close>)
next
  case (RCount a l)
  show ?thesis unfolding RCount by (rule rf_count_step) (use assms in \<open>simp_all only: RCount\<close>)
next
  case (RUnlock a r l)
  show ?thesis unfolding RUnlock by (rule rf_unlock_step) (use assms in \<open>simp_all only: RUnlock\<close>)
next
  case RExchange
  show ?thesis unfolding RExchange by (rule exchange_step) (use assms in \<open>simp_all only: RExchange\<close>)
next
  case (RQuiesce c i)
  show ?thesis unfolding RQuiesce by (rule quiesce_step) (use assms in \<open>simp_all only: RQuiesce\<close>)
next
  case (RRelease c i l)
  show ?thesis unfolding RRelease by (rule release_step) (use assms in \<open>simp_all only: RRelease\<close>)
next
  case (REnlarge c)
  show ?thesis unfolding REnlarge by (rule enlarge_step) (use assms in \<open>simp_all only: REnlarge\<close>)
next
  case (RNewTable c)
  show ?thesis unfolding RNewTable by (rule rf_new_table_step) (use assms in \<open>simp_all only: RNewTable\<close>)
next
  case (RMove c k nt)
  show ?thesis unfolding RMove by (rule rf_move_step) (use assms in \<open>simp_all only: RMove\<close>)
next
  case (RStoreCap c nt)
  show ?thesis unfolding RStoreCap by (rule store_cap_step) (use assms in \<open>simp_all only: RStoreCap\<close>)
next
  case (RStoreTable nt)
  show ?thesis unfolding RStoreTable by (rule store_table_step) (use assms in \<open>simp_all only: RStoreTable\<close>)
next
  case RReopen
  show ?thesis unfolding RReopen by (rule reopen_step) (use assms in \<open>simp_all only: RReopen\<close>)
next
  case RPolicyCap
  show ?thesis by (rule rf_policy_steps [OF assms]) (simp add: RPolicyCap)
next
  case (RPolicySize c)
  show ?thesis by (rule rf_policy_steps [OF assms]) (simp add: RPolicySize)
next
  case RRecheckCap
  show ?thesis by (rule rf_policy_steps [OF assms]) (simp add: RRecheckCap)
next
  case (RRecheckSize c)
  show ?thesis by (rule rf_policy_steps [OF assms]) (simp add: RRecheckSize)
next
  case ROldCap
  show ?thesis by (rule rf_policy_steps [OF assms]) (simp add: ROldCap)
qed (use assms(3) in simp_all)

definition rf_start :: "('a \<Rightarrow> size_t) \<Rightarrow> 'a refinable \<Rightarrow> bool" where
  "rf_start hash s \<longleftrightarrow>
     rf_inv hash s \<and> rf_elements s = {} \<and> rf_set_size s = 0 \<and> \<not> rf_resizing s \<and>
     (\<forall>l t. owner_of (rf_arena s) l \<noteq> Some t)"

lemma construct_refinable_start:
  assumes "construct_refinable mem c = Some (Inr s)"
  shows "rf_start hash s"
proof -
  from assms obtain sh arena where v: "ValidatedShift c = Inr sh" and le: "unat c \<le> vec_max"
    and a: "EnlargeMutexArena mem sh 0 (replicate kMaxBlocks None) = Some (Inr arena)"
    and s: "s = \<lparr>rf_arena = arena, rf_initial_shift = sh, rf_table = replicate (unat c) [],
      rf_capacity = c, rf_resizing = False, rf_set_size = 0\<rparr>"
    by (auto simp: construct_refinable_def split: sum.splits if_splits option.splits)
  from v have c: "1 \<le> sh" "sh < 64" "unat c = 2 ^ sh" by (simp_all add: ValidatedShift_cases)
  have empty: "blocks 0 sh (replicate kMaxBlocks None)" by (simp add: blocks_def)
  have kb: "0 < kMaxBlocks" "block_shift sh 0 < 64" using c(2) by (simp_all add: kMaxBlocks_def block_shift_def)
  note en = blocks_enlarge [OF empty kb a]
  have lv: "rf_level s = 0" by (rule level_eq) (simp add: s c(3))
  have "rf_buckets s = c" by (simp add: rf_buckets_def s)
  moreover have "c \<noteq> 0" using c(3) by auto
  ultimately have "rf_inv hash s"
    using table_ok_new [OF _ le] en(1) c(3)
    by (simp add: rf_inv_def rf_extra_def lv) (simp add: s)
  moreover have "owner_of (rf_arena s) l \<noteq> Some t" for l t
    using en(2) by (auto simp: s owner_of_def split: prod.splits option.splits)
  ultimately show ?thesis by (simp add: rf_start_def) (simp add: s rf_elements_def)
qed

interpretation rf: per_thread "refinable_program hash mem" "rf_start hash" "rf_inv hash" "rf_ok hash" rf_pair
  rf_elements rf_set_size rf_stage for hash mem
proof unfold_locales
  fix s s' :: "'a refinable" and pc pc' q :: "'a rpc" and t u and x :: "'a op" and r
  show "rf_inv hash s \<and> rf_elements s = {} \<and> rf_set_size s = 0 \<and>
      rf_ok hash t s (p_idle (refinable_program hash mem))" if "rf_start hash s"
    using that by (simp add: rf_start_def rf_ok_def rf_owns_def refinable_program_def)
  show "rf_pair (p_idle (refinable_program hash mem)) q" "rf_pair q (p_idle (refinable_program hash mem))"
    "rf_pair (p_start (refinable_program hash mem) x) q" "rf_pair q (p_start (refinable_program hash mem) x)"
    by (simp_all add: rf_pair_def refinable_program_def)
  show "rf_ok hash t s (p_start (refinable_program hash mem) x)"
    if "rf_ok hash t s (p_idle (refinable_program hash mem))"
    using that by (simp add: rf_ok_def rf_owns_def refinable_program_def)
  show "rf_stage pc = Done r 0 \<and> (rf_ok hash t s pc \<longrightarrow> rf_ok hash t s (p_idle (refinable_program hash mem)))"
    if "p_result (refinable_program hash mem) pc = Some r"
    using that by (cases pc) (auto simp: refinable_program_def rf_ok_def rf_owns_def)
  show "rf_stage pc \<noteq> Broken" if "rf_ok hash t s pc"
    using that by (cases pc) (auto simp: rf_ok_def)
  assume inv: "rf_inv hash s" and ok: "rf_ok hash t s pc"
    and "p_step (refinable_program hash mem) t s pc = Some (s', pc')"
  then have go: "rf_goes hash t s pc s' pc'"
    using refinable_goes by (simp add: refinable_program_def)
  then show "rf_inv hash s' \<and> rf_ok hash t s' pc' \<and>
      moves (rf_elements s) (rf_set_size s) (rf_stage pc) (rf_elements s') (rf_set_size s') (rf_stage pc')"
    by (simp add: rf_goes_def)
  show "rf_ok hash u s' q \<and> rf_pair pc' q \<and> rf_pair q pc'"
    if "u \<noteq> t" "rf_ok hash u s q" "rf_pair pc q" "rf_pair q pc"
    using rf_others [OF inv _ _ that(1) ok that(2-4)] go unfolding rf_goes_def by blast
qed (simp_all add: rf_elements_def refinable_program_def)

end
