(* ===== verification/RefinableProps.thy ===== *)
theory RefinableProps
  imports RefinableCorrect
begin

text \<open>
  The properties of the refinable set: it is linearizable, its mutexes and its flag keep threads apart,
  each bucket has a mutex of its own, it does not deadlock as long as no resize throws, and what an
  exception in a resize does to it.
\<close>

lemma rf_reach:
  assumes "construct_refinable mem0 c = Some (Inr s0)"
    and "sys_run (refinable_program hash mem) (sys_init (refinable_program hash mem) s0) h s"
  shows "rf_inv hash (shared s)" "rf_ok hash t (shared s) (pcs s t)"
    "t \<noteq> u \<Longrightarrow> rf_pair (pcs s t) (pcs s u)"
  by (rule rf.reachable [OF construct_refinable_start [OF assms(1)] assms(2)]; assumption)+

text \<open>The bucket a thread reads or writes, and the thread that replaces the table.\<close>

fun rf_bucket :: "'a rpc \<Rightarrow> size_t option" where
  "rf_bucket (RFind x h l) = Some h"
| "rf_bucket (RPush e h l) = Some h"
| "rf_bucket (RErase e h k l) = Some h"
| "rf_bucket pc = None"

fun rf_replacing :: "'a rpc \<Rightarrow> bool" where
  "rf_replacing (RMove c k nt) = True"
| "rf_replacing (RStoreCap c nt) = True"
| "rf_replacing (RStoreTable nt) = True"
| "rf_replacing pc = False"

lemma rf_bucket_entered: "rf_bucket pc = Some h \<Longrightarrow> rf_entered pc = Some h"
  by (cases pc) auto

lemma rf_replacing_swept: "rf_replacing pc \<Longrightarrow> rf_swept pc h \<and> rf_resizer pc"
  by (cases pc) auto

section \<open>Progress\<close>

fun rf_finished :: "'a rpc \<Rightarrow> bool" where
  "rf_finished RIdle = True"
| "rf_finished (RRet r) = True"
| "rf_finished pc = False"

fun rf_thrown :: "'a rpc \<Rightarrow> bool" where
  "rf_thrown (RThrown ex) = True"
| "rf_thrown pc = False"

text \<open>A step with an effect: the thread's program counter changes.\<close>

definition rf_advances :: "('a \<Rightarrow> size_t) \<Rightarrow> nat \<Rightarrow> tid \<Rightarrow> ('a refinable, 'a rpc) sys \<Rightarrow> bool" where
  "rf_advances hash mem t s \<longleftrightarrow>
     (\<exists>sh pc. refinable_step hash mem t (shared s) (pcs s t) = Some (sh, pc) \<and> pc \<noteq> pcs s t)"

lemma rf_lock_None:
  "rf_lock t l s q = None \<Longrightarrow> has_mutex (rf_arena s) l \<Longrightarrow> \<exists>u. owner_of (rf_arena s) l = Some u"
  by (auto simp: rf_lock_def arena_lock_def mutex_lock_def has_mutex_def owner_of_def
      split: option.splits prod.splits if_splits)

lemma rf_lock_pc: "rf_lock t l s q = Some (s', pc) \<Longrightarrow> pc = q \<or> pc = RUndef"
  by (auto simp: rf_lock_def split: option.splits)

lemma rf_unlock_pc: "\<exists>s' pc. rf_unlock t l s q = Some (s', pc) \<and> (pc = q \<or> pc = RUndef)"
  by (auto simp: rf_unlock_def split: option.splits)

text \<open>A thread that holds a mutex never waits for another one.\<close>

lemma holder_advances:
  assumes "rf_held (pcs s t) = Some l"
  shows "rf_advances hash mem t s"
proof (cases "pcs s t")
  case (RRetry x l)
  with rf_unlock_pc [of t l "shared s" "RSpin x"] show ?thesis by (auto simp: rf_advances_def)
next
  case (RUnlock a r l)
  with rf_unlock_pc [of t l "shared s" "if a \<and> r then RPolicyCap else RRet r"] show ?thesis
    by (auto simp: rf_advances_def)
next
  case (RRelease c i l)
  with rf_unlock_pc [of t l "shared s" "RQuiesce c (i + 1)"] show ?thesis by (auto simp: rf_advances_def)
next
  case (RFind x h l)
  then show ?thesis by (cases x) (auto simp: rf_advances_def rf_found_def Let_def)
qed (use assms in \<open>auto simp: rf_advances_def\<close>)

text \<open>A thread that cannot advance spins, or waits for a mutex of another thread, or has thrown.\<close>

lemma stuck_cases:
  assumes inv: "rf_inv hash (shared s)" and ok: "rf_ok hash t (shared s) (pcs s t)"
    and unfinished: "\<not> rf_finished (pcs s t)" and stuck: "\<not> rf_advances hash mem t s"
  obtains (spins) x where "pcs s t = RSpin x" "rf_resizing (shared s)"
    | (waits) l u where "owner_of (rf_arena (shared s)) l = Some u"
    | (threw) "rf_thrown (pcs s t)"
proof (cases "pcs s t")
  case (RSpin x)
  with stuck spins show thesis by (auto simp: rf_advances_def split: if_splits)
next
  case (RCap x)
  with stuck show thesis by (auto simp: rf_advances_def Let_def split: option.splits if_splits)
next
  case (RLock x c h l)
  from inv obtain n where "blocks n (rf_initial_shift (shared s)) (rf_arena (shared s))" by (rule rf_inv_blocks)
  moreover have "GetMutex (shared s) h = Some l" using rf_okD(2) [OF ok] RLock by (auto simp: rf_lockable_def)
  ultimately have has: "has_mutex (rf_arena (shared s)) l" by (rule GetMutex_has)
  show thesis
  proof (cases "rf_lock t l (shared s) (RCheck1 x c h l)")
    case None
    from rf_lock_None [OF None has] waits show thesis by blast
  next
    case (Some r)
    with stuck RLock rf_lock_pc [of t l "shared s" "RCheck1 x c h l" "fst r" "snd r"] show thesis
      by (cases r) (auto simp: rf_advances_def)
  qed
next
  case (RQuiesce c i)
  then have q: "rf_quiet (shared s)" "c = rf_buckets (shared s)" using rf_okD(2) [OF ok] by auto
  show thesis
  proof (cases "i < c")
    case True
    then have "unat i < unat (rf_capacity (shared s))" using q by (simp add: rf_quiet_def word_less_nat_alt)
    from capacity_mutex [OF inv this] obtain l where l: "GetMutex (shared s) i = Some l" by blast
    from inv obtain n where "blocks n (rf_initial_shift (shared s)) (rf_arena (shared s))" by (rule rf_inv_blocks)
    from GetMutex_has [OF this l] have has: "has_mutex (rf_arena (shared s)) l" .
    show thesis
    proof (cases "rf_lock t l (shared s) (RRelease c i l)")
      case None
      from rf_lock_None [OF None has] waits show thesis by blast
    next
      case (Some r)
      with stuck RQuiesce True l rf_lock_pc [of t l "shared s" "RRelease c i l" "fst r" "snd r"] show thesis
        by (cases r) (auto simp: rf_advances_def)
    qed
  next
    case False
    with stuck RQuiesce show thesis by (auto simp: rf_advances_def)
  qed
next
  case (RFind x h l)
  then show thesis using holder_advances [of s t l hash mem] stuck by simp
next
  case (RRetry x l)
  then show thesis using holder_advances [of s t l hash mem] stuck by simp
next
  case (RUnlock a r l)
  then show thesis using holder_advances [of s t l hash mem] stuck by simp
next
  case (RRelease c i l)
  then show thesis using holder_advances [of s t l hash mem] stuck by simp
next
  case (REnlarge c)
  with stuck show thesis by (auto simp: rf_advances_def split: option.splits sum.splits)
next
  case (RThrown ex)
  with threw show thesis by simp
next
  case RUndef
  with rf_okD(2) [OF ok] show thesis by simp
qed (use unfinished stuck in \<open>auto simp: rf_advances_def split: if_splits\<close>)

text \<open>The flag is up only while some thread resizes, or after one has thrown.\<close>

lemma flag_step:
  assumes "refinable_step hash mem t s pc = Some (s', pc')" "rf_resizing s'" "pc' \<noteq> RUndef"
  shows "rf_resizer pc' \<or> rf_resizing s \<and> \<not> rf_resizer pc"
proof (cases pc)
  case (RLock x c h l)
  with assms rf_lock_pc [of t l s "RCheck1 x c h l" s' pc'] show ?thesis
    by (auto simp: rf_lock_def split: option.splits)
next
  case (RQuiesce c i)
  with assms show ?thesis
    by (auto simp: rf_lock_def split: option.splits if_splits)
next
  case (RRelease c i l)
  with assms show ?thesis by (auto simp: rf_unlock_def split: option.splits)
qed (use assms in \<open>auto simp: rf_lock_def rf_unlock_def split: option.splits sum.splits if_splits\<close>)

lemma flag_raised:
  assumes "construct_refinable mem0 c = Some (Inr s0)"
    and "sys_run (refinable_program hash mem) (sys_init (refinable_program hash mem) s0) h s"
  shows "rf_resizing (shared s) \<longrightarrow> (\<exists>t. rf_resizer (pcs s t))"
proof -
  let ?P = "refinable_program hash mem"
  let ?I = "\<lambda>s. (\<exists>i. rf.sim hash s i) \<and> (rf_resizing (shared s) \<longrightarrow> (\<exists>t. rf_resizer (pcs s t)))"
  have "?I s"
  proof (rule sys_run_invariant [OF assms(2)])
    have start: "rf_start hash s0" by (rule construct_refinable_start [OF assms(1)])
    then have "\<not> rf_resizing s0" by (simp add: rf_start_def)
    with rf.sim_begin [OF start, of mem] show "?I (sys_init ?P s0)"
      by (auto simp: sys_init_def)
  next
    fix s1 s2 and l :: "'a event option" assume I: "?I s1" and st: "sys_step ?P s1 l s2"
    from I obtain i where i: "rf.sim hash s1 i" by blast
    from rf.sim_any_step [OF i st] obtain i2 where i2: "rf.sim hash s2 i2" by blast
    from st have "rf_resizing (shared s2) \<longrightarrow> (\<exists>t. rf_resizer (pcs s2 t))"
    proof cases
      case (step_call t x)
      then have idle: "\<not> rf_resizer (pcs s1 t)" by (simp add: refinable_program_def)
      show ?thesis
      proof
        assume "rf_resizing (shared s2)"
        with I step_call obtain u where "rf_resizer (pcs s1 u)" by auto
        with idle step_call have "rf_resizer (pcs s2 u)" by (cases "u = t") auto
        then show "\<exists>t. rf_resizer (pcs s2 t)" ..
      qed
    next
      case (step_internal t sh pc)
      have stp: "refinable_step hash mem t (shared s1) (pcs s1 t) = Some (sh, pc)"
        using step_internal by (simp add: refinable_program_def)
      have "pcs s2 t \<noteq> RUndef" using rf.simD(3) [OF i2, of t] by (auto simp: rf_ok_def)
      then have "pc \<noteq> RUndef" using step_internal by simp
      with flag_step [OF stp _ this] I step_internal show ?thesis
        by simp (metis fun_upd_apply)
    next
      case (step_return t r)
      then have "\<not> rf_resizer (pcs s1 t)" by (cases "pcs s1 t") (auto simp: refinable_program_def)
      note idle = this
      show ?thesis
      proof
        assume "rf_resizing (shared s2)"
        with I step_return obtain u where "rf_resizer (pcs s1 u)" by auto
        with idle step_return have "rf_resizer (pcs s2 u)" by (cases "u = t") auto
        then show "\<exists>t. rf_resizer (pcs s2 t)" ..
      qed
    qed
    with i2 show "?I s2" by blast
  qed
  then show ?thesis by blast
qed

text \<open>While a resizing thread exists, only that thread can lower the flag.\<close>

lemma flag_lowered:
  assumes "refinable_step hash mem t s pc = Some (s', pc')" "rf_resizing s"
  shows "rf_resizing s' \<or> pc = RReopen"
  using assms
  by (cases pc) (auto simp: rf_lock_def rf_unlock_def Let_def split: option.splits sum.splits if_splits)

lemma stuck_owner:
  assumes "construct_refinable mem0 c = Some (Inr s0)"
    and "sys_run (refinable_program hash mem) (sys_init (refinable_program hash mem) s0) h s"
    and "owner_of (rf_arena (shared s)) l = Some u"
  shows "rf_advances hash mem u s"
  using rf_ownsD(1) [OF rf_okD(1) [OF rf_reach(2) [OF assms(1,2)]], of l u] assms(3)
  by (intro holder_advances) simp

section \<open>Later states\<close>

text \<open>The mutex of an index stays the same.\<close>

lemma GetMutex_later:
  assumes "construct_refinable mem c = Some (Inr s0)"
    and "sys_run (refinable_program hash mem) (sys_init (refinable_program hash mem) s0) h s"
    and "sys_run (refinable_program hash mem) s h' s'" "GetMutex (shared s) i = Some l"
  shows "GetMutex (shared s') i = Some l"
proof -
  let ?I = "\<lambda>s. (\<exists>j. rf.sim hash s j) \<and> GetMutex (shared s) i = Some l"
  have "?I s'"
  proof (rule sys_run_invariant [OF assms(3)])
    show "?I s" using rf.sim_reachable [OF construct_refinable_start [OF assms(1)] assms(2)] assms(4) by blast
  next
    fix s1 s2 and lab :: "'a event option"
    assume I: "?I s1" and st: "sys_step (refinable_program hash mem) s1 lab s2"
    from I obtain j where j: "rf.sim hash s1 j" by blast
    from st have "GetMutex (shared s2) i = Some l"
    proof cases
      case (step_internal t sh pc)
      then have "refinable_step hash mem t (shared s1) (pcs s1 t) = Some (sh, pc)"
        by (simp add: refinable_program_def)
      from refinable_goes [OF rf.simD(1) [OF j] rf.simD(3) [OF j] this]
      have "rf_frame t (shared s1) (pcs s1 t) sh" by (simp only: rf_goes_def)
      then have "GetMutex (shared s1) i = Some l \<Longrightarrow> GetMutex sh i = Some l"
        unfolding rf_frame_def by blast
      with I step_internal show ?thesis by simp
    qed (use I in simp_all)
    with rf.sim_any_step [OF j st] show "?I s2" by blast
  qed
  then show ?thesis by blast
qed

text \<open>Without a resize, every mutex of the arena is the one of a bucket.\<close>

lemma every_mutex_used:
  assumes inv: "rf_inv hash s" and "\<not> rf_resizing s" "has_mutex (rf_arena s) l"
  shows "\<exists>i < rf_capacity s. GetMutex s i = Some l"
proof -
  let ?sh = "rf_initial_shift s" and ?k = "rf_level s"
  note D = rf_invD [OF inv]
  have b: "blocks (?k + 1) ?sh (rf_arena s)" "rf_capacity s = rf_buckets s"
    using inv assms(2) by (auto simp: rf_inv_def rf_extra_def)
  from assms(3) obtain ms where ms: "fst l < kMaxBlocks" "rf_arena s ! fst l = Some ms" "snd l < length ms"
    using b(1) by (auto simp: has_mutex_def blocks_def)
  with b(1) have l: "fst l \<le> ?k" "length ms = 2 ^ block_shift ?sh (fst l)"
    unfolding blocks_def by (metis Suc_eq_plus1 less_Suc_eq_le option.discI, metis option.discI option.inject)
  with ms(3) slot_surj [of ?sh ?k "fst l" "snd l"] D(3) obtain i where
    i: "unat i < 2 ^ (?sh + ?k)" "BlockIndex ?sh i = fst l" "unat (BlockOffset ?sh i) = snd l" by auto
  then have "i < rf_capacity s" using D(2,4) b(2) by (simp add: word_less_nat_alt)
  moreover from GetMutex_Some [OF b(1) _ _ i(1)] D(3) have "\<exists>m. GetMutex s i = Some m" by simp
  then have "GetMutex s i = Some l"
    using i(2,3) by (auto simp: GetMutex_def Let_def split: if_splits)
  ultimately show ?thesis by blast
qed

text \<open>The states after an exception in a resize.\<close>

definition wedged ::
    "('a \<Rightarrow> size_t) \<Rightarrow> tid \<Rightarrow> exn \<Rightarrow> ('a refinable, 'a rpc) sys \<Rightarrow> ('a refinable, 'a rpc) sys \<Rightarrow> bool" where
  "wedged hash t ex s s' \<longleftrightarrow>
     (\<exists>i. rf.sim hash s' i) \<and> rf_resizing (shared s') \<and> pcs s' t = RThrown ex \<and>
     (\<forall>u x. pcs s u = RSpin x \<longrightarrow> pcs s' u = RSpin x) \<and>
     (\<forall>u. pcs s u = RIdle \<longrightarrow> pcs s' u = RIdle \<or> (\<exists>x. pcs s' u = RSpin x))"

lemma wedged_step:
  assumes w: "wedged hash t ex s s1" and st: "sys_step (refinable_program hash mem) s1 lab s2"
  shows "wedged hash t ex s s2"
proof -
  from w obtain i where i: "rf.sim hash s1 i" and up: "rf_resizing (shared s1)"
    and t: "pcs s1 t = RThrown ex" and spin: "\<And>u x. pcs s u = RSpin x \<Longrightarrow> pcs s1 u = RSpin x"
    and idle: "\<And>u. pcs s u = RIdle \<Longrightarrow> pcs s1 u = RIdle \<or> (\<exists>x. pcs s1 u = RSpin x)"
    by (auto simp: wedged_def)
  from rf.sim_any_step [OF i st] obtain i2 where i2: "rf.sim hash s2 i2" by blast
  from st have "rf_resizing (shared s2) \<and> pcs s2 t = RThrown ex \<and>
     (\<forall>u x. pcs s u = RSpin x \<longrightarrow> pcs s2 u = RSpin x) \<and>
     (\<forall>u. pcs s u = RIdle \<longrightarrow> pcs s2 u = RIdle \<or> (\<exists>x. pcs s2 u = RSpin x))"
  proof cases
    case (step_call v x)
    then have v: "pcs s1 v = RIdle" "s2 = s1\<lparr>pcs := (pcs s1)(v := RSpin x)\<rparr>"
      by (simp_all add: refinable_program_def)
    with t up spin [of v] idle show ?thesis by (fastforce simp: v(2) dest: spin)
  next
    case (step_internal v sh pc)
    then have stp: "refinable_step hash mem v (shared s1) (pcs s1 v) = Some (sh, pc)"
      and s2: "s2 = s1\<lparr>shared := sh, pcs := (pcs s1)(v := pc)\<rparr>"
      by (simp_all add: refinable_program_def)
    from stp t have vt: "v \<noteq> t" by auto
    with rf.simD(4) [OF i, of v t] t have "\<not> rf_resizer (pcs s1 v)" by (simp add: rf_pair_def)
    with flag_lowered [OF stp up] have "rf_resizing sh" by auto
    moreover have same: "pcs s1 v = RSpin x \<Longrightarrow> pc = RSpin x" for x using stp up by auto
    moreover have "pcs s1 v \<noteq> RIdle" using stp by auto
    ultimately show ?thesis using vt t spin idle by (fastforce simp: s2)
  next
    case (step_return v r)
    then have v: "pcs s1 v = RRet r" "s2 = s1\<lparr>pcs := (pcs s1)(v := RIdle)\<rparr>"
      by (auto simp: refinable_program_def split: rpc.splits)
    with t up spin [of v] idle [of v] show ?thesis by (fastforce simp: v(2) dest: spin idle)
  qed
  with i2 show ?thesis by (auto simp: wedged_def)
qed

lemma ValidatedShift_pow2: "(\<exists>s. ValidatedShift c = Inr s) \<longleftrightarrow> (\<exists>k. 1 \<le> k \<and> unat c = 2 ^ k)"
proof -
  have "k < 64" if "unat c = 2 ^ k" for k
  proof (rule ccontr)
    assume "\<not> k < 64"
    then have "(2::nat) ^ 64 \<le> 2 ^ k" by (intro power_increasing) simp_all
    with that unat_size_less [of c] show False by simp
  qed
  then show ?thesis by (auto simp: ValidatedShift_cases)
qed

section \<open>A concrete execution\<close>

text \<open>
  Two buckets. Thread 0 adds 3 (\<open>rf_first\<close>, up to the state \<open>rf_one\<close>) and then 4, which starts a resize; thread 1 calls \<open>Contains 3\<close> just
  before. \<open>rf_begin\<close> stops when the new table has been allocated, which throws with room for two buckets
  only; \<open>rf_half\<close> when one bucket has been moved, with room for four.
\<close>

definition rf_first :: "nat choice list" where
  "rf_first = CallOp 0 (Add 3) # replicate 11 (Tick 0) @ [Finish 0]"

definition rf_begin :: "nat choice list" where
  "rf_begin = [CallOp 0 (Add 4), CallOp 1 (Contains 3)] @ replicate 22 (Tick 0)"

definition rf_half :: "nat choice list" where
  "rf_half = rf_begin @ [Tick 0]"

definition rf_grow :: "nat choice list" where
  "rf_grow = rf_half @ replicate 5 (Tick 0) @ [Finish 0]"

definition rf_rest :: "nat choice list" where
  "rf_rest = replicate 7 (Tick 1) @ [Finish 1]"

definition rf_two :: "nat refinable" where
  "rf_two = \<lparr>rf_arena = (replicate 65 None)[0 := Some [None, None]], rf_initial_shift = 1,
     rf_table = [[], []], rf_capacity = 2, rf_resizing = False, rf_set_size = 0\<rparr>"

definition rf_one :: "nat refinable" where
  "rf_one = rf_two\<lparr>rf_table := [[], [3]], rf_set_size := 1\<rparr>"

lemma rf_two: "2 \<le> mem \<Longrightarrow> construct_refinable mem 2 = Some (Inr rf_two)"
proof -
  have "ValidatedShift 2 = Inr 1" by (simp add: ValidatedShift_cases)
  then show "2 \<le> mem \<Longrightarrow> ?thesis"
    by (simp add: construct_refinable_def rf_two_def vec_max_def EnlargeMutexArena_def block_shift_def
        kMaxBlocks_def BlockSize_def replicate_small push_bit_eq_mult)
qed

lemma rf_slots:
  "BlockIndex (Suc 0) 0 = 0" "BlockIndex (Suc 0) 1 = 0" "BlockIndex (Suc 0) 2 = 1" "BlockIndex (Suc 0) 3 = 1"
  "BlockOffset (Suc 0) 0 = 0" "BlockOffset (Suc 0) 1 = 1" "BlockOffset (Suc 0) 2 = 0" "BlockOffset (Suc 0) 3 = 1"
  "BlockSize (Suc 0) 0 = 2" "BlockSize (Suc 0) (Suc 0) = 2"
  using block_first [of 0 1] block_first [of 1 1] block_later [of 1 0 2] block_later [of 1 0 3]
  by (simp_all add: BlockSize_def block_shift_def word_unat_eq_iff)

lemma rf_ticks: "replicate (numeral k) (Tick t) = Tick t # replicate (pred_numeral k) (Tick t)"
  by (simp add: numeral_eq_Suc)

lemmas rf_run_simps = rf_first_def rf_begin_def rf_one_def rf_two_def refinable_program_def sys_init_def rf_lock_def
  rf_unlock_def arena_lock_def arena_unlock_def GetMutex_def block_shift_def rf_slots rf_ticks replicate_small
  mutex_lock_def mutex_unlock_def rf_found_def Let_def bucket_index_def EnlargeMutexArena_def
  push_bucket_def push_back_def rf_overloaded_def rf_load_factor_numerator_def
  rf_load_factor_denominator_def vec_max_def

abbreviation rf_example :: "nat \<Rightarrow> (nat refinable, nat rpc) sys" where
  "rf_example mem \<equiv> sys_init (refinable_program of_nat mem) rf_two"

lemma rf_run_first:
  "sys_run (refinable_program of_nat mem) (rf_example mem) [Call 0 (Add 3), Return 0 True]
     (sys_init (refinable_program of_nat mem) rf_one)"
proof (rule sched_run_sound)
  show "sched_run (refinable_program of_nat mem) rf_first (rf_example mem) =
      Some ([Call 0 (Add 3), Return 0 True], sys_init (refinable_program of_nat mem) rf_one)"
    by (simp add: rf_run_simps fun_eq_iff)
qed

lemma rf_run_more:
  assumes "sched_run (refinable_program of_nat mem) cs (sys_init (refinable_program of_nat mem) rf_one) = Some (h, s)"
  shows "sys_run (refinable_program of_nat mem) (rf_example mem) ([Call 0 (Add 3), Return 0 True] @ h) s"
  by (rule sys_run_trans [OF rf_run_first sched_run_sound [OF assms]])

lemma rf_run_thrown:
  obtains h s where "sys_run (refinable_program of_nat 2) (rf_example 2) h s"
    "pcs s 0 = RThrown Bad_alloc" "pcs s 1 = RSpin (Contains 3)"
proof -
  have "\<exists>h s. sched_run (refinable_program of_nat 2) rf_begin (sys_init (refinable_program of_nat 2) rf_one) =
      Some (h, s) \<and> pcs s 0 = RThrown Bad_alloc \<and> pcs s 1 = RSpin (Contains 3)"
    by (simp add: rf_run_simps)
  with rf_run_more that show thesis by blast
qed

lemma rf_run_half:
  obtains h s where "sys_run (refinable_program of_nat 4) (rf_example 4) h s"
    "pcs s 0 = RMove 4 1 [[4], [], [], []]" "pcs s 1 = RSpin (Contains 3)" "\<And>t. 1 < t \<Longrightarrow> pcs s t = RIdle"
    "rf_capacity (shared s) = 2" "GetMutex (shared s) 1 = Some (0, 1)"
proof -
  have "\<exists>h s. sched_run (refinable_program of_nat 4) rf_half (sys_init (refinable_program of_nat 4) rf_one) =
      Some (h, s) \<and> pcs s 0 = RMove 4 1 [[4], [], [], []] \<and> pcs s 1 = RSpin (Contains 3) \<and>
      (\<forall>t > 1. pcs s t = RIdle) \<and> rf_capacity (shared s) = 2 \<and> GetMutex (shared s) 1 = Some (0, 1)"
    by (simp add: rf_half_def rf_run_simps)
  with rf_run_more that show thesis by blast
qed

definition rf_history :: "nat event list" where
  "rf_history =
     [Call 0 (Add 3), Return 0 True, Call 0 (Add 4), Call 1 (Contains 3), Return 0 True, Return 1 True]"

lemma rf_run_full:
  obtains s where "sys_run (refinable_program of_nat 4) (rf_example 4) rf_history s"
    "\<And>t. pcs s t = RIdle" "rf_table (shared s) = [[4], [], [], [3]]"
proof -
  let ?P = "refinable_program of_nat 4"
  let ?s1 = "\<lparr>shared = rf_two\<lparr>rf_arena := (rf_arena rf_two)[1 := Some [None, None]], rf_table := [[4], [], [], [3]],
      rf_capacity := 4, rf_set_size := 2\<rparr>, pcs = (\<lambda>_. RIdle)(1 := RSpin (Contains 3))\<rparr>"
  have "sched_run ?P rf_grow (sys_init ?P rf_one) =
      Some ([Call 0 (Add 4), Call 1 (Contains 3), Return 0 True], ?s1)"
    by (simp add: rf_grow_def rf_half_def rf_run_simps fun_upd_twist fun_eq_iff)
  note run1 = rf_run_more [OF this]
  have "\<exists>s. sched_run ?P rf_rest ?s1 = Some ([Return 1 True], s) \<and>
      (\<forall>t. pcs s t = RIdle) \<and> rf_table (shared s) = [[4], [], [], [3]]"
    by (simp add: rf_rest_def rf_run_simps)
  then obtain s where s: "sched_run ?P rf_rest ?s1 = Some ([Return 1 True], s)" "\<And>t. pcs s t = RIdle"
    "rf_table (shared s) = [[4], [], [], [3]]" by blast
  from sys_run_trans [OF run1 sched_run_sound [OF s(1)]] have "sys_run ?P (rf_example 4) rf_history s"
    by (simp add: rf_history_def)
  then show thesis by (rule that [OF _ s(2,3)])
qed

section \<open>Properties\<close>

text \<open>
  C22 (refinement): the refinable set is linearizable. Every history of concurrent calls of \<open>Add\<close>,
  \<open>Remove\<close> and \<open>Contains\<close>, by any number of threads, is a history of the atomic set, whatever the hash
  function, with resizes in between, and also when the allocation in a resize throws.
\<close>

theorem refinable_linearizable:
  assumes "construct_refinable mem c = Some (Inr s0)"
  shows "linearizable (refinable_program hash mem) s0 {}"
  by (rule rf.sim_linearizable) (rule construct_refinable_start [OF assms])

text \<open>
  C23 (safety): the mutexes and the flag keep the threads apart, although a thread that resizes holds
  no mutex. No two threads are at the same bucket; while a thread replaces the table, no other thread
  is at a bucket or replaces the table; every bucket index is in range; no assertion of the arena
  fails, no thread locks a mutex it owns or unlocks one it does not own.
\<close>

theorem refinable_exclusive:
  assumes "construct_refinable mem c = Some (Inr s0)"
    and "sys_run (refinable_program hash mem) (sys_init (refinable_program hash mem) s0) h s" "t \<noteq> u"
  shows "(\<forall>i j. rf_bucket (pcs s t) = Some i \<and> rf_bucket (pcs s u) = Some j \<longrightarrow> i \<noteq> j) \<and>
    (rf_replacing (pcs s t) \<longrightarrow> rf_bucket (pcs s u) = None \<and> \<not> rf_replacing (pcs s u)) \<and>
    (\<forall>i. rf_bucket (pcs s t) = Some i \<longrightarrow> unat i < length (rf_table (shared s))) \<and>
    pcs s t \<noteq> RUndef"
proof (intro conjI allI impI)
  note inv = rf_reach(1) [OF assms(1,2)] and ok = rf_reach(2) [OF assms(1,2)]
    and pair = rf_reach(3) [OF assms(1,2)]
  note ent = entered_facts [OF inv rf_okD(2) [OF ok] rf_bucket_entered]
  show "i \<noteq> j" if "rf_bucket (pcs s t) = Some i \<and> rf_bucket (pcs s u) = Some j" for i j
  proof
    assume "i = j"
    with that ent [of t i] ent [of u i] obtain l where "rf_held (pcs s t) = Some l" "rf_held (pcs s u) = Some l"
      by auto
    with rf_ownsD(1) [OF rf_okD(1) [OF ok]] assms(3) show False by (metis option.inject)
  qed
  show "rf_bucket (pcs s u) = None" if r: "rf_replacing (pcs s t)"
  proof (cases "rf_bucket (pcs s u)")
    case (Some h)
    with rf_bucket_entered [OF Some] rf_replacing_swept [OF r, of h] pair [of u t] assms(3)
    show ?thesis by (auto simp: rf_pair_def)
  qed
  show "\<not> rf_replacing (pcs s u)" if "rf_replacing (pcs s t)"
    using that rf_replacing_swept [of "pcs s t" 0] rf_replacing_swept [of "pcs s u" 0] pair [OF assms(3)]
    by (auto simp: rf_pair_def)
  show "unat i < length (rf_table (shared s))" if "rf_bucket (pcs s t) = Some i" for i
    using ent [OF that] rf_invD(4) [OF inv] by (simp add: word_less_nat_alt)
  show "pcs s t \<noteq> RUndef" using rf_okD(2) [OF ok, of t] by auto
qed

text \<open>
  C24 (invariant): every bucket has a mutex of its own, for life. In a reachable state every index below
  \<open>capacity_\<close> has a mutex in an allocated block, and no two indices share one; when no resize is going
  on, every mutex of the arena belongs to a bucket; and in every state reached later, the mutex of an
  index is the same.
\<close>

theorem arena_one_to_one:
  assumes "construct_refinable mem c = Some (Inr s0)"
    and "sys_run (refinable_program hash mem) (sys_init (refinable_program hash mem) s0) h s"
    and "sys_run (refinable_program hash mem) s h' s'"
  shows "(\<forall>i < rf_capacity (shared s). \<exists>l. GetMutex (shared s) i = Some l \<and>
      has_mutex (rf_arena (shared s)) l \<and> GetMutex (shared s') i = Some l) \<and>
    (\<forall>i j l. GetMutex (shared s) i = Some l \<and> GetMutex (shared s) j = Some l \<longrightarrow> i = j) \<and>
    (\<not> rf_resizing (shared s) \<longrightarrow> (\<forall>l. has_mutex (rf_arena (shared s)) l \<longrightarrow>
      (\<exists>i < rf_capacity (shared s). GetMutex (shared s) i = Some l)))"
proof (intro conjI allI impI)
  note inv = rf_reach(1) [OF assms(1,2)]
  from inv obtain n where n: "blocks n (rf_initial_shift (shared s)) (rf_arena (shared s))" by (rule rf_inv_blocks)
  show "\<exists>l. GetMutex (shared s) i = Some l \<and> has_mutex (rf_arena (shared s)) l \<and> GetMutex (shared s') i = Some l"
    if i: "i < rf_capacity (shared s)" for i
  proof -
    from capacity_mutex [OF inv i [unfolded word_less_nat_alt]] obtain l where
      l: "GetMutex (shared s) i = Some l" by blast
    with GetMutex_has [OF n l] GetMutex_later [OF assms l] show ?thesis by blast
  qed
  show "i = j" if "GetMutex (shared s) i = Some l \<and> GetMutex (shared s) j = Some l" for i j l
    using GetMutex_inject [of "shared s" i l j] that rf_invD(3) [OF inv] by simp
  show "\<exists>i < rf_capacity (shared s). GetMutex (shared s) i = Some l"
    if "\<not> rf_resizing (shared s)" "has_mutex (rf_arena (shared s)) l" for l
    by (rule every_mutex_used [OF inv that])
qed

text \<open>
  C25 (liveness): no deadlock and no livelock of all threads. In every reachable state in which some
  thread is in the middle of an operation and no resize has thrown, some thread can take a step that
  changes its place: a thread that holds a mutex never waits, and while the flag makes threads spin
  some thread is resizing.
\<close>

theorem refinable_no_deadlock:
  assumes "construct_refinable mem c = Some (Inr s0)"
    and "sys_run (refinable_program hash mem) (sys_init (refinable_program hash mem) s0) h s"
    and "\<not> rf_finished (pcs s t)" "\<And>u. \<not> rf_thrown (pcs s u)"
  shows "\<exists>u. rf_advances hash mem u s"
proof (rule ccontr)
  assume stuck: "\<not> ?thesis"
  note inv = rf_reach(1) [OF assms(1,2)] and ok = rf_reach(2) [OF assms(1,2)]
  have free: "owner_of (rf_arena (shared s)) l \<noteq> Some u" for l u
    using stuck_owner [OF assms(1,2)] stuck by blast
  have spins: "\<exists>x. pcs s v = RSpin x" if "\<not> rf_finished (pcs s v)" for v
    by (rule stuck_cases [OF inv ok that, of mem]) (use stuck free assms(4) in auto)
  from spins [OF assms(3)] obtain x where x: "pcs s t = RSpin x" ..
  have "rf_resizing (shared s)"
  proof (rule ccontr)
    assume "\<not> ?thesis"
    with x have "rf_advances hash mem t s" by (simp add: rf_advances_def)
    with stuck show False by blast
  qed
  with flag_raised [OF assms(1,2)] obtain r where r: "rf_resizer (pcs s r)" by blast
  then have "\<not> rf_finished (pcs s r)" by (cases "pcs s r") auto
  from spins [OF this] r show False by auto
qed

text \<open>
  C26 (error): what an exception in a resize does. When the allocation of the mutexes or of the new
  table throws, the exception leaves \<open>Add\<close> with the flag up, and nothing lowers it again: in every later
  state it is up, a thread that spins at the start of an operation is still there, and a thread that
  was between operations is so or spins. No operation that starts after the exception ever returns.
\<close>

theorem resize_throw_wedges:
  assumes "construct_refinable mem c = Some (Inr s0)"
    and "sys_run (refinable_program hash mem) (sys_init (refinable_program hash mem) s0) h s"
    and "pcs s t = RThrown ex" and "sys_run (refinable_program hash mem) s h' s'"
  shows "rf_resizing (shared s') \<and> pcs s' t = RThrown ex \<and>
    (\<forall>u x. pcs s u = RSpin x \<longrightarrow> pcs s' u = RSpin x) \<and>
    (\<forall>u. pcs s u = RIdle \<longrightarrow> pcs s' u = RIdle \<or> (\<exists>x. pcs s' u = RSpin x))"
proof -
  let ?P = "refinable_program hash mem"
  have "wedged hash t ex s s'"
  proof (rule sys_run_invariant [OF assms(4)])
    from rf.sim_reachable [OF construct_refinable_start [OF assms(1)] assms(2)] obtain i where
      i: "rf.sim hash s i" by blast
    from rf_okD(2) [OF rf.simD(3) [OF i, of t]] assms(3) have "rf_resizing (shared s)" by simp
    with i assms(3) show "wedged hash t ex s s" by (auto simp: wedged_def)
  qed (rule wedged_step)
  then show ?thesis by (simp add: wedged_def)
qed

text \<open>
  C27 (functional): at rest. When no thread is in an operation, the table holds the elements of the
  atomic set after the same history, each in its bucket and once, \<open>Size\<close> is their number, the flag is
  down and \<open>capacity_\<close> is the number of buckets.
\<close>

theorem refinable_quiescent:
  assumes "construct_refinable mem c = Some (Inr s0)"
    and "sys_run (refinable_program hash mem) (sys_init (refinable_program hash mem) s0) h s"
    and "\<And>t. pcs s t = RIdle"
  shows "\<exists>a. atomic_run (a_init {}) h a \<and> a_set a = rf_elements (shared s) \<and>
    distinct (concat (rf_table (shared s))) \<and>
    rf_Size (shared s) = of_nat (card (rf_elements (shared s))) \<and>
    \<not> rf_resizing (shared s) \<and> rf_capacity (shared s) = of_nat (length (rf_table (shared s)))"
proof -
  have start: "rf_start hash s0" by (rule construct_refinable_start [OF assms(1)])
  note inv = rf_reach(1) [OF assms(1,2)]
  from rf.set_of_history [OF start assms(2)] assms(3) obtain a where
    "atomic_run (a_init {}) h a" "a_set a = rf_elements (shared s)" by auto
  moreover have "distinct (concat (rf_table (shared s)))"
    by (rule distinct_buckets [OF table_okD(1) [OF rf_invD(1) [OF inv]]])
  moreover have "rf_Size (shared s) = of_nat (card (rf_elements (shared s)))"
    using rf.size_exact [OF start assms(2)] assms(3) by (simp add: rf_Size_def)
  moreover have down: "\<not> rf_resizing (shared s)"
    using flag_raised [OF assms(1,2)] assms(3) by simp
  moreover have "rf_capacity (shared s) = of_nat (length (rf_table (shared s)))"
    using inv down by (simp add: rf_inv_def rf_buckets_def)
  ultimately show ?thesis by blast
qed

text \<open>
  The constructor. It has no undefined behaviour and no failing assertion; it gives a set
  exactly for the powers of two from 2 on for which the table and the first block can be allocated;
  it throws \<open>invalid_argument\<close> exactly for the others that are not such a power.
\<close>

lemma construct_refinable_outcome:
  "construct_refinable mem c \<noteq> None \<and>
   ((\<exists>s :: 'a refinable. construct_refinable mem c = Some (Inr s)) \<longleftrightarrow>
      (\<exists>k. 1 \<le> k \<and> unat c = 2 ^ k) \<and> unat c \<le> vec_max \<and> unat c \<le> mem) \<and>
   ((\<exists>m. (construct_refinable mem c :: (exn + 'a refinable) option) = Some (Inl (Invalid_argument m))) \<longleftrightarrow>
      \<not> (\<exists>k. 1 \<le> k \<and> unat c = 2 ^ k))"
proof (cases "ValidatedShift c")
  case (Inl e)
  then have "\<not> (\<exists>k. 1 \<le> k \<and> unat c = 2 ^ k)"
    using ValidatedShift_pow2 [of c] by simp
  moreover have "\<exists>m. e = Invalid_argument m" using Inl by (auto simp: ValidatedShift_def split: if_splits)
  ultimately show ?thesis using Inl by (auto simp: construct_refinable_def)
next
  case (Inr sh)
  then have sh: "1 \<le> sh" "sh < 64" "unat c = 2 ^ sh" by (simp_all add: ValidatedShift_cases)
  have "unat (BlockSize sh 0) = unat c" using sh BlockSize_nat [of sh 0] by (simp add: block_shift_def)
  then have "EnlargeMutexArena mem sh 0 (replicate kMaxBlocks None) =
      Some (if mem < unat c then Inl Bad_alloc
            else Inr ((replicate kMaxBlocks None)[0 := Some (replicate (unat c) None)]))"
    using sh by (simp add: EnlargeMutexArena_def kMaxBlocks_def block_shift_def)
  moreover have "\<exists>k. 1 \<le> k \<and> unat c = 2 ^ k" using sh by blast
  ultimately show ?thesis using Inr by (auto simp: construct_refinable_def)
qed

section \<open>Witnesses\<close>

lemmas rf_made = rf_two [of 2, simplified] rf_two [of 4, simplified]

theorem refinable_linearizable_witness: "\<exists>a. atomic_run (a_init {}) rf_history a"
proof (rule rf_run_full)
  fix s assume "sys_run (refinable_program of_nat 4) (rf_example 4) rf_history s"
  with refinable_linearizable [OF rf_made(2), of of_nat] show ?thesis unfolding linearizable_def by blast
qed

theorem refinable_exclusive_witness:
  "\<exists>(s :: (nat refinable, nat rpc) sys). pcs s 0 = RMove 4 1 [[4], [], [], []] \<and> rf_bucket (pcs s 1) = None"
proof (rule rf_run_half)
  fix h s assume s: "sys_run (refinable_program of_nat 4) (rf_example 4) h s"
    "pcs s 0 = RMove 4 1 [[4], [], [], []]"
  from refinable_exclusive [OF rf_made(2) s(1), of 0 1] s(2) show ?thesis by auto
qed

theorem arena_one_to_one_witness:
  "\<exists>s :: nat refinable. rf_capacity s = 2 \<and> GetMutex s 1 = Some (0, 1) \<and> has_mutex (rf_arena s) (0, 1)"
proof (rule rf_run_half)
  fix h s assume s: "sys_run (refinable_program of_nat 4) (rf_example 4) h s"
    "rf_capacity (shared s) = 2" "GetMutex (shared s) 1 = Some (0, 1)"
  have "(1 :: size_t) < rf_capacity (shared s)" by (simp add: s(2))
  with arena_one_to_one [OF rf_made(2) s(1) run_start] obtain l where
    "GetMutex (shared s) 1 = Some l \<and> has_mutex (rf_arena (shared s)) l" by blast
  with s(3) have "has_mutex (rf_arena (shared s)) (0, 1)" by simp
  with s(2,3) show ?thesis by blast
qed

theorem refinable_no_deadlock_witness:
  "\<exists>s u. pcs s 0 = RMove 4 1 [[4], [], [], []] \<and> rf_advances (of_nat :: nat \<Rightarrow> size_t) 4 u s"
proof (rule rf_run_half)
  fix h s assume s: "sys_run (refinable_program of_nat 4) (rf_example 4) h s"
    "pcs s 0 = RMove 4 1 [[4], [], [], []]" "pcs s 1 = RSpin (Contains 3)" "\<And>t. 1 < t \<Longrightarrow> pcs s t = RIdle"
  have "\<not> rf_thrown (pcs s u)" for u
  proof (cases "1 < u")
    case True
    then show ?thesis by (simp add: s(4))
  next
    case False
    then have "u = 0 \<or> u = 1" by linarith
    with s(2,3) show ?thesis by auto
  qed
  with refinable_no_deadlock [OF rf_made(2) s(1), of 0] s(2) show ?thesis by auto
qed

theorem resize_throw_wedges_witness:
  "\<exists>s. pcs s 0 = RThrown Bad_alloc \<and>
    (\<forall>h' s'. \<not> (sys_run (refinable_program (of_nat :: nat \<Rightarrow> size_t) 2) s h' s' \<and> pcs s' 1 \<noteq> RSpin (Contains 3)))"
proof (rule rf_run_thrown)
  fix h s assume s: "sys_run (refinable_program of_nat 2) (rf_example 2) h s"
    "pcs s 0 = RThrown Bad_alloc" "pcs s 1 = RSpin (Contains 3)"
  with resize_throw_wedges [OF rf_made(1) s(1,2)] show ?thesis by blast
qed

theorem refinable_quiescent_witness:
  "\<exists>a :: nat atomic. a_set a = {3, 4} \<and> atomic_run (a_init {}) rf_history a"
proof (rule rf_run_full)
  fix s assume s: "sys_run (refinable_program of_nat 4) (rf_example 4) rf_history s"
    "\<And>t. pcs s t = RIdle" "rf_table (shared s) = [[4], [], [], [3]]"
  from refinable_quiescent [OF rf_made(2) s(1,2)] obtain a where
    "atomic_run (a_init {}) rf_history a" "a_set a = rf_elements (shared s)" by blast
  with s(3) show ?thesis by (intro exI [of _ a]) (simp add: rf_elements_def contents_def insert_commute)
qed

end
