(* ===== verification/Workload.thy ===== *)
theory Workload
  imports HashSetBase
begin

text \<open>
  The first half of \<open>benchmarks.cc\<close>: the scenarios, the elements a set starts with, and the operations
  and elements each thread of a benchmark goes through, drawn from \<open>std::mt19937_64\<close>.
\<close>

section \<open>Types\<close>

text \<open>\<open>unsigned\<close> on the targets the build supports.\<close>

type_synonym unsigned = "32 word"

datatype operation = kContains | kAdd | kRemove

datatype key_choice = kShared | kDisjoint | kHotSpot | kSequential

record mix =
  mix_contains :: unsigned
  mix_add :: unsigned
  mix_remove :: unsigned

record scenario =
  sc_name :: string
  sc_mix :: mix
  sc_key_choice :: key_choice
  sc_keys :: size_t
  sc_initial_capacity :: size_t
  sc_max_capacity :: size_t
  sc_iterations :: size_t
  sc_prefill :: bool

record step =
  step_operation :: operation
  step_elem :: size_t

section \<open>Constants\<close>

definition kSmallKeys :: size_t where "kSmallKeys = push_bit 12 1"
definition kSmallCapacity :: size_t where "kSmallCapacity = push_bit 13 1"
definition kLargeKeys :: size_t where "kLargeKeys = push_bit 20 1"
definition kLargeCapacity :: size_t where "kLargeCapacity = push_bit 21 1"
definition kIterations :: size_t where "kIterations = 200000"
definition kOutgrownCapacity :: size_t where "kOutgrownCapacity = push_bit 2 1"
definition kGrowthKeys :: size_t where "kGrowthKeys = push_bit 19 1"
definition kGrowthCapacity :: size_t where "kGrowthCapacity = push_bit 10 1"
definition kGrowthMaxCapacity :: size_t where "kGrowthMaxCapacity = push_bit 20 1"
definition kGrowthIterations :: size_t where "kGrowthIterations = push_bit 15 1"
definition kStepsPerThread :: size_t where "kStepsPerThread = push_bit 14 1"
definition kHotKeysPercent :: unsigned where "kHotKeysPercent = 90"
definition kSeed :: size_t where "kSeed = 0x5DEECE66D"
definition kThreadCounts :: "nat list" where "kThreadCounts = [1, 2, 4, 8, 16]"

lemmas workload_constants = kSmallKeys_def kSmallCapacity_def kLargeKeys_def kLargeCapacity_def kIterations_def
  kOutgrownCapacity_def kGrowthKeys_def kGrowthCapacity_def kGrowthMaxCapacity_def kGrowthIterations_def
  kStepsPerThread_def kHotKeysPercent_def

definition kScenarios :: "scenario list" where
  "kScenarios =
   [\<lparr>sc_name = ''contains_only'',
     sc_mix = \<lparr>mix_contains = 100, mix_add = 0, mix_remove = 0\<rparr>,
     sc_key_choice = kShared, sc_keys = kSmallKeys, sc_initial_capacity = kSmallCapacity,
     sc_max_capacity = kSmallCapacity, sc_iterations = kIterations, sc_prefill = True\<rparr>,
    \<lparr>sc_name = ''read_heavy_small'',
     sc_mix = \<lparr>mix_contains = 90, mix_add = 5, mix_remove = 5\<rparr>,
     sc_key_choice = kShared, sc_keys = kSmallKeys, sc_initial_capacity = kSmallCapacity,
     sc_max_capacity = kSmallCapacity, sc_iterations = kIterations, sc_prefill = True\<rparr>,
    \<lparr>sc_name = ''read_heavy_large'',
     sc_mix = \<lparr>mix_contains = 90, mix_add = 5, mix_remove = 5\<rparr>,
     sc_key_choice = kShared, sc_keys = kLargeKeys, sc_initial_capacity = kLargeCapacity,
     sc_max_capacity = kLargeCapacity, sc_iterations = kIterations, sc_prefill = True\<rparr>,
    \<lparr>sc_name = ''balanced_small'',
     sc_mix = \<lparr>mix_contains = 50, mix_add = 25, mix_remove = 25\<rparr>,
     sc_key_choice = kShared, sc_keys = kSmallKeys, sc_initial_capacity = kSmallCapacity,
     sc_max_capacity = kSmallCapacity, sc_iterations = kIterations, sc_prefill = True\<rparr>,
    \<lparr>sc_name = ''balanced_large'',
     sc_mix = \<lparr>mix_contains = 50, mix_add = 25, mix_remove = 25\<rparr>,
     sc_key_choice = kShared, sc_keys = kLargeKeys, sc_initial_capacity = kLargeCapacity,
     sc_max_capacity = kLargeCapacity, sc_iterations = kIterations, sc_prefill = True\<rparr>,
    \<lparr>sc_name = ''write_heavy'',
     sc_mix = \<lparr>mix_contains = 20, mix_add = 40, mix_remove = 40\<rparr>,
     sc_key_choice = kShared, sc_keys = kSmallKeys, sc_initial_capacity = kSmallCapacity,
     sc_max_capacity = kSmallCapacity, sc_iterations = kIterations, sc_prefill = True\<rparr>,
    \<lparr>sc_name = ''disjoint_keys'',
     sc_mix = \<lparr>mix_contains = 50, mix_add = 25, mix_remove = 25\<rparr>,
     sc_key_choice = kDisjoint, sc_keys = kLargeKeys, sc_initial_capacity = kLargeCapacity,
     sc_max_capacity = kLargeCapacity, sc_iterations = kIterations, sc_prefill = True\<rparr>,
    \<lparr>sc_name = ''skewed'',
     sc_mix = \<lparr>mix_contains = 50, mix_add = 25, mix_remove = 25\<rparr>,
     sc_key_choice = kHotSpot, sc_keys = kLargeKeys, sc_initial_capacity = kLargeCapacity,
     sc_max_capacity = kLargeCapacity, sc_iterations = kIterations, sc_prefill = True\<rparr>,
    \<lparr>sc_name = ''outgrown_capacity'',
     sc_mix = \<lparr>mix_contains = 90, mix_add = 5, mix_remove = 5\<rparr>,
     sc_key_choice = kShared, sc_keys = kLargeKeys, sc_initial_capacity = kOutgrownCapacity,
     sc_max_capacity = kLargeCapacity, sc_iterations = kIterations, sc_prefill = True\<rparr>,
    \<lparr>sc_name = ''growth'',
     sc_mix = \<lparr>mix_contains = 0, mix_add = 100, mix_remove = 0\<rparr>,
     sc_key_choice = kSequential, sc_keys = kGrowthKeys, sc_initial_capacity = kGrowthCapacity,
     sc_max_capacity = kGrowthMaxCapacity, sc_iterations = kGrowthIterations, sc_prefill = False\<rparr>]"

section \<open>The elements a set starts with\<close>

definition xorshift :: "nat \<Rightarrow> size_t \<Rightarrow> size_t" where
  "xorshift k x = x XOR drop_bit k x"

definition splitmix :: "size_t \<Rightarrow> size_t" where
  "splitmix elem =
     (let m1 = elem + 0x9E3779B97F4A7C15;
          m2 = xorshift 30 m1 * 0xBF58476D1CE4E5B9;
          m3 = xorshift 27 m2 * 0x94D049BB133111EB
      in xorshift 31 m3)"

definition StartsPresent :: "size_t \<Rightarrow> bool" where
  "StartsPresent elem \<longleftrightarrow> splitmix elem AND 1 = 0"

section \<open>The generator\<close>

text \<open>
  \<open>std::mt19937_64\<close> of the C++ standard: the last 312 values of the sequence, the oldest first. Seeding
  computes them from the seed; each call computes the next one and returns it tempered.
\<close>

type_synonym mt19937_64 = "size_t list"

fun mt_fill :: "nat \<Rightarrow> nat \<Rightarrow> size_t \<Rightarrow> size_t list" where
  "mt_fill 0 i x = []"
| "mt_fill (Suc n) i x =
     (let y = 6364136223846793005 * xorshift 62 x + of_nat i in y # mt_fill n (Suc i) y)"

definition mt_seed :: "size_t \<Rightarrow> mt19937_64" where
  "mt_seed v = v # mt_fill 311 1 v"

definition mt_temper :: "size_t \<Rightarrow> size_t" where
  "mt_temper x =
     (let z1 = x XOR (drop_bit 29 x AND 0x5555555555555555);
          z2 = z1 XOR (push_bit 17 z1 AND 0x71D67FFFEDA60000);
          z3 = z2 XOR (push_bit 37 z2 AND 0xFFF7EEE000000000)
      in z3 XOR drop_bit 43 z3)"

definition mt_next :: "mt19937_64 \<Rightarrow> size_t \<times> mt19937_64" where
  "mt_next xs =
     (let y = (xs ! 0 AND NOT (mask 31)) OR (xs ! 1 AND mask 31);
          x = xs ! 156 XOR drop_bit 1 y XOR (if y AND 1 = 0 then 0 else 0xB5026F5AA96619E9)
      in (mt_temper x, tl xs @ [x]))"

section \<open>The operations of a thread\<close>

definition choose_operation :: "mix \<Rightarrow> unsigned \<Rightarrow> operation" where
  "choose_operation m choice =
     (if choice < mix_contains m then kContains
      else if choice < mix_contains m + mix_add m then kAdd
      else kRemove)"

definition PickOperation :: "mix \<Rightarrow> mt19937_64 \<Rightarrow> operation \<times> mt19937_64" where
  "PickOperation m generator =
     (let (r, generator) = mt_next generator in (choose_operation m (ucast (r mod 100)), generator))"

text \<open>\<open>generator() % n\<close>, undefined when \<open>n\<close> is 0.\<close>

definition draw_below :: "size_t \<Rightarrow> mt19937_64 \<Rightarrow> (size_t \<times> mt19937_64) option" where
  "draw_below n generator =
     (if n = 0 then None else let (r, generator) = mt_next generator in Some (r mod n, generator))"

definition PickElem ::
    "scenario \<Rightarrow> mt19937_64 \<Rightarrow> size_t \<Rightarrow> size_t \<Rightarrow> size_t \<Rightarrow> (size_t \<times> mt19937_64) option" where
  "PickElem sc generator window_start window i =
     (case sc_key_choice sc of
        kDisjoint \<Rightarrow> map_option (\<lambda>(r, g). (window_start + r, g)) (draw_below window generator)
      | kSequential \<Rightarrow> Some (window_start + i, generator)
      | kHotSpot \<Rightarrow>
          (let hot_keys = sc_keys sc div 100; (r, generator) = mt_next generator
           in if r mod 100 < ucast kHotKeysPercent
              then draw_below hot_keys generator
              else map_option (\<lambda>(r, g). (hot_keys + r, g)) (draw_below (sc_keys sc - hot_keys) generator))
      | kShared \<Rightarrow> draw_below (sc_keys sc) generator)"

text \<open>The loop of \<open>BuildSteps\<close>: \<open>n\<close> steps still to go, from the index \<open>i\<close> on.\<close>

fun build_from ::
    "scenario \<Rightarrow> size_t \<Rightarrow> size_t \<Rightarrow> nat \<Rightarrow> size_t \<Rightarrow> mt19937_64 \<Rightarrow> step list option" where
  "build_from sc window_start window 0 i generator = Some []"
| "build_from sc window_start window (Suc n) i generator =
     (let (operation, generator) = PickOperation (sc_mix sc) generator
      in case PickElem sc generator window_start window i of
           None \<Rightarrow> None
         | Some (elem, generator) \<Rightarrow>
             map_option ((#) \<lparr>step_operation = operation, step_elem = elem\<rparr>)
               (build_from sc window_start window n (i + 1) generator))"

definition step_count :: "scenario \<Rightarrow> size_t" where
  "step_count sc = (if sc_key_choice sc = kSequential then sc_iterations sc else kStepsPerThread)"

definition BuildSteps :: "scenario \<Rightarrow> size_t \<Rightarrow> size_t \<Rightarrow> step list option" where
  "BuildSteps sc thread_index threads =
     (if threads = 0 then None
      else let window = sc_keys sc div threads; window_start = thread_index * window
           in build_from sc window_start window (unat (step_count sc)) 0 (mt_seed (kSeed + thread_index)))"

end
