(* ===== verification/Benchmarks.thy ===== *)
theory Benchmarks
  imports Workload Concurrency
begin

text \<open>
  The second half of \<open>benchmarks.cc\<close>: how a run is set up, what each thread does with the set under
  test, the check after the run, and the list of registered benchmarks. The benchmark library is not
  under \<open>src/\<close>: what the code asks of it is a value (the list of registrations), and what it does in a
  run is left open (how the threads are interleaved, how long they run).
\<close>

section \<open>The sets under test\<close>

datatype set_kind = Coarse_grained | Striped | Refinable | Lock_free | Tbb | Libcds

text \<open>\<open>MakeHashSet\<close>: the arguments of the constructor.\<close>

definition MakeHashSet :: "set_kind \<Rightarrow> scenario \<Rightarrow> size_t list" where
  "MakeHashSet k sc =
     (if k = Lock_free then [sc_initial_capacity sc, sc_max_capacity sc]
      else if k = Libcds then [sc_max_capacity sc]
      else [sc_initial_capacity sc])"

section \<open>Setting up a run\<close>

text \<open>
  The variables of the file: \<open>initial_size_\<close>, \<open>added_\<close>, \<open>removed_\<close>, \<open>check_failed_\<close>, and what has been
  written to \<open>std::cerr\<close>. The set \<open>hash_set_under_test_\<close> points to is the state of a program, below.
\<close>

record globals =
  g_initial_size :: size_t
  g_added :: size_t
  g_removed :: size_t
  g_check_failed :: bool
  g_errors :: string

definition no_globals :: globals where
  "no_globals =
     \<lparr>g_initial_size = 0, g_added = 0, g_removed = 0, g_check_failed = False, g_errors = []\<rparr>"

text \<open>\<open>SetUpRun\<close>: the calls of \<open>Add\<close> one thread makes, one after the other, and the variables after it.\<close>

definition prefill_elems :: "scenario \<Rightarrow> size_t list" where
  "prefill_elems sc =
     (if sc_prefill sc then filter StartsPresent (map of_nat [0..<unat (sc_keys sc)]) else [])"

definition SetUpRun :: "scenario \<Rightarrow> globals \<Rightarrow> size_t op list \<times> globals" where
  "SetUpRun sc g =
     (map Add (prefill_elems sc),
      g\<lparr>g_initial_size := of_nat (length (prefill_elems sc)), g_added := 0, g_removed := 0\<rparr>)"

text \<open>The history of calls made by one thread, one after the other.\<close>

fun calls_of :: "tid \<Rightarrow> 'a op list \<Rightarrow> bool list \<Rightarrow> 'a event list" where
  "calls_of t (x # xs) (r # rs) = Call t x # Return t r # calls_of t xs rs"
| "calls_of t _ _ = []"

section \<open>The loop of a thread\<close>

record worker =
  w_index :: size_t
  w_added :: size_t
  w_removed :: size_t

definition new_worker :: worker where
  "new_worker = \<lparr>w_index = 0, w_added = 0, w_removed = 0\<rparr>"

fun step_op :: "step \<Rightarrow> size_t op" where
  "step_op s =
     (case step_operation s of
        kContains \<Rightarrow> Contains (step_elem s)
      | kAdd \<Rightarrow> Add (step_elem s)
      | kRemove \<Rightarrow> Remove (step_elem s))"

text \<open>The call of the next iteration; \<open>None\<close> when the index is out of range.\<close>

definition next_call :: "step list \<Rightarrow> worker \<Rightarrow> size_t op option" where
  "next_call steps w =
     (let i = unat (w_index w AND (of_nat (length steps) - 1))
      in if i < length steps then Some (step_op (steps ! i)) else None)"

text \<open>The rest of the iteration, with the result of the call.\<close>

definition take_result :: "size_t op \<Rightarrow> bool \<Rightarrow> worker \<Rightarrow> worker" where
  "take_result x r w =
     (let w = w\<lparr>w_index := w_index w + 1\<rparr>
      in case x of
           Contains e \<Rightarrow> w
         | Add e \<Rightarrow> w\<lparr>w_added := w_added w + (if r then 1 else 0)\<rparr>
         | Remove e \<Rightarrow> w\<lparr>w_removed := w_removed w + (if r then 1 else 0)\<rparr>)"

text \<open>
  The events of a run of the threads \<open>0\<close> to \<open>n - 1\<close>: each thread makes the calls of its loop and
  counts the results. \<open>None\<close> when the history is not one of these threads.
\<close>

fun run_event :: "nat \<Rightarrow> (tid \<Rightarrow> step list) \<Rightarrow> size_t event \<Rightarrow> (tid \<Rightarrow> worker) \<Rightarrow> (tid \<Rightarrow> worker) option" where
  "run_event n steps (Call t x) ws =
     (if t < n \<and> next_call (steps t) (ws t) = Some x then Some ws else None)"
| "run_event n steps (Return t r) ws =
     (if t < n then map_option (\<lambda>x. ws(t := take_result x r (ws t))) (next_call (steps t) (ws t)) else None)"

fun run_events ::
    "nat \<Rightarrow> (tid \<Rightarrow> step list) \<Rightarrow> size_t event list \<Rightarrow> (tid \<Rightarrow> worker) \<Rightarrow> (tid \<Rightarrow> worker) option" where
  "run_events n steps [] ws = Some ws"
| "run_events n steps (e # es) ws =
     (case run_event n steps e ws of None \<Rightarrow> None | Some ws \<Rightarrow> run_events n steps es ws)"

text \<open>The end of \<open>RunScenario\<close>: a thread adds its counts.\<close>

definition finish_worker :: "worker \<Rightarrow> globals \<Rightarrow> globals" where
  "finish_worker w g = g\<lparr>g_added := g_added g + w_added w, g_removed := g_removed g + w_removed w\<rparr>"

text \<open>
  \<open>RunScenario\<close> by the threads \<open>0\<close> to \<open>n - 1\<close>: the variables at the end of the history \<open>h\<close>. \<open>None\<close> when
  building the steps is undefined.
\<close>

definition RunScenario :: "scenario \<Rightarrow> nat \<Rightarrow> size_t event list \<Rightarrow> globals \<Rightarrow> globals option" where
  "RunScenario sc n h g =
     (if list_all (\<lambda>t. BuildSteps sc (of_nat t) (of_nat n) \<noteq> None) [0..<n]
      then map_option (\<lambda>ws. fold (\<lambda>t. finish_worker (ws t)) [0..<n] g)
             (run_events n (\<lambda>t. the (BuildSteps sc (of_nat t) (of_nat n))) h (\<lambda>_. new_worker))
      else None)"

section \<open>The check\<close>

text \<open>A number as \<open>std::ostream\<close> writes it.\<close>

fun decimal :: "nat \<Rightarrow> string" where
  "decimal n = (if n < 10 then [] else decimal (n div 10)) @ [char_of (48 + n mod 10)]"

text \<open>\<open>CheckRun\<close>, with \<open>state.name()\<close> and the size of the set.\<close>

definition CheckRun :: "string \<Rightarrow> size_t \<Rightarrow> globals \<Rightarrow> globals" where
  "CheckRun name sz g =
     (let expected_size = g_initial_size g + g_added g - g_removed g
      in if sz \<noteq> expected_size
         then g\<lparr>g_errors := g_errors g @ name @ '' failed: size '' @ decimal (unat sz) @
                  '' does not match expected size '' @ decimal (unat expected_size) @ [CHR 0x0A],
                g_check_failed := True\<rparr>
         else g)"

text \<open>The set that \<open>P\<close> implements comes to rest in the state \<open>sh'\<close> after the history \<open>h\<close>.\<close>

definition rest_run :: "('a, 'sh, 'pc) program \<Rightarrow> 'sh \<Rightarrow> 'a event list \<Rightarrow> 'sh \<Rightarrow> bool" where
  "rest_run P sh h sh' \<longleftrightarrow>
     (\<exists>s. sys_run P (sys_init P sh) h s \<and> (\<forall>t. pcs s t = p_idle P) \<and> shared s = sh')"

text \<open>
  A benchmark on a set whose histories are those of \<open>run\<close>: the thread \<open>main\<close> sets up the run, the
  threads go through the scenario, everything comes to rest with the set in the state \<open>sh\<close>, and
  \<open>CheckRun\<close> follows. \<open>g\<close> and \<open>g'\<close> are the variables before and after.
\<close>

definition benchmark ::
    "scenario \<Rightarrow> nat \<Rightarrow> tid \<Rightarrow> string \<Rightarrow> ('sh \<Rightarrow> size_t event list \<Rightarrow> 'sh \<Rightarrow> bool) \<Rightarrow> ('sh \<Rightarrow> size_t) \<Rightarrow>
     'sh \<Rightarrow> 'sh \<Rightarrow> globals \<Rightarrow> globals \<Rightarrow> bool" where
  "benchmark sc n main name run Size sh0 sh g g' \<longleftrightarrow>
     (\<exists>rs h g1.
        length rs = length (fst (SetUpRun sc g)) \<and>
        run sh0 (calls_of main (fst (SetUpRun sc g)) rs @ h) sh \<and>
        RunScenario sc n h (snd (SetUpRun sc g)) = Some g1 \<and>
        g' = CheckRun name (Size sh) g1)"

section \<open>Registration and exit code\<close>

record registration =
  reg_name :: string
  reg_kind :: set_kind
  reg_scenario :: scenario
  reg_threads :: nat
  reg_iterations :: int

definition Register :: "scenario \<Rightarrow> set_kind \<Rightarrow> string \<Rightarrow> nat \<Rightarrow> registration" where
  "Register sc k set_name threads =
     \<lparr>reg_name = sc_name sc @ ''/'' @ set_name, reg_kind = k, reg_scenario = sc, reg_threads = threads,
      reg_iterations = sint (sc_iterations sc)\<rparr>"

text \<open>\<open>use_baselines\<close> is the macro \<open>USE_BASELINES\<close>.\<close>

definition RegisterAll :: "bool \<Rightarrow> registration list" where
  "RegisterAll use_baselines =
     concat (map (\<lambda>sc. concat (map (\<lambda>threads.
       [Register sc Coarse_grained ''coarse_grained'' threads,
        Register sc Striped ''striped'' threads,
        Register sc Refinable ''refinable'' threads,
        Register sc Lock_free ''lock_free'' threads] @
       (if use_baselines
        then [Register sc Tbb ''tbb_hash_map'' threads,
              Register sc Libcds ''cds_split_list'' threads]
        else [])) kThreadCounts)) kScenarios)"

definition exit_code :: "bool \<Rightarrow> bool \<Rightarrow> int" where
  "exit_code unrecognized_arguments check_failed =
     (if unrecognized_arguments then 1 else if check_failed then 1 else 0)"

end
