(* ===== verification/Containers.thy ===== *)
theory Containers
  imports Linearizability
begin

text \<open>
  Concurrent containers of other libraries, which the wrappers \<open>HashSetTbb\<close> and \<open>HashSetLibcds\<close> rest on.
  A container is a parameter: how its members run, in steps of any kind, is not known. What its
  documentation promises is \<open>keeps_contract\<close>: in runs whose calls are allowed, each member takes effect at
  one moment between its call and its return, and the size is exact when no member is running. The locale
  \<open>wrapper\<close> says what a set made of the members of such a container must satisfy, and carries the contract
  over to the histories of the set.
\<close>

section \<open>Containers and their contract\<close>

text \<open>
  \<open>'c\<close> are the calls of members with their arguments, \<open>'r\<close> their results; the first field is the
  constructor, with the thread that calls it and its list of sizes.
\<close>

record ('c, 'r, 'sh, 'pc) container =
  k_make :: "tid \<Rightarrow> size_t list \<Rightarrow> 'sh"
  k_idle :: 'pc
  k_start :: "'c \<Rightarrow> 'pc"
  k_step :: "tid \<Rightarrow> 'sh \<Rightarrow> 'pc \<Rightarrow> ('sh \<times> 'pc) option"
  k_result :: "'pc \<Rightarrow> 'r option"
  k_size :: "'sh \<Rightarrow> size_t"

datatype ('c, 'r) k_event = KCall tid 'c | KReturn tid 'r

inductive k_run ::
    "('c, 'r, 'sh, 'pc) container \<Rightarrow> ('sh, 'pc) sys \<Rightarrow> ('c, 'r) k_event list \<Rightarrow> ('sh, 'pc) sys \<Rightarrow> bool"
  for K s where
  k_here: "k_run K s [] s"
| k_called: "k_run K s h s1 \<Longrightarrow> pcs s1 t = k_idle K \<Longrightarrow>
     k_run K s (h @ [KCall t c]) (s1\<lparr>pcs := (pcs s1)(t := k_start K c)\<rparr>)"
| k_internal: "k_run K s h s1 \<Longrightarrow> k_step K t (shared s1) (pcs s1 t) = Some (sh, pc) \<Longrightarrow>
     k_run K s h (s1\<lparr>shared := sh, pcs := (pcs s1)(t := pc)\<rparr>)"
| k_returned: "k_run K s h s1 \<Longrightarrow> k_result K (pcs s1 t) = Some r \<Longrightarrow>
     k_run K s (h @ [KReturn t r]) (s1\<lparr>pcs := (pcs s1)(t := k_idle K)\<rparr>)"

text \<open>The atomic object of a sequential specification \<open>ap\<close>.\<close>

datatype ('c, 'r) o_status = OIdle | OPending 'c | ODone 'r

record ('s, 'c, 'r) object =
  o_state :: 's
  o_status :: "tid \<Rightarrow> ('c, 'r) o_status"

inductive o_run ::
    "('c \<Rightarrow> 's \<Rightarrow> 'r \<times> 's) \<Rightarrow> ('s, 'c, 'r) object \<Rightarrow> ('c, 'r) k_event list \<Rightarrow> ('s, 'c, 'r) object \<Rightarrow> bool"
  for ap b where
  o_here: "o_run ap b [] b"
| o_called: "o_run ap b h b1 \<Longrightarrow> o_status b1 t = OIdle \<Longrightarrow>
     o_run ap b (h @ [KCall t c]) (b1\<lparr>o_status := (o_status b1)(t := OPending c)\<rparr>)"
| o_effect: "o_run ap b h b1 \<Longrightarrow> o_status b1 t = OPending c \<Longrightarrow> ap c (o_state b1) = (r, v) \<Longrightarrow>
     o_run ap b h (b1\<lparr>o_state := v, o_status := (o_status b1)(t := ODone r)\<rparr>)"
| o_returned: "o_run ap b h b1 \<Longrightarrow> o_status b1 t = ODone r \<Longrightarrow>
     o_run ap b (h @ [KReturn t r]) (b1\<lparr>o_status := (o_status b1)(t := OIdle)\<rparr>)"

definition at_start :: "('c, 'r, 'sh, 'pc) container \<Rightarrow> 'sh \<Rightarrow> ('sh, 'pc) sys" where
  "at_start K sh = \<lparr>shared = sh, pcs = (\<lambda>_. k_idle K)\<rparr>"

text \<open>
  The contract from the state \<open>sh\<close>, which represents the value \<open>v\<close> of the specification \<open>ap\<close>; \<open>num\<close> is
  the number of its entries. \<open>allowed\<close> is what the container asks of the calls of its clients.
\<close>

definition keeps_contract ::
    "('c \<Rightarrow> 's \<Rightarrow> 'r \<times> 's) \<Rightarrow> 's \<Rightarrow> ('s \<Rightarrow> nat) \<Rightarrow> (('c, 'r) k_event list \<Rightarrow> bool) \<Rightarrow>
     ('c, 'r, 'sh, 'pc) container \<Rightarrow> 'sh \<Rightarrow> bool" where
  "keeps_contract ap v num allowed K sh \<longleftrightarrow>
     (\<forall>h s. k_run K (at_start K sh) h s \<longrightarrow> allowed h \<longrightarrow>
        (\<exists>b. o_run ap \<lparr>o_state = v, o_status = (\<lambda>_. OIdle)\<rparr> h b \<and>
           ((\<forall>t. pcs s t = k_idle K) \<longrightarrow>
              (\<forall>t. o_status b t = OIdle) \<and> k_size K (shared s) = of_nat (num (o_state b)))))"

section \<open>Wrappers\<close>

text \<open>
  What the history of the container is to the clients of a set whose operations each call one member and
  turn its result into an answer. Calls that are \<open>silent\<close> are made for other reasons, and their results
  are no answers.
\<close>

inductive wrapped ::
    "('a op \<Rightarrow> 'c) \<Rightarrow> ('r \<Rightarrow> bool option) \<Rightarrow> ('c \<Rightarrow> bool) \<Rightarrow> ('c, 'r) k_event list \<Rightarrow> 'a event list \<Rightarrow> bool"
  for member answer silent where
  w_none: "wrapped member answer silent [] []"
| w_call: "wrapped member answer silent kh h \<Longrightarrow>
     wrapped member answer silent (kh @ [KCall t (member x)]) (h @ [Call t x])"
| w_return: "wrapped member answer silent kh h \<Longrightarrow> answer r = Some b \<Longrightarrow>
     wrapped member answer silent (kh @ [KReturn t r]) (h @ [Return t b])"
| w_silent_call: "wrapped member answer silent kh h \<Longrightarrow> silent c \<Longrightarrow>
     wrapped member answer silent (kh @ [KCall t c]) h"
| w_silent_return: "wrapped member answer silent kh h \<Longrightarrow> answer r = None \<Longrightarrow>
     wrapped member answer silent (kh @ [KReturn t r]) h"

text \<open>The set comes to rest in the state \<open>sh'\<close> after the history \<open>h\<close>, its container after one that is \<open>fine\<close>.\<close>

definition wrapper_run ::
    "('a op \<Rightarrow> 'c) \<Rightarrow> ('r \<Rightarrow> bool option) \<Rightarrow> ('c \<Rightarrow> bool) \<Rightarrow> (('c, 'r) k_event list \<Rightarrow> bool) \<Rightarrow>
     ('c, 'r, 'sh, 'pc) container \<Rightarrow> 'sh \<Rightarrow> 'a event list \<Rightarrow> 'sh \<Rightarrow> bool" where
  "wrapper_run member answer silent fine K sh h sh' \<longleftrightarrow>
     (\<exists>kh s. k_run K (at_start K sh) kh s \<and> wrapped member answer silent kh h \<and> fine kh \<and>
        (\<forall>t. pcs s t = k_idle K) \<and> shared s = sh')"

fun same_status ::
    "('a op \<Rightarrow> 'c) \<Rightarrow> ('r \<Rightarrow> bool option) \<Rightarrow> ('c \<Rightarrow> bool) \<Rightarrow> ('c, 'r) o_status \<Rightarrow> 'a a_status \<Rightarrow> bool" where
  "same_status member answer silent OIdle st \<longleftrightarrow> st = AIdle"
| "same_status member answer silent (OPending c) st \<longleftrightarrow>
     (if silent c then st = AIdle else \<exists>x. st = APending x \<and> c = member x)"
| "same_status member answer silent (ODone r) st \<longleftrightarrow>
     st = (case answer r of None \<Rightarrow> AIdle | Some b \<Rightarrow> ADone b)"

locale wrapper =
  fixes member :: "'a op \<Rightarrow> 'c" and answer :: "'r \<Rightarrow> bool option" and silent :: "'c \<Rightarrow> bool"
    and ap :: "'c \<Rightarrow> 's \<Rightarrow> 'r \<times> 's" and start :: 's and els :: "'s \<Rightarrow> 'a set" and num :: "'s \<Rightarrow> nat"
  assumes els_start: "els start = {}"
    and applies: "ap (member x) v = (r, w) \<Longrightarrow> \<exists>b. answer r = Some b \<and> apply_op x (els v) = (b, els w)"
    and quiet_call: "silent c \<Longrightarrow> ap c v = (r, w) \<Longrightarrow> answer r = None \<and> els w = els v"
    and not_silent: "\<not> silent (member x)"
    and number: "num v = card (els v)"
begin

definition same :: "('s, 'c, 'r) object \<Rightarrow> 'a atomic \<Rightarrow> bool" where
  "same b a \<longleftrightarrow>
     a_set a = els (o_state b) \<and> (\<forall>t. same_status member answer silent (o_status b t) (a_status a t))"

lemma same_start: "same \<lparr>o_state = start, o_status = (\<lambda>_. OIdle)\<rparr> (a_init {})"
  by (simp add: same_def a_init_def els_start)

lemma same_at: "same b a \<Longrightarrow> same_status member answer silent (o_status b t) (a_status a t)"
  by (simp add: same_def)

lemma object_history:
  assumes "o_run ap \<lparr>o_state = start, o_status = (\<lambda>_. OIdle)\<rparr> kh b" "wrapped member answer silent kh h"
  shows "\<exists>a. atomic_run (a_init {}) h a \<and> same b a"
  using assms
proof (induction arbitrary: h)
  case o_here
  then have "h = []" by (auto elim: wrapped.cases)
  then show ?case using same_start atomic_start by blast
next
  case (o_called kh b1 t c)
  from o_called.prems show ?case
  proof cases
    case (w_call kh' h1 u x)
    then have h1: "c = member x" "wrapped member answer silent kh h1" "u = t" by auto
    from o_called.IH [OF h1(2)] obtain a where a: "atomic_run (a_init {}) h1 a" "same b1 a" by blast
    from same_at [OF a(2), of t] o_called.hyps(2) have "a_status a t = AIdle" by simp
    from atomic_more [OF a(1) a_call [OF this, of x]] a(2) w_call(2) h1 not_silent show ?thesis
      by (intro exI [of _ "a\<lparr>a_status := (a_status a)(t := APending x)\<rparr>"]) (auto simp: same_def)
  next
    case (w_silent_call kh' c' u)
    with o_called.IH obtain a where a: "atomic_run (a_init {}) h a" "same b1 a" by auto
    from same_at [OF a(2), of t] o_called.hyps(2) have "a_status a t = AIdle" by simp
    with a w_silent_call show ?thesis by (intro exI [of _ a]) (auto simp: same_def)
  qed auto
next
  case (o_effect kh b1 t c r w)
  from o_effect.IH [OF o_effect.prems] obtain a where a: "atomic_run (a_init {}) h a" "same b1 a" by blast
  note at = same_at [OF a(2), of t, unfolded o_effect.hyps(2)]
  show ?case
  proof (cases "silent c")
    case True
    from quiet_call [OF this o_effect.hyps(3)] at a True show ?thesis
      by (intro exI [of _ a]) (auto simp: same_def)
  next
    case False
    with at obtain x where x: "a_status a t = APending x" "c = member x" by auto
    obtain b where b: "answer r = Some b" "apply_op x (els (o_state b1)) = (b, els w)"
      using applies [of x "o_state b1" r w] o_effect.hyps(3) x(2) by auto
    then have "apply_op x (a_set a) = (b, els w)" using a(2) by (simp add: same_def)
    from atomic_silent [OF a(1) a_linearize [OF x(1) this]] a(2) b(1) show ?thesis
      by (intro exI [of _ "a\<lparr>a_set := els w, a_status := (a_status a)(t := ADone b)\<rparr>"]) (auto simp: same_def)
  qed
next
  case (o_returned kh b1 t r)
  from o_returned.prems show ?case
  proof cases
    case (w_return kh' h1 r' b u)
    then have h1: "answer r = Some b" "wrapped member answer silent kh h1" "u = t" by auto
    from o_returned.IH [OF h1(2)] obtain a where a: "atomic_run (a_init {}) h1 a" "same b1 a" by blast
    from same_at [OF a(2), of t] o_returned.hyps(2) h1(1) have "a_status a t = ADone b" by simp
    from atomic_more [OF a(1) a_return [OF this]] a(2) w_return(2) h1 show ?thesis
      by (intro exI [of _ "a\<lparr>a_status := (a_status a)(t := AIdle)\<rparr>"]) (auto simp: same_def)
  next
    case (w_silent_return kh' r' u)
    with o_returned.IH obtain a where a: "atomic_run (a_init {}) h a" "same b1 a" by auto
    from same_at [OF a(2), of t] o_returned.hyps(2) w_silent_return have "a_status a t = AIdle" by auto
    with a w_silent_return show ?thesis by (intro exI [of _ a]) (auto simp: same_def)
  qed auto
qed

lemma history:
  assumes "keeps_contract ap start num allowed K sh" "wrapper_run member answer silent fine K sh h sh'"
    and "\<And>kh. fine kh \<Longrightarrow> allowed kh"
  shows "\<exists>a. atomic_run (a_init {}) h a \<and> (\<forall>t. a_status a t = AIdle) \<and> k_size K sh' = of_nat (card (a_set a))"
proof -
  from assms(2) obtain kh s where kh: "k_run K (at_start K sh) kh s" "wrapped member answer silent kh h"
    "fine kh" "\<forall>t. pcs s t = k_idle K" "shared s = sh'" by (auto simp: wrapper_run_def)
  from assms(1) kh(1) assms(3) [OF kh(3)] kh(4,5) obtain b where
    b: "o_run ap \<lparr>o_state = start, o_status = (\<lambda>_. OIdle)\<rparr> kh b"
    and rest: "\<forall>t. o_status b t = OIdle" "k_size K sh' = of_nat (num (o_state b))"
    unfolding keeps_contract_def by blast
  from object_history [OF b kh(2)] obtain a where a: "atomic_run (a_init {}) h a" "same b a" by blast
  have "a_status a t = AIdle" for t using same_at [OF a(2), of t] rest(1) by simp
  moreover have "card (a_set a) = num (o_state b)" using a(2) number by (simp add: same_def)
  ultimately show ?thesis using a(1) rest(2) by auto
qed

end

section \<open>A container that keeps its contract\<close>

text \<open>Each member in one step, as a container under one lock would have it.\<close>

datatype ('c, 'r) simple_pc = SimpleIdle | SimpleCall 'c | SimpleDone 'r

definition simple_container ::
    "('c \<Rightarrow> 's \<Rightarrow> 'r \<times> 's) \<Rightarrow> 's \<Rightarrow> ('s \<Rightarrow> nat) \<Rightarrow> ('c, 'r, 's, ('c, 'r) simple_pc) container" where
  "simple_container ap v num =
     \<lparr>k_make = (\<lambda>_ _. v), k_idle = SimpleIdle, k_start = SimpleCall,
      k_step = (\<lambda>t s pc. case pc of SimpleCall c \<Rightarrow> (let (r, w) = ap c s in Some (w, SimpleDone r)) | _ \<Rightarrow> None),
      k_result = (\<lambda>pc. case pc of SimpleDone r \<Rightarrow> Some r | _ \<Rightarrow> None),
      k_size = (\<lambda>s. of_nat (num s))\<rparr>"

fun simple_status :: "('c, 'r) simple_pc \<Rightarrow> ('c, 'r) o_status" where
  "simple_status SimpleIdle = OIdle"
| "simple_status (SimpleCall c) = OPending c"
| "simple_status (SimpleDone r) = ODone r"

lemma simple_run:
  assumes "k_run (simple_container ap v num) s h s'"
  shows "o_run ap \<lparr>o_state = shared s, o_status = (\<lambda>t. simple_status (pcs s t))\<rparr> h
    \<lparr>o_state = shared s', o_status = (\<lambda>t. simple_status (pcs s' t))\<rparr>"
  using assms
proof induction
  case k_here
  show ?case by (rule o_here)
next
  case (k_called h s1 t c)
  from o_called [OF k_called.IH, of t c] k_called.hyps(2) show ?case
    by (simp add: simple_container_def fun_upd_def if_distrib cong: if_cong)
next
  case (k_internal h s1 t sh pc)
  then obtain c r where "pcs s1 t = SimpleCall c" "ap c (shared s1) = (r, sh)" "pc = SimpleDone r"
    by (auto simp: simple_container_def split: simple_pc.splits prod.splits)
  with o_effect [OF k_internal.IH, of t c r sh] show ?case
    by (simp add: fun_upd_def if_distrib cong: if_cong)
next
  case (k_returned h s1 t r)
  then have "pcs s1 t = SimpleDone r" by (auto simp: simple_container_def split: simple_pc.splits)
  with o_returned [OF k_returned.IH, of t r] show ?case
    by (simp add: simple_container_def fun_upd_def if_distrib cong: if_cong)
qed

lemma simple_fields:
  "k_idle (simple_container ap v num) = SimpleIdle" "k_size (simple_container ap v num) u = of_nat (num u)"
  "k_make (simple_container ap v num) t cs = v"
  by (simp_all add: simple_container_def)

lemma simple_keeps_contract: "keeps_contract ap v num allowed (simple_container ap v num) v"
proof -
  have "\<exists>b. o_run ap \<lparr>o_state = v, o_status = (\<lambda>_. OIdle)\<rparr> h b \<and>
      ((\<forall>t. pcs s t = SimpleIdle) \<longrightarrow> (\<forall>t. o_status b t = OIdle) \<and> of_nat (num (shared s)) = (of_nat (num (o_state b)) :: size_t))"
    if "k_run (simple_container ap v num) (at_start (simple_container ap v num) v) h s" for h s
    using simple_run [OF that]
    by (intro exI [of _ "\<lparr>o_state = shared s, o_status = (\<lambda>t. simple_status (pcs s t))\<rparr>"])
      (simp add: at_start_def simple_fields)
  then show ?thesis unfolding keeps_contract_def simple_fields by blast
qed

end
