(* ===== verification/Baselines.thy ===== *)
theory Baselines
  imports Benchmarks Containers
begin

text \<open>
  \<open>HashSetTbb.h\<close> and \<open>HashSetLibcds.h\<close>: wrappers around containers of oneTBB and libcds. The containers
  are not under \<open>src/\<close>: they are parameters (theory \<open>Containers\<close>), and what their documentation promises
  is a hypothesis. Between them, the guard that attaches a thread to the collector of libcds, with what
  \<open>main\<close> and the threads of a benchmark do with it: it is what lets the wrapper rely on libcds, which
  answers attached threads only.
\<close>

section \<open>HashSetTbb\<close>

text \<open>The members of \<open>concurrent_hash_map<T, char>\<close> that the wrapper calls, without accessors.\<close>

datatype 'a tbb_member = Tbb_insert "'a \<times> 8 word" | Tbb_erase 'a | Tbb_count 'a

datatype tbb_result = Tbb_bool bool | Tbb_number size_t

type_synonym ('a, 'sh, 'pc) tbb_map = "('a tbb_member, tbb_result, 'sh, 'pc) container"

definition tbb_ValidatedCapacity :: "size_t \<Rightarrow> exn + size_t" where
  "tbb_ValidatedCapacity initial_capacity =
     (if initial_capacity < 2
      then Inl (Invalid_argument ''initial capacity must be at least two'') else Inr initial_capacity)"

definition construct_tbb :: "('a, 'sh, 'pc) tbb_map \<Rightarrow> tid \<Rightarrow> size_t \<Rightarrow> exn + 'sh" where
  "construct_tbb M t initial_capacity =
     (case tbb_ValidatedCapacity initial_capacity of Inl ex \<Rightarrow> Inl ex | Inr c \<Rightarrow> Inr (k_make M t [c]))"

text \<open>The member each operation calls, and what the operation makes of its result.\<close>

fun tbb_operation :: "'a op \<Rightarrow> 'a tbb_member" where
  "tbb_operation (Add elem) = Tbb_insert (elem, 0)"
| "tbb_operation (Remove elem) = Tbb_erase elem"
| "tbb_operation (Contains elem) = Tbb_count elem"

fun tbb_answer :: "tbb_result \<Rightarrow> bool" where
  "tbb_answer (Tbb_bool b) = b"
| "tbb_answer (Tbb_number n) = (n \<noteq> 0)"

definition tbb_Size :: "('a, 'sh, 'pc) tbb_map \<Rightarrow> 'sh \<Rightarrow> size_t" where
  "tbb_Size M m = k_size M m"

text \<open>The histories after which a \<open>HashSetTbb\<close> is at rest.\<close>

definition tbb_run :: "('a, 'sh, 'pc) tbb_map \<Rightarrow> 'sh \<Rightarrow> 'a event list \<Rightarrow> 'sh \<Rightarrow> bool" where
  "tbb_run M = wrapper_run tbb_operation (\<lambda>r. Some (tbb_answer r)) (\<lambda>_. False) (\<lambda>_. True) M"

text \<open>
  What oneTBB promises: the members may run concurrently; \<open>insert\<close> adds a pair if the key is absent and
  says whether it has, \<open>erase\<close> says whether the key was present, \<open>count\<close> is 1 or 0; \<open>size\<close> is exact when
  no insertion or erasure is pending.
\<close>

fun tbb_apply :: "'a tbb_member \<Rightarrow> ('a \<rightharpoonup> 8 word) \<Rightarrow> tbb_result \<times> ('a \<rightharpoonup> 8 word)" where
  "tbb_apply (Tbb_insert p) m =
     (if m (fst p) = None then (Tbb_bool True, m(fst p \<mapsto> snd p)) else (Tbb_bool False, m))"
| "tbb_apply (Tbb_erase e) m = (Tbb_bool (m e \<noteq> None), m(e := None))"
| "tbb_apply (Tbb_count e) m = (Tbb_number (if m e = None then 0 else 1), m)"

definition tbb_contract :: "('a, 'sh, 'pc) tbb_map \<Rightarrow> bool" where
  "tbb_contract M \<longleftrightarrow>
     (\<forall>t c. keeps_contract tbb_apply Map.empty (\<lambda>m. card (dom m)) (\<lambda>_. True) M (k_make M t [c]))"

interpretation tbb: wrapper tbb_operation "\<lambda>r. Some (tbb_answer r)" "\<lambda>_. False" tbb_apply Map.empty dom
    "\<lambda>m. card (dom m)"
proof
  fix x :: "'a op" and v w r
  show "tbb_apply (tbb_operation x) v = (r, w) \<Longrightarrow>
      \<exists>b. Some (tbb_answer r) = Some b \<and> apply_op x (dom v) = (b, dom w)"
    by (cases x) (auto split: if_splits)
qed simp_all

lemma tbb_history:
  assumes "tbb_contract M" "construct_tbb M t c = Inr m" "tbb_run M m h m'"
  shows "\<exists>a. atomic_run (a_init {}) h a \<and> (\<forall>u. a_status a u = AIdle) \<and> tbb_Size M m' = of_nat (card (a_set a))"
proof -
  have "keeps_contract tbb_apply Map.empty (\<lambda>m. card (dom m)) (\<lambda>_. True) M m"
    using assms(1,2) by (auto simp: tbb_contract_def construct_tbb_def tbb_ValidatedCapacity_def split: if_splits)
  from tbb.history [OF this assms(3) [unfolded tbb_run_def]] show ?thesis by (simp add: tbb_Size_def)
qed

section \<open>The collector of libcds\<close>

text \<open>The calls one thread makes to libcds; \<open>Set_call\<close> is any call of a member of a \<open>HashSetLibcds\<close>.\<close>

datatype cds_call =
    Cds_Initialize
  | Dhp_make
  | Attach_thread
  | Set_call
  | Detach_thread
  | Dhp_destroy
  | Cds_Terminate

definition reclaimer_made :: "cds_call list" where
  "reclaimer_made = [Cds_Initialize, Dhp_make]"

definition reclaimer_gone :: "cds_call list" where
  "reclaimer_gone = [Dhp_destroy, Cds_Terminate]"

text \<open>The constructor and the destructor of \<open>LibcdsGuard\<close>, on the thread-local \<open>depth_\<close>.\<close>

definition guard_made :: "size_t \<Rightarrow> size_t \<times> cds_call list" where
  "guard_made depth = (depth + 1, if depth = 0 then [Attach_thread] else [])"

definition guard_gone :: "size_t \<Rightarrow> size_t \<times> cds_call list" where
  "guard_gone depth = (depth - 1, if depth - 1 = 0 then [Detach_thread] else [])"

text \<open>What a thread does with guards and sets, and the calls to libcds that come of it.\<close>

datatype guard_use = Make_guard | Use_set | End_guard

fun guard_uses :: "guard_use list \<Rightarrow> size_t \<Rightarrow> size_t \<times> cds_call list" where
  "guard_uses [] depth = (depth, [])"
| "guard_uses (u # us) depth =
     (let (depth, calls) =
            (case u of
               Make_guard \<Rightarrow> guard_made depth
             | Use_set \<Rightarrow> (depth, [Set_call])
             | End_guard \<Rightarrow> guard_gone depth);
          (depth, more) = guard_uses us depth
      in (depth, calls @ more))"

text \<open>
  \<open>main\<close> with the baselines: a reclaimer and a guard around everything the main thread does in the
  benchmarks (\<open>us\<close>), both gone in the reverse order; nothing when an argument is not recognized.
\<close>

definition main_calls :: "bool \<Rightarrow> guard_use list \<Rightarrow> cds_call list" where
  "main_calls unrecognized_arguments us =
     (if unrecognized_arguments then []
      else reclaimer_made @ snd (guard_uses (Make_guard # us @ [End_guard]) 0) @ reclaimer_gone)"

text \<open>
  \<open>RunScenario\<close> in any other thread: the \<open>ThreadGuard\<close> of a \<open>HashSetLibcds\<close> is a guard around the whole
  of its work.
\<close>

definition thread_calls :: "guard_use list \<Rightarrow> cds_call list" where
  "thread_calls us = snd (guard_uses (Make_guard # us @ [End_guard]) 0)"

section \<open>What libcds asks of its client\<close>

text \<open>
  The documented protocol, for one thread: the library is initialized before the collector is made; a
  thread is attached only while there is a collector and calls a set only while it is attached; the
  collector is destroyed when the thread has detached, and the library is terminated after that.
  Attaching again changes nothing, detaching always detaches.
\<close>

datatype cds_state = Off | Initialized | Collecting bool

fun cds_next :: "cds_state \<Rightarrow> cds_call \<Rightarrow> cds_state option" where
  "cds_next Off Cds_Initialize = Some Initialized"
| "cds_next Initialized Dhp_make = Some (Collecting False)"
| "cds_next (Collecting b) Attach_thread = Some (Collecting True)"
| "cds_next (Collecting True) Set_call = Some (Collecting True)"
| "cds_next (Collecting b) Detach_thread = Some (Collecting False)"
| "cds_next (Collecting False) Dhp_destroy = Some Initialized"
| "cds_next Initialized Cds_Terminate = Some Off"
| "cds_next _ _ = None"

fun cds_run :: "cds_state \<Rightarrow> cds_call list \<Rightarrow> cds_state option" where
  "cds_run st [] = Some st"
| "cds_run st (c # cs) = (case cds_next st c of None \<Rightarrow> None | Some st \<Rightarrow> cds_run st cs)"

text \<open>How many guards of the thread are alive; \<open>None\<close> when one ends that was not made, or a set is used without one.\<close>

fun guards_alive :: "guard_use list \<Rightarrow> nat \<Rightarrow> nat option" where
  "guards_alive [] k = Some k"
| "guards_alive (Make_guard # us) k = guards_alive us (Suc k)"
| "guards_alive (Use_set # us) k = (if k = 0 then None else guards_alive us k)"
| "guards_alive (End_guard # us) k = (case k of 0 \<Rightarrow> None | Suc j \<Rightarrow> guards_alive us j)"

lemma cds_run_append:
  "cds_run st (cs @ ds) = (case cds_run st cs of None \<Rightarrow> None | Some st \<Rightarrow> cds_run st ds)"
  by (induction cs arbitrary: st) (auto split: option.splits)

text \<open>The thread is attached exactly while it has a guard.\<close>

lemma guard_uses_run:
  assumes "guards_alive us k = Some j" "k + length us < 2 ^ 64"
  shows "unat (fst (guard_uses us (of_nat k))) = j \<and>
    cds_run (Collecting (0 < k)) (snd (guard_uses us (of_nat k))) = Some (Collecting (0 < j))"
  using assms
proof (induction us arbitrary: k)
  case Nil
  then show ?case by (simp add: unat_of_nat_size)
next
  case (Cons u us)
  have zero: "(of_nat i :: size_t) = 0 \<longleftrightarrow> i = 0" if "i \<le> k" for i
  proof -
    have "i < 2 ^ 64" using that Cons.prems(2) by linarith
    then have "unat (of_nat i :: size_t) = i" by (rule unat_of_nat_size)
    then show ?thesis by (metis unat_eq_0 of_nat_0)
  qed
  show ?case
  proof (cases u)
    case Make_guard
    obtain d cs where us: "guard_uses us (of_nat (Suc k)) = (d, cs)" by (cases "guard_uses us (of_nat (Suc k))")
    from Cons.IH [of "Suc k"] Cons.prems Make_guard us have
      IH: "unat d = j" "cds_run (Collecting True) cs = Some (Collecting (0 < j))" by simp_all
    have "guard_uses (u # us) (of_nat k) = (d, (if k = 0 then [Attach_thread] else []) @ cs)"
      using us zero [of k] by (simp add: Make_guard guard_made_def add.commute)
    with IH show ?thesis by simp
  next
    case Use_set
    obtain d cs where us: "guard_uses us (of_nat k) = (d, cs)" by (cases "guard_uses us (of_nat k)")
    from Cons.prems(1) Use_set have k: "0 < k" "guards_alive us k = Some j" by (simp_all split: if_splits)
    with Cons.IH [of k] Cons.prems(2) us show ?thesis by (simp add: Use_set)
  next
    case End_guard
    with Cons.prems(1) obtain i where k: "k = Suc i" "guards_alive us i = Some j" by (auto split: nat.splits)
    obtain d cs where us: "guard_uses us (of_nat i) = (d, cs)" by (cases "guard_uses us (of_nat i)")
    from Cons.IH [of i] Cons.prems(2) k us have
      IH: "unat d = j" "cds_run (Collecting (0 < i)) cs = Some (Collecting (0 < j))" by simp_all
    have "guard_uses (u # us) (of_nat k) = (d, (if i = 0 then [Detach_thread] else []) @ cs)"
      using us zero [of i] by (simp add: End_guard guard_gone_def k(1))
    then have "fst (guard_uses (u # us) (of_nat k)) = d"
      "snd (guard_uses (u # us) (of_nat k)) = (if i = 0 then [Detach_thread] else []) @ cs" by simp_all
    moreover have "cds_run (Collecting (0 < k)) ((if i = 0 then [Detach_thread] else []) @ cs) =
        Some (Collecting (0 < j))" using IH(2) k(1) by (cases "i = 0") simp_all
    ultimately show ?thesis using IH(1) by presburger
  qed
qed

section \<open>HashSetLibcds\<close>

text \<open>
  The members of \<open>SplitListSet\<close> that the wrapper calls, all of which return a boolean, and the calls of
  the guards.
\<close>

datatype 'a cds_member = Cds_insert 'a | Cds_erase 'a | Cds_contains 'a | Cds_attach | Cds_detach

datatype cds_result = Cds_bool bool | Cds_void

type_synonym ('a, 'sh, 'pc) split_list_set = "('a cds_member, cds_result, 'sh, 'pc) container"

definition kLoadFactor :: size_t where
  "kLoadFactor = 1"

definition cds_ValidatedCapacity :: "size_t \<Rightarrow> exn + size_t" where
  "cds_ValidatedCapacity max_capacity =
     (if max_capacity < 2
      then Inl (Invalid_argument ''max capacity must be at least two'') else Inr max_capacity)"

definition construct_cds :: "('a, 'sh, 'pc) split_list_set \<Rightarrow> tid \<Rightarrow> size_t \<Rightarrow> exn + 'sh" where
  "construct_cds L t max_capacity =
     (case cds_ValidatedCapacity max_capacity of Inl ex \<Rightarrow> Inl ex | Inr c \<Rightarrow> Inr (k_make L t [c, kLoadFactor]))"

fun cds_operation :: "'a op \<Rightarrow> 'a cds_member" where
  "cds_operation (Add elem) = Cds_insert elem"
| "cds_operation (Remove elem) = Cds_erase elem"
| "cds_operation (Contains elem) = Cds_contains elem"

fun cds_answer :: "cds_result \<Rightarrow> bool option" where
  "cds_answer (Cds_bool b) = Some b"
| "cds_answer Cds_void = None"

definition cds_Size :: "('a, 'sh, 'pc) split_list_set \<Rightarrow> 'sh \<Rightarrow> size_t" where
  "cds_Size L m = k_size L m"

text \<open>The calls of one thread in a history of the container, as \<open>cds_call\<close>s.\<close>

fun call_of_member :: "'a cds_member \<Rightarrow> cds_call" where
  "call_of_member Cds_attach = Attach_thread"
| "call_of_member Cds_detach = Detach_thread"
| "call_of_member c = Set_call"

fun calls_by :: "tid \<Rightarrow> ('a cds_member, cds_result) k_event list \<Rightarrow> cds_call list" where
  "calls_by t [] = []"
| "calls_by t (KCall u c # h) = (if u = t then [call_of_member c] else []) @ calls_by t h"
| "calls_by t (KReturn u r # h) = calls_by t h"

text \<open>
  What libcds asks: the thread that has made the set is attached, the others are not, and from there on
  every thread keeps to the protocol. What the threads of a run do: they construct and destroy guards
  and use the set while they have one; the main thread has one from the beginning.
\<close>

definition attached :: "tid \<Rightarrow> ('a cds_member, cds_result) k_event list \<Rightarrow> bool" where
  "attached main h \<longleftrightarrow> (\<forall>t. cds_run (Collecting (t = main)) (calls_by t h) \<noteq> None)"

definition guarded_calls :: "tid \<Rightarrow> ('a cds_member, cds_result) k_event list \<Rightarrow> bool" where
  "guarded_calls main h \<longleftrightarrow>
     (\<forall>t. \<exists>us. guards_alive us (if t = main then 1 else 0) \<noteq> None \<and> length us + 1 < 2 ^ 64 \<and>
        calls_by t h = snd (guard_uses us (if t = main then 1 else 0)))"

text \<open>The guards keep the protocol of libcds.\<close>

lemma guarded_attached:
  assumes "guarded_calls main h"
  shows "attached main h"
  unfolding attached_def
proof
  fix t
  from assms obtain us j where us: "guards_alive us (if t = main then 1 else 0) = Some j" "length us + 1 < 2 ^ 64"
    "calls_by t h = snd (guard_uses us (if t = main then 1 else 0))" unfolding guarded_calls_def by blast
  let ?k = "if t = main then 1 else 0 :: nat"
  have k: "(if t = main then 1 else 0) = (of_nat ?k :: size_t)" "(0 < ?k) = (t = main)" by simp_all
  have "?k + length us < 2 ^ 64" using us(2) by simp
  from guard_uses_run [OF us(1) this] us(3)
  show "cds_run (Collecting (t = main)) (calls_by t h) \<noteq> None" unfolding k by simp
qed

definition cds_set_run ::
    "tid \<Rightarrow> ('a, 'sh, 'pc) split_list_set \<Rightarrow> 'sh \<Rightarrow> 'a event list \<Rightarrow> 'sh \<Rightarrow> bool" where
  "cds_set_run main L =
     wrapper_run cds_operation cds_answer (\<lambda>c. c = Cds_attach \<or> c = Cds_detach) (guarded_calls main) L"

text \<open>
  What libcds promises to attached threads: the members may run concurrently, \<open>insert\<close> says whether the
  element was absent, \<open>erase\<close> and \<open>contains\<close> whether it was present; \<open>size\<close> is exact at rest with the
  counter \<open>cds::atomicity::item_counter\<close>, which the wrapper asks for.
\<close>

fun cds_apply :: "'a cds_member \<Rightarrow> 'a set \<Rightarrow> cds_result \<times> 'a set" where
  "cds_apply (Cds_insert e) A = (Cds_bool (e \<notin> A), insert e A)"
| "cds_apply (Cds_erase e) A = (Cds_bool (e \<in> A), A - {e})"
| "cds_apply (Cds_contains e) A = (Cds_bool (e \<in> A), A)"
| "cds_apply c A = (Cds_void, A)"

definition cds_contract :: "('a, 'sh, 'pc) split_list_set \<Rightarrow> bool" where
  "cds_contract L \<longleftrightarrow>
     (\<forall>t c. keeps_contract cds_apply {} card (attached t) L (k_make L t [c, kLoadFactor]))"

interpretation cds: wrapper cds_operation cds_answer "\<lambda>c. c = Cds_attach \<or> c = Cds_detach" cds_apply "{}" "\<lambda>A. A" card
proof
  fix x :: "'a op" and v w r and c :: "'a cds_member"
  show "cds_apply (cds_operation x) v = (r, w) \<Longrightarrow> \<exists>b. cds_answer r = Some b \<and> apply_op x v = (b, w)"
    by (cases x) auto
  show "c = Cds_attach \<or> c = Cds_detach \<Longrightarrow> cds_apply c v = (r, w) \<Longrightarrow> cds_answer r = None \<and> w = v" by auto
  show "\<not> (cds_operation x = Cds_attach \<or> cds_operation x = Cds_detach)" by (cases x) auto
qed simp_all

lemma cds_history:
  assumes "cds_contract L" "construct_cds L main c = Inr l" "cds_set_run main L l h l'"
  shows "\<exists>a. atomic_run (a_init {}) h a \<and> (\<forall>u. a_status a u = AIdle) \<and> cds_Size L l' = of_nat (card (a_set a))"
proof -
  have "keeps_contract cds_apply {} card (attached main) L l"
    using assms(1,2) by (auto simp: cds_contract_def construct_cds_def cds_ValidatedCapacity_def split: if_splits)
  from cds.history [OF this assms(3) [unfolded cds_set_run_def] guarded_attached] show ?thesis
    by (simp add: cds_Size_def)
qed

section \<open>Properties\<close>

text \<open>
  C31 (safety): the main thread keeps to the protocol of libcds, whatever guards it makes within its
  own, as a benchmark with one thread does: as long as guards end that were made, in any nesting, the
  thread is attached whenever it calls a set, although libcds detaches unconditionally; the collector
  is made after the library is initialized and destroyed when the thread has detached; and the library
  ends as it began. Every other thread of a benchmark finds the collector there, calls sets only while
  it is attached, and is detached when it ends.
\<close>

theorem main_keeps_protocol:
  assumes "guards_alive us 1 = Some 1" "length us + 2 < 2 ^ 64"
  shows "cds_run Off (main_calls unrecognized us) = Some Off \<and>
    fst (guard_uses (Make_guard # us @ [End_guard]) 0) = 0 \<and>
    cds_run (Collecting False) (thread_calls us) = Some (Collecting False)"
proof -
  have "guards_alive (us @ vs) k = (case guards_alive us k of None \<Rightarrow> None | Some k \<Rightarrow> guards_alive vs k)" for vs k
    by (induction us k rule: guards_alive.induct) (auto split: nat.splits)
  then have "guards_alive (Make_guard # us @ [End_guard]) 0 = Some 0" using assms(1) by simp
  from guard_uses_run [OF this] assms(2) have
    "unat (fst (guard_uses (Make_guard # us @ [End_guard]) 0)) = 0"
    "cds_run (Collecting False) (snd (guard_uses (Make_guard # us @ [End_guard]) 0)) = Some (Collecting False)"
    by simp_all
  then show ?thesis
    by (simp only: main_calls_def thread_calls_def reclaimer_made_def reclaimer_gone_def cds_run_append unat_eq_0)
      (simp add: cds_run_append del: guard_uses.simps)
qed

section \<open>Witnesses\<close>

theorem main_keeps_protocol_witness:
  "cds_run Off (main_calls False [Use_set, Make_guard, Use_set, End_guard, Use_set]) = Some Off"
  using main_keeps_protocol [of "[Use_set, Make_guard, Use_set, End_guard, Use_set]" False] by simp

text \<open>Containers with one step per member, which keep their contracts.\<close>

definition simple_tbb :: "('a, 'a \<rightharpoonup> 8 word, ('a tbb_member, tbb_result) simple_pc) tbb_map" where
  "simple_tbb = simple_container tbb_apply Map.empty (\<lambda>m. card (dom m))"

definition simple_cds :: "('a, 'a set, ('a cds_member, cds_result) simple_pc) split_list_set" where
  "simple_cds = simple_container cds_apply {} card"

lemma simple_contracts: "tbb_contract simple_tbb" "cds_contract simple_cds"
  unfolding tbb_contract_def cds_contract_def simple_tbb_def simple_cds_def simple_fields
  by (simp_all add: simple_keeps_contract)

end
