(* ===== verification/BenchmarkMain.thy ===== *)
theory BenchmarkMain
  imports Baselines HashSetCoarseGrained HashSetStriped HashSetRefinable HashSetReclaimed
begin

text \<open>
  The runs \<open>main\<close> of \<open>benchmarks.cc\<close> makes: each registered benchmark on a set of its kind, one after the
  other, with the variables of the file carried from run to run. Which of them run, how often and in
  which order is up to the benchmark library.
\<close>

text \<open>
  The runs of the lock-free set over its reclaimer that come to rest, guards and all. They are those in
  which every guard announces the current epoch: after a stale announcement a thread can read a freed
  node (\<open>ReclaimedStale\<close>), and then nothing is known of the run. An operation that an exception has left
  never comes to rest; in the benchmark it ends the program.
\<close>

definition reclaimed_run ::
    "(size_t \<Rightarrow> size_t) \<Rightarrow> size_t reclaimed \<Rightarrow> size_t event list \<Rightarrow> size_t reclaimed \<Rightarrow> bool" where
  "reclaimed_run hash s h s' \<longleftrightarrow>
     (\<exists>ms. rc_run hash 0 ms s = Some (h, s') \<and> rc_timely hash 0 ms s \<and> (\<forall>t. pcs (rc_set s') t = HIdle))"

definition rc_Size :: "'a reclaimed \<Rightarrow> size_t" where
  "rc_Size s = lf_Size (shared (rc_set s))"

text \<open>
  The run of one registration. \<open>name\<close> is \<open>state.name()\<close>; \<open>hash\<close> is \<open>std::hash<std::size_t>\<close>; \<open>mem\<close> bounds an
  allocation of the refinable set; \<open>M\<close> and \<open>L\<close> are the containers of oneTBB and libcds. The main thread
  makes the set; \<open>membarrier\<close> can be registered.
\<close>

definition run_registered ::
    "(size_t \<Rightarrow> size_t) \<Rightarrow> nat \<Rightarrow> (size_t, 'm, 'p) tbb_map \<Rightarrow> (size_t, 'l, 'q) split_list_set \<Rightarrow>
     tid \<Rightarrow> registration \<Rightarrow> string \<Rightarrow> globals \<Rightarrow> globals \<Rightarrow> bool" where
  "run_registered hash mem M L main reg name g g' \<longleftrightarrow>
     (let sc = reg_scenario reg; n = reg_threads reg; args = MakeHashSet (reg_kind reg) sc
      in case reg_kind reg of
           Coarse_grained \<Rightarrow> \<exists>s0 sh. construct_coarse (args ! 0) = Inr s0 \<and>
             benchmark sc n main name (rest_run (coarse_program hash)) cg_Size s0 sh g g'
         | Striped \<Rightarrow> \<exists>s0 sh. construct_striped (args ! 0) = Inr s0 \<and>
             benchmark sc n main name (rest_run (striped_program hash)) st_Size s0 sh g g'
         | Refinable \<Rightarrow> \<exists>s0 sh. construct_refinable mem (args ! 0) = Some (Inr s0) \<and>
             benchmark sc n main name (rest_run (refinable_program hash mem)) rf_Size s0 sh g g'
         | Lock_free \<Rightarrow> \<exists>s0 sh. construct_reclaimed 0 main True (args ! 0) (args ! 1) = Inr s0 \<and>
             benchmark sc n main name (reclaimed_run hash) rc_Size s0 sh g g'
         | Tbb \<Rightarrow> \<exists>s0 sh. construct_tbb M main (args ! 0) = Inr s0 \<and>
             benchmark sc n main name (tbb_run M) (tbb_Size M) s0 sh g g'
         | Libcds \<Rightarrow> \<exists>s0 sh. construct_cds L main (args ! 0) = Inr s0 \<and>
             benchmark sc n main name (cds_set_run main L) (cds_Size L) s0 sh g g')"

fun run_all ::
    "(size_t \<Rightarrow> size_t) \<Rightarrow> nat \<Rightarrow> (size_t, 'm, 'p) tbb_map \<Rightarrow> (size_t, 'l, 'q) split_list_set \<Rightarrow>
     tid \<Rightarrow> (registration \<times> string) list \<Rightarrow> globals \<Rightarrow> globals \<Rightarrow> bool" where
  "run_all hash mem M L main [] g g' \<longleftrightarrow> g' = g"
| "run_all hash mem M L main ((reg, name) # runs) g g' \<longleftrightarrow>
     (\<exists>g1. run_registered hash mem M L main reg name g g1 \<and> run_all hash mem M L main runs g1 g')"

text \<open>Whether the constructor accepts the arguments of \<open>MakeHashSet\<close>.\<close>

definition set_made ::
    "nat \<Rightarrow> (size_t, 'm, 'p) tbb_map \<Rightarrow> (size_t, 'l, 'q) split_list_set \<Rightarrow> tid \<Rightarrow> registration \<Rightarrow> bool" where
  "set_made mem M L main reg \<longleftrightarrow>
     (let args = MakeHashSet (reg_kind reg) (reg_scenario reg)
      in case reg_kind reg of
           Coarse_grained \<Rightarrow> \<exists>s0 :: size_t coarse. construct_coarse (args ! 0) = Inr s0
         | Striped \<Rightarrow> \<exists>s0 :: size_t striped. construct_striped (args ! 0) = Inr s0
         | Refinable \<Rightarrow> \<exists>s0 :: size_t refinable. construct_refinable mem (args ! 0) = Some (Inr s0)
         | Lock_free \<Rightarrow> \<exists>s0. construct_reclaimed (0 :: size_t) main True (args ! 0) (args ! 1) = Inr s0
         | Tbb \<Rightarrow> \<exists>s0. construct_tbb M main (args ! 0) = Inr s0
         | Libcds \<Rightarrow> \<exists>s0. construct_cds L main (args ! 0) = Inr s0)"

end
