(* ===== verification/AtomicHistory.thy ===== *)
theory AtomicHistory
  imports SizeCount Benchmarks
begin

text \<open>
  Histories of the atomic set that a benchmark makes: the calls of one thread, one after the other, and
  then the loops of the threads. The counts of the threads account for the number of elements. The
  locale \<open>exact_at_rest\<close> is what a benchmark relies on in the set under test.
\<close>

section \<open>Sequential histories\<close>

lemma atomic_run_append:
  assumes "atomic_run s (h1 @ h2) a"
  shows "\<exists>a1. atomic_run s h1 a1 \<and> atomic_run a1 h2 a"
proof -
  have "\<exists>a1. atomic_run s h1 a1 \<and> atomic_run a1 h2 a" if "atomic_run s h a" "h = h1 @ h2" for h
    using that
  proof (induction arbitrary: h2)
    case atomic_start
    then show ?case by (auto intro: atomic_run.atomic_start)
  next
    case (atomic_more h s1 l s2)
    show ?case
    proof (cases "l = None \<or> h2 \<noteq> []")
      case True
      then obtain h2' where h2': "h = h1 @ h2'" "h2 = h2' @ visible l"
      proof (cases l)
        case None
        with atomic_more.prems that show thesis by simp
      next
        case (Some e)
        with True obtain h3 e1 where "h2 = h3 @ [e1]" by (metis option.distinct(1) rev_exhaust)
        with atomic_more.prems Some that show thesis by simp
      qed
      from atomic_more.IH [OF h2'(1)] obtain a1 where "atomic_run s h1 a1" "atomic_run a1 h2' s1" by blast
      with atomic_run.atomic_more [OF _ atomic_more.hyps(2), of a1 h2'] h2'(2) show ?thesis by blast
    next
      case False
      with atomic_more.prems have "h1 = h @ visible l" "h2 = []" by simp_all
      with atomic_run.atomic_more [OF atomic_more.hyps] atomic_run.atomic_start show ?thesis by blast
    qed
  qed
  with assms show ?thesis by blast
qed

definition quiet :: "'a atomic \<Rightarrow> bool" where
  "quiet a \<longleftrightarrow> (\<forall>t. a_status a t = AIdle)"

text \<open>The states of the atomic set around one call of an otherwise quiet set.\<close>

definition one_call :: "'a atomic \<Rightarrow> tid \<Rightarrow> 'a op \<Rightarrow> bool \<Rightarrow> 'a event list \<Rightarrow> 'a atomic \<Rightarrow> bool" where
  "one_call a t x r h b \<longleftrightarrow>
     (\<forall>u. u \<noteq> t \<longrightarrow> a_status b u = AIdle) \<and>
     (h = [] \<longrightarrow> a_set b = a_set a \<and> a_status b t = AIdle) \<and>
     (h = [Call t x] \<longrightarrow> a_set b = a_set a \<and> a_status b t = APending x \<or>
        (\<exists>r'. a_status b t = ADone r' \<and> apply_op x (a_set a) = (r', a_set b))) \<and>
     (h = [Call t x, Return t r] \<longrightarrow> a_status b t = AIdle \<and> apply_op x (a_set a) = (r, a_set b))"

lemma one_call_prefix:
  assumes "atomic_run a h b" "quiet a" "h @ h' = [Call t x, Return t r]"
  shows "one_call a t x r h b"
  using assms(1,3)
proof (induction arbitrary: h')
  case atomic_start
  with assms(2) show ?case by (simp add: one_call_def quiet_def)
next
  case (atomic_more h s1 l s2)
  from atomic_more.prems have "h @ (visible l @ h') = [Call t x, Return t r]" by simp
  from atomic_more.IH [OF this] have c: "one_call a t x r h s1" .
  from atomic_more.prems have h: "h = [] \<or> h = [Call t x] \<or> h = [Call t x, Return t r]"
    by (auto simp: append_eq_Cons_conv)
  from atomic_more.hyps(2) show ?case
  proof cases
    case (a_call u y)
    with h atomic_more.prems have "h = []" "u = t" "y = x" by auto
    with c a_call show ?thesis by (simp add: one_call_def)
  next
    case (a_linearize u y r' A)
    have ut: "u = t" using c a_linearize(3) unfolding one_call_def by (metis a_status.distinct(1))
    then have "h = [Call t x]" using c h a_linearize(3) by (auto simp: one_call_def)
    moreover from this ut have "y = x" using c a_linearize(3) by (auto simp: one_call_def)
    moreover note ut
    ultimately have "h = [Call t x]" "u = t" "y = x" by simp_all
    with c a_linearize show ?thesis by (auto simp: one_call_def)
  next
    case (a_return u r')
    with h atomic_more.prems have "h = [Call t x]" "u = t" "r' = r" by auto
    with c a_return show ?thesis by (simp add: one_call_def)
  qed
qed

lemma one_call_result:
  assumes "atomic_run a [Call t x, Return t r] b" "quiet a"
  shows "quiet b" "apply_op x (a_set a) = (r, a_set b)"
proof -
  have c: "one_call a t x r [Call t x, Return t r] b" using one_call_prefix [OF assms, of "[]"] by simp
  then show "quiet b" unfolding quiet_def one_call_def by metis
  from c show "apply_op x (a_set a) = (r, a_set b)" by (simp add: one_call_def)
qed

lemma no_call_quiet:
  assumes "atomic_run a h b" "h = []" "quiet a"
  shows "b = a"
  using assms
proof (induction)
  case (atomic_more h s1 l s2)
  then have "s1 = a" "l = None" by (auto simp: visible_def split: option.splits)
  with atomic_more.hyps(2) atomic_more.prems show ?case by (auto simp: quiet_def elim: atomic_step.cases)
qed simp

text \<open>The calls of one thread give the results of the mathematical set.\<close>

lemma calls_of_results:
  assumes "atomic_run a (calls_of t xs rs) b" "quiet a" "length rs = length xs"
  shows "quiet b \<and> apply_ops xs (a_set a) = (rs, a_set b)"
  using assms(3,1,2)
proof (induction rs xs arbitrary: a rule: list_induct2)
  case Nil
  then show ?case using no_call_quiet [of a "[]" b] by simp
next
  case (Cons r rs x xs)
  then have "atomic_run a ([Call t x, Return t r] @ calls_of t xs rs) b" by simp
  from atomic_run_append [OF this] obtain a1 where
    a1: "atomic_run a [Call t x, Return t r] a1" "atomic_run a1 (calls_of t xs rs) b" by blast
  note one = one_call_result [OF a1(1) Cons.prems(2)]
  from Cons.IH [OF a1(2) one(1)] one(2) show ?case by simp
qed

lemma apply_ops_adds:
  "distinct es \<Longrightarrow> set es \<inter> A = {} \<Longrightarrow> apply_ops (map Add es) A = (replicate (length es) True, A \<union> set es)"
  by (induction es arbitrary: A) auto

lemma prefill_distinct: "distinct (prefill_elems sc)"
proof -
  have "inj_on (of_nat :: nat \<Rightarrow> size_t) {0..<unat (sc_keys sc)}"
  proof (rule inj_onI)
    fix i j assume ij: "i \<in> {0..<unat (sc_keys sc)}" "j \<in> {0..<unat (sc_keys sc)}" "(of_nat i :: size_t) = of_nat j"
    have "i < 2 ^ 64" "j < 2 ^ 64" using ij(1,2) unat_size_less [of "sc_keys sc"] less_trans by auto
    with ij(3) show "i = j" by (metis unat_of_nat_size)
  qed
  then show ?thesis by (simp add: prefill_elems_def distinct_map)
qed

section \<open>The counts of the threads\<close>

definition net :: "worker \<Rightarrow> size_t" where
  "net w = w_added w - w_removed w"

lemma finish_workers:
  "g_added (fold (\<lambda>t. finish_worker (ws t)) [0..<n] g) - g_removed (fold (\<lambda>t. finish_worker (ws t)) [0..<n] g) =
     g_added g - g_removed g + (\<Sum>t<n. net (ws t))"
  "g_initial_size (fold (\<lambda>t. finish_worker (ws t)) [0..<n] g) = g_initial_size g"
  "g_check_failed (fold (\<lambda>t. finish_worker (ws t)) [0..<n] g) = g_check_failed g"
  "g_errors (fold (\<lambda>t. finish_worker (ws t)) [0..<n] g) = g_errors g"
  by (induction n) (simp_all add: finish_worker_def net_def algebra_simps)

lemma net_upd:
  fixes ws :: "tid \<Rightarrow> worker"
  assumes "t < n"
  shows "(\<Sum>u<n. net ((ws(t := w)) u)) = (\<Sum>u<n. net (ws u)) + net w - net (ws t)"
proof -
  have t: "t \<in> {..<n}" "finite {..<n}" using assms by simp_all
  have "(\<Sum>u\<in>{..<n} - {t}. net ((ws(t := w)) u)) = (\<Sum>u\<in>{..<n} - {t}. net (ws u))"
    by (rule sum.cong) auto
  then show ?thesis
    using sum.remove [OF t(2,1), of "\<lambda>u. net ((ws(t := w)) u)"] sum.remove [OF t(2,1), of "\<lambda>u. net (ws u)"]
    by (simp add: algebra_simps)
qed

lemma net_take_result: "net (take_result x r w) = net w + (if r then weight x else 0)"
  by (cases x) (auto simp: take_result_def net_def)

lemma run_events_snoc:
  "run_events n steps (h @ [e]) ws =
     (case run_events n steps h ws of None \<Rightarrow> None | Some ws \<Rightarrow> run_event n steps e ws)"
  by (induction h arbitrary: ws) (auto split: option.splits)

lemma apply_op_weight:
  assumes "apply_op x A = (r, B)" "finite A"
  shows "(of_nat (card B) :: size_t) = of_nat (card A) + (if r then weight x else 0)"
proof (cases "updates x A")
  case True
  with updates_weight [OF True assms(2)] updates_apply [OF True] assms(1) show ?thesis by simp
next
  case False
  then obtain b where b: "read_result x (op_elem x \<in> A) = Some b" by (auto simp: updates_def)
  with read_result_apply [OF b] assms(1) read_weight [of x] show ?thesis by auto
qed

text \<open>What a thread owes: the weight of an operation that has taken effect but not returned.\<close>

definition due_of :: "size_t op option \<Rightarrow> size_t a_status \<Rightarrow> size_t" where
  "due_of x st = (case st of ADone True \<Rightarrow> (case x of Some x \<Rightarrow> weight x | None \<Rightarrow> 0) | _ \<Rightarrow> 0)"

definition tally ::
    "nat \<Rightarrow> (tid \<Rightarrow> step list) \<Rightarrow> size_t \<Rightarrow> (tid \<Rightarrow> worker) \<Rightarrow> size_t atomic \<Rightarrow> bool" where
  "tally n steps base ws a \<longleftrightarrow>
     finite (a_set a) \<and>
     (\<forall>t x. a_status a t = APending x \<longrightarrow> next_call (steps t) (ws t) = Some x) \<and>
     counted (base + (\<Sum>t<n. net (ws t))) (\<lambda>t. due_of (next_call (steps t) (ws t)) (a_status a t)) (a_set a)"

lemma tally_step:
  assumes ta: "tally n steps base ws a" and st: "atomic_step a l b"
    and ev: "case l of None \<Rightarrow> ws' = ws | Some e \<Rightarrow> run_event n steps e ws = Some ws'"
  shows "tally n steps base ws' b"
  using st
proof cases
  case (a_call t x)
  then have ws: "ws' = ws" "next_call (steps t) (ws t) = Some x" using ev by (auto split: if_splits)
  have "(\<lambda>u. due_of (next_call (steps u) (ws u)) (a_status b u)) =
      (\<lambda>u. due_of (next_call (steps u) (ws u)) (a_status a u))"
    using a_call by (auto simp: due_of_def)
  with ta a_call ws show ?thesis by (auto simp: tally_def)
next
  case (a_linearize t x r A)
  then have ws: "ws' = ws" "next_call (steps t) (ws t) = Some x" using ev ta by (auto simp: tally_def)
  let ?d = "\<lambda>u. due_of (next_call (steps u) (ws u)) (a_status a u)"
  have fin: "finite (a_set a)" using ta by (simp add: tally_def)
  have d: "(\<lambda>u. due_of (next_call (steps u) (ws u)) (a_status b u)) = ?d(t := if r then weight x else 0)"
    using a_linearize ws(2) by (auto simp: due_of_def)
  have "counted (base + (\<Sum>t<n. net (ws t))) (?d(t := if r then weight x else 0)) A"
    using ta by (intro counted_step [of "base + (\<Sum>t<n. net (ws t))" ?d "a_set a"])
      (simp_all add: tally_def apply_op_weight [OF a_linearize(4) fin] due_of_def a_linearize(3))
  moreover have "finite A" using apply_op_finite [OF fin, of x] a_linearize(4) by simp
  ultimately show ?thesis using ta a_linearize(2,3) ws(1) d by (auto simp: tally_def)
next
  case (a_return t r)
  then obtain x where x: "t < n" "next_call (steps t) (ws t) = Some x" "ws' = ws(t := take_result x r (ws t))"
    using ev by (auto split: if_splits)
  let ?d = "\<lambda>u. due_of (next_call (steps u) (ws u)) (a_status a u)"
  have d: "(\<lambda>u. due_of (next_call (steps u) (ws' u)) (a_status b u)) = ?d(t := 0)"
    using a_return x(3) by (auto simp: due_of_def)
  have "?d t = (if r then weight x else 0)" using a_return x(2) by (simp add: due_of_def)
  then have "counted (base + (\<Sum>t<n. net (ws' t))) (?d(t := 0)) (a_set a)"
    using ta unfolding x(3) net_upd [OF x(1)] net_take_result
    by (intro counted_step [of "base + (\<Sum>t<n. net (ws t))" ?d "a_set a"]) (simp_all add: tally_def)
  with ta a_return x(3) d show ?thesis by (auto simp: tally_def)
qed

lemma tally_run:
  assumes "atomic_run a h b" "tally n steps base ws a" "run_events n steps h ws = Some ws'"
  shows "tally n steps base ws' b"
  using assms
proof (induction arbitrary: ws')
  case (atomic_more h s1 l s2)
  show ?case
  proof (cases l)
    case None
    with atomic_more have "tally n steps base ws' s1" by simp
    from tally_step [OF this atomic_more.hyps(2)] None show ?thesis by simp
  next
    case (Some e)
    with atomic_more.prems(2) obtain ws1 where
      ws1: "run_events n steps h ws = Some ws1" "run_event n steps e ws1 = Some ws'"
      by (auto simp: run_events_snoc split: option.splits)
    from atomic_more.IH [OF atomic_more.prems(1) ws1(1)] have "tally n steps base ws1 s1" .
    from tally_step [OF this atomic_more.hyps(2)] ws1(2) Some show ?thesis by simp
  qed
qed simp

end
