(* ===== verification/WorkloadProps.thy ===== *)
theory WorkloadProps
  imports Workload SizeBits
begin

text \<open>
  The properties of the workload: a set starts with every other element, by a mixing function that is a
  bijection; and the steps of a thread stay in the key range, in the window of the thread, and within
  the mix of the scenario.
\<close>

section \<open>The mixing function\<close>

lemma bit_xorshift: "bit (xorshift k x) n \<longleftrightarrow> bit x n \<noteq> bit x (n + k)"
  by (auto simp: xorshift_def bit_simps add.commute dest: bit_imp_le_length)

lemma xorshift_inject:
  assumes "0 < k" "xorshift k x = xorshift k y"
  shows "x = y"
proof (rule bit_word_eqI)
  have "bit x n \<longleftrightarrow> bit y n" for n
  proof (induction "64 - n" arbitrary: n rule: less_induct)
    case less
    show ?case
    proof (cases "n < 64")
      case True
      with assms(1) have "64 - (n + k) < 64 - n" by simp
      with less have "bit x (n + k) \<longleftrightarrow> bit y (n + k)" by blast
      with assms(2) bit_xorshift [of k _ n] show ?thesis by metis
    next
      case False
      then show ?thesis by (auto dest: bit_imp_le_length)
    qed
  qed
  then show "bit x n \<longleftrightarrow> bit y n" for n .
qed

lemma mult_inject:
  assumes "c * d = (1 :: size_t)" "x * c = y * c"
  shows "x = y"
proof -
  have "x * (c * d) = y * (c * d)" using assms(2) by (metis mult.assoc)
  with assms(1) show ?thesis by simp
qed

lemma splitmix_inject: "splitmix x = splitmix y \<Longrightarrow> x = y"
  unfolding splitmix_def Let_def
  by (drule xorshift_inject [rotated], simp,
      drule mult_inject [rotated, where d = "0x319642B2D24D8EC3"], simp,
      drule xorshift_inject [rotated], simp,
      drule mult_inject [rotated, where d = "0x96DE1B173F119089"], simp,
      drule xorshift_inject [rotated], simp, simp)

lemma card_even: "card {w :: size_t. w AND 1 = 0} = 2 ^ 63"
proof -
  let ?E = "{w :: size_t. w AND 1 = 0}"
  have 1: "w AND 1 = 0 \<or> w AND 1 = 1" for w :: size_t by (simp add: and_one_eq mod2_eq_if)
  have flip: "(w XOR 1) AND 1 = 1 \<longleftrightarrow> w AND 1 = 0" for w :: size_t
    by (simp add: bit_eq_iff bit_simps) metis
  have "(\<lambda>w. w XOR 1) ` ?E = - ?E"
  proof
    show "(\<lambda>w. w XOR 1) ` ?E \<subseteq> - ?E"
    proof
      fix v assume "v \<in> (\<lambda>w. w XOR 1) ` ?E"
      with flip have "v AND 1 = 1" by blast
      then show "v \<in> - ?E" by simp
    qed
    show "- ?E \<subseteq> (\<lambda>w. w XOR 1) ` ?E"
    proof
      fix w :: size_t assume "w \<in> - ?E"
      with 1 [of w] have "w AND 1 = 1" by auto
      with flip [of "w XOR 1"] have "w XOR 1 \<in> ?E" by (simp add: xor.assoc)
      then show "w \<in> (\<lambda>w. w XOR 1) ` ?E" by (intro image_eqI [of _ _ "w XOR 1"]) (simp_all add: xor.assoc)
    qed
  qed
  moreover have "inj_on (\<lambda>w. w XOR 1) ?E" 
  proof (rule inj_onI)
    fix v w :: size_t assume "v XOR 1 = w XOR 1"
    then have "(v XOR 1) XOR 1 = (w XOR 1) XOR 1" by (rule arg_cong)
    then show "v = w" by (simp only: xor.assoc xor_self_eq xor.right_neutral)
  qed
  ultimately have "card (- ?E) = card ?E" using card_image by fastforce
  moreover have "card (?E \<union> - ?E) = card ?E + card (- ?E)" by (rule card_Un_disjoint) simp_all
  then have "card ?E + card (- ?E) = card (UNIV :: size_t set)" by (simp add: Un_commute)
  ultimately have "2 * card ?E = 2 ^ 64" by (simp add: card_word)
  then show ?thesis by simp
qed

lemma card_present: "card {e. StartsPresent e} = 2 ^ 63"
proof -
  have inj: "inj splitmix" by (rule injI) (rule splitmix_inject)
  then have "bij splitmix" by (simp add: bij_def finite_UNIV_inj_surj)
  then have "splitmix ` {e. StartsPresent e} = {w. w AND 1 = 0}"
    unfolding StartsPresent_def bij_def by (auto simp: image_iff)
  with card_even card_image [OF inj_on_subset [OF inj subset_UNIV], of "{e. StartsPresent e}"]
  show ?thesis by simp
qed

section \<open>The steps\<close>

fun share :: "mix \<Rightarrow> operation \<Rightarrow> unsigned" where
  "share m kContains = mix_contains m"
| "share m kAdd = mix_add m"
| "share m kRemove = mix_remove m"

definition shares_total :: "mix \<Rightarrow> bool" where
  "shares_total m \<longleftrightarrow> unat (mix_contains m) + unat (mix_add m) + unat (mix_remove m) = 100"

lemma choose_share:
  assumes "shares_total m" "choice < 100"
  shows "share m (choose_operation m choice) \<noteq> 0"
proof -
  have sum: "unat (mix_contains m + mix_add m) = unat (mix_contains m) + unat (mix_add m)"
    using assms(1) by (intro unat_add_lem [THEN iffD1]) (simp add: shares_total_def)
  have "unat choice < 100" using assms(2) by (simp add: word_less_nat_alt)
  then show ?thesis
    using assms(1) sum
    by (auto simp: choose_operation_def word_less_nat_alt shares_total_def simp flip: unat_eq_0)
qed

text \<open>What the generator can make of one step.\<close>

definition elem_from :: "scenario \<Rightarrow> size_t \<Rightarrow> size_t \<Rightarrow> size_t \<Rightarrow> size_t \<Rightarrow> bool" where
  "elem_from sc window_start window i e \<longleftrightarrow>
     (case sc_key_choice sc of
        kDisjoint \<Rightarrow> \<exists>r < window. e = window_start + r
      | kSequential \<Rightarrow> e = window_start + i
      | kHotSpot \<Rightarrow> e < sc_keys sc
      | kShared \<Rightarrow> e < sc_keys sc)"

definition scenario_ok :: "scenario \<Rightarrow> nat \<Rightarrow> bool" where
  "scenario_ok sc threads \<longleftrightarrow>
     0 < threads \<and> threads \<le> unat (sc_keys sc) \<and> 100 \<le> unat (sc_keys sc) \<and> shares_total (sc_mix sc) \<and>
     (sc_key_choice sc = kSequential \<longrightarrow> unat (sc_iterations sc) \<le> unat (sc_keys sc) div threads)"

lemma draw_below_Some: "n \<noteq> 0 \<Longrightarrow> \<exists>r g'. draw_below n g = Some (r, g') \<and> r < n"
  by (auto simp: draw_below_def word_mod_less_divisor word_greater_zero_iff split: prod.splits)

lemma PickElem_ok:
  assumes "100 \<le> unat (sc_keys sc)" "window \<noteq> 0"
  shows "\<exists>e g'. PickElem sc g ws window i = Some (e, g') \<and> elem_from sc ws window i e"
proof (cases "sc_key_choice sc")
  case kShared
  have "sc_keys sc \<noteq> 0" using assms(1) by auto
  from draw_below_Some [OF this, of g] kShared show ?thesis by (auto simp: PickElem_def elem_from_def)
next
  case kDisjoint
  from draw_below_Some [OF assms(2), of g] kDisjoint show ?thesis by (auto simp: PickElem_def elem_from_def)
next
  case kSequential
  then show ?thesis by (simp add: PickElem_def elem_from_def)
next
  case kHotSpot
  let ?hot = "sc_keys sc div 100"
  obtain r g1 where g1: "mt_next g = (r, g1)" by (cases "mt_next g")
  have u: "unat ?hot = unat (sc_keys sc) div 100" by (simp add: unat_div)
  then have le: "?hot \<le> sc_keys sc" and ne: "?hot \<noteq> 0"
    using assms(1) by (simp_all add: word_le_nat_alt flip: unat_eq_0)
  have rest: "unat (sc_keys sc - ?hot) = unat (sc_keys sc) - unat (sc_keys sc) div 100"
    using le u by (simp add: unat_sub)
  then have ne2: "sc_keys sc - ?hot \<noteq> 0" using assms(1) by (simp flip: unat_eq_0)
  show ?thesis
  proof (cases "r mod 100 < ucast kHotKeysPercent")
    case True
    from draw_below_Some [OF ne, of g1] obtain q g2 where q: "draw_below ?hot g1 = Some (q, g2)" "q < ?hot"
      by blast
    with le have "q < sc_keys sc" by (meson less_le_trans)
    with True q g1 kHotSpot show ?thesis by (simp add: PickElem_def elem_from_def Let_def)
  next
    case False
    from draw_below_Some [OF ne2, of g1] obtain q g2 where
      q: "draw_below (sc_keys sc - ?hot) g1 = Some (q, g2)" "q < sc_keys sc - ?hot" by blast
    have "unat q < unat (sc_keys sc) - unat ?hot" using q(2) rest u by (simp add: word_less_nat_alt)
    then have "unat ?hot + unat q < unat (sc_keys sc)" by linarith
    moreover from this have "unat (?hot + q) = unat ?hot + unat q"
      using unat_size_less [of "sc_keys sc"] by (intro unat_add_lem [THEN iffD1]) simp
    ultimately have "?hot + q < sc_keys sc" by (simp only: word_less_nat_alt)
    with False q g1 kHotSpot show ?thesis by (simp add: PickElem_def elem_from_def Let_def)
  qed
qed

lemma PickOperation_ok:
  assumes "shares_total m" "PickOperation m g = (x, g')"
  shows "share m x \<noteq> 0"
proof -
  have "(ucast (r mod 100) :: unsigned) < 100" for r :: size_t
  proof -
    have "unat (r mod 100) < 100" by (simp add: unat_mod)
    then show ?thesis by (simp add: word_less_nat_alt unsigned_ucast_eq take_bit_nat_eq_self)
  qed
  with assms choose_share show ?thesis by (auto simp: PickOperation_def split: prod.splits)
qed

lemma build_from_ok:
  assumes "100 \<le> unat (sc_keys sc)" "window \<noteq> 0" "shares_total (sc_mix sc)"
  shows "\<exists>steps. build_from sc ws window n i g = Some steps \<and> length steps = n \<and>
    (\<forall>j < n. elem_from sc ws window (i + of_nat j) (step_elem (steps ! j)) \<and>
       share (sc_mix sc) (step_operation (steps ! j)) \<noteq> 0)"
proof (induction n arbitrary: i g)
  case (Suc n)
  obtain x g1 where x: "PickOperation (sc_mix sc) g = (x, g1)" by (cases "PickOperation (sc_mix sc) g")
  from PickElem_ok [OF assms(1,2)] obtain e g2 where
    e: "PickElem sc g1 ws window i = Some (e, g2)" "elem_from sc ws window i e" by blast
  from Suc.IH [of "i + 1" g2] obtain steps where
    s: "build_from sc ws window n (i + 1) g2 = Some steps" "length steps = n"
      "\<And>j. j < n \<Longrightarrow> elem_from sc ws window (i + 1 + of_nat j) (step_elem (steps ! j)) \<and>
         share (sc_mix sc) (step_operation (steps ! j)) \<noteq> 0" by blast
  from s(2,3) e(2) PickOperation_ok [OF assms(3) x]
  have "\<forall>j < Suc n. elem_from sc ws window (i + of_nat j)
         (step_elem ((\<lparr>step_operation = x, step_elem = e\<rparr> # steps) ! j)) \<and>
       share (sc_mix sc) (step_operation ((\<lparr>step_operation = x, step_elem = e\<rparr> # steps) ! j)) \<noteq> 0"
    by (auto simp: nth_Cons add.assoc split: nat.splits)
  with x e(1) s(1,2) show ?case by (intro exI [of _ "\<lparr>step_operation = x, step_elem = e\<rparr> # steps"]) simp
qed simp

lemma scenarios_ok:
  assumes "sc \<in> set kScenarios" "n \<in> set kThreadCounts"
  shows "scenario_ok sc n" "\<exists>k < 64. unat (step_count sc) = 2 ^ k"
proof -
  have p: "unat (push_bit k 1 :: size_t) = 2 ^ k" if "k < 64" for k
    using that by (simp add: push_bit_eq_mult)
  have "\<forall>sc \<in> set kScenarios. \<forall>n \<in> set kThreadCounts. scenario_ok sc n"
    by (simp add: kScenarios_def kThreadCounts_def scenario_ok_def shares_total_def p workload_constants)
  with assms show "scenario_ok sc n" by blast
  have "unat (step_count sc) = 2 ^ (if sc_key_choice sc = kSequential then 15 else 14)"
    if "sc \<in> set kScenarios" for sc
    using that by (auto simp: kScenarios_def step_count_def workload_constants p)
  with assms(1) show "\<exists>k < 64. unat (step_count sc) = 2 ^ k"
    by (intro exI [of _ "if sc_key_choice sc = kSequential then 15 else 14"]) simp
qed

lemma window_nat:
  assumes "scenario_ok sc n"
  shows "unat (of_nat n :: size_t) = n" "(of_nat n :: size_t) \<noteq> 0"
    "unat (sc_keys sc div of_nat n) = unat (sc_keys sc) div n" "sc_keys sc div of_nat n \<noteq> 0"
proof -
  show n: "unat (of_nat n :: size_t) = n"
    using assms unat_size_less [of "sc_keys sc"] by (intro unat_of_nat_size) (simp add: scenario_ok_def)
  with assms show "(of_nat n :: size_t) \<noteq> 0" by (auto simp: scenario_ok_def)
  show w: "unat (sc_keys sc div of_nat n) = unat (sc_keys sc) div n" by (simp add: unat_div n)
  moreover have "unat (sc_keys sc) div n \<noteq> 0" using assms by (simp add: scenario_ok_def div_eq_0_iff)
  ultimately show "sc_keys sc div of_nat n \<noteq> 0" by (metis unat_0)
qed

text \<open>An offset into the window of a thread.\<close>

lemma in_window:
  assumes ok: "scenario_ok sc n" and t: "t < n" and x: "unat x < unat (sc_keys sc) div n"
  shows "unat (of_nat t * (sc_keys sc div of_nat n) + x) = t * (unat (sc_keys sc) div n) + unat x"
    "t * (unat (sc_keys sc) div n) + unat x < unat (sc_keys sc)"
proof -
  let ?w = "unat (sc_keys sc) div n"
  have "t * ?w + unat x < Suc t * ?w" using x by simp
  also have "\<dots> \<le> n * ?w" using t by (intro mult_le_mono) simp_all
  also have "\<dots> \<le> unat (sc_keys sc)" by simp
  finally show less: "t * ?w + unat x < unat (sc_keys sc)" .
  then have "unat (of_nat (t * ?w + unat x) :: size_t) = t * ?w + unat x"
    using unat_size_less [of "sc_keys sc"] by (intro unat_of_nat_size) linarith
  moreover have "(of_nat (t * ?w + unat x) :: size_t) = of_nat t * (sc_keys sc div of_nat n) + x"
    by (simp add: window_nat(3) [OF ok, symmetric])
  ultimately show "unat (of_nat t * (sc_keys sc div of_nat n) + x) = t * ?w + unat x" by simp
qed

lemma elem_window:
  assumes ok: "scenario_ok sc n" and t: "t < n" and j: "j < unat (step_count sc)"
    and e: "elem_from sc (of_nat t * (sc_keys sc div of_nat n)) (sc_keys sc div of_nat n) (of_nat j) e"
    and own: "sc_key_choice sc = kDisjoint \<or> sc_key_choice sc = kSequential"
  shows "unat e div (unat (sc_keys sc) div n) = t" "e < sc_keys sc"
    "sc_key_choice sc = kSequential \<Longrightarrow> unat e = t * (unat (sc_keys sc) div n) + j"
proof -
  let ?w = "unat (sc_keys sc) div n"
  have ju: "unat (of_nat j :: size_t) = j"
    using j unat_size_less [of "step_count sc"] by (intro unat_of_nat_size) linarith
  obtain x where x: "e = of_nat t * (sc_keys sc div of_nat n) + x" "unat x < ?w"
    "sc_key_choice sc = kSequential \<Longrightarrow> unat x = j"
  proof (cases "sc_key_choice sc = kSequential")
    case True
    with ok j have "j < ?w" by (simp add: scenario_ok_def step_count_def)
    with True e ju that [of "of_nat j"] show thesis by (simp add: elem_from_def)
  next
    case False
    with own e that show thesis
      using window_nat(3) [OF ok] by (auto simp: elem_from_def word_less_nat_alt)
  qed
  note u = in_window [OF ok t x(2)]
  from x(2) show "unat e div ?w = t" unfolding x(1) u(1) by simp
  show "e < sc_keys sc" unfolding x(1) word_less_nat_alt u(1) by (rule u(2))
  show "unat e = t * ?w + j" if "sc_key_choice sc = kSequential"
    unfolding x(1) u(1) using x(3) [OF that] by simp
qed

lemma build_steps:
  assumes "scenario_ok sc n"
  obtains steps where "BuildSteps sc (of_nat t) (of_nat n) = Some steps" "length steps = unat (step_count sc)"
    "\<And>j. j < length steps \<Longrightarrow>
      elem_from sc (of_nat t * (sc_keys sc div of_nat n)) (sc_keys sc div of_nat n) (of_nat j) (step_elem (steps ! j)) \<and>
      share (sc_mix sc) (step_operation (steps ! j)) \<noteq> 0"
proof -
  have "100 \<le> unat (sc_keys sc)" "shares_total (sc_mix sc)" using assms by (simp_all add: scenario_ok_def)
  from build_from_ok [OF this(1) window_nat(4) [OF assms] this(2),
      of "of_nat t * (sc_keys sc div of_nat n)" "unat (step_count sc)" 0 "mt_seed (kSeed + of_nat t)"]
  show thesis using that window_nat(2) [OF assms] by (auto simp: BuildSteps_def Let_def)
qed

lemma built_steps:
  assumes "scenario_ok sc n" "BuildSteps sc (of_nat t) (of_nat n) = Some steps"
  shows "length steps = unat (step_count sc)"
    "j < length steps \<Longrightarrow>
      elem_from sc (of_nat t * (sc_keys sc div of_nat n)) (sc_keys sc div of_nat n) (of_nat j) (step_elem (steps ! j)) \<and>
      share (sc_mix sc) (step_operation (steps ! j)) \<noteq> 0"
  by (rule build_steps [OF assms(1), of t], use assms(2) in simp)+

lemma step_elem_less:
  assumes "scenario_ok sc n" "t < n" "BuildSteps sc (of_nat t) (of_nat n) = Some steps" "s \<in> set steps"
  shows "step_elem s < sc_keys sc" "share (sc_mix sc) (step_operation s) \<noteq> 0"
proof -
  note steps = built_steps [OF assms(1,3)]
  from assms(4) obtain j where s: "j < length steps" "s = steps ! j" by (auto simp: in_set_conv_nth)
  note j = s(1) steps(1) conjunct1 [OF steps(2) [OF s(1), folded s(2)]]
    conjunct2 [OF steps(2) [OF s(1), folded s(2)]]
  show "share (sc_mix sc) (step_operation s) \<noteq> 0" by (rule j(4))
  show "step_elem s < sc_keys sc"
  proof (cases "sc_key_choice sc = kDisjoint \<or> sc_key_choice sc = kSequential")
    case True
    with elem_window(2) [OF assms(1,2) _ j(3)] j(1,2) show ?thesis by simp
  next
    case False
    with j(3) show ?thesis by (cases "sc_key_choice sc") (simp_all add: elem_from_def)
  qed
qed

lemma mask_mod:
  assumes "unat m = 2 ^ k" "k < 64"
  shows "unat (index AND (m - 1) :: size_t) = unat index mod unat m"
proof -
  have "m = 2 ^ k" using assms by (simp add: word_unat_eq_iff)
  then have "index AND (m - 1) = take_bit k index" by (simp add: take_bit_eq_mask mask_eq_exp_minus_1)
  then show ?thesis using assms by (simp add: take_bit_eq_mod unat_mod_size)
qed

section \<open>Properties\<close>

text \<open>
  A set that is filled before a run starts with half of the elements. Of the 2 ^ 64
  possible elements exactly half start present, because the mixing function (splitmix64) is injective.
\<close>

lemma half_starts_present:
  "inj splitmix \<and> card {e. StartsPresent e} = 2 ^ 63"
  using card_present splitmix_inject by (auto intro: injI)

text \<open>
  C30 (bounds): the steps of a thread. For every scenario, every thread count and every thread, building
  the steps divides by no zero and gives as many as it should, a power of two, so that the mask in the
  loop of a run is the remainder by their number, always in range; every element is in the key range,
  and every operation has a share in the mix of the scenario.
\<close>

theorem workload_steps:
  assumes "sc \<in> set kScenarios" "n \<in> set kThreadCounts" "t < n"
  shows "\<exists>steps. BuildSteps sc (of_nat t) (of_nat n) = Some steps \<and> length steps = unat (step_count sc) \<and>
    (\<forall>index. unat (index AND (of_nat (length steps) - 1) :: size_t) = unat index mod length steps) \<and>
    steps \<noteq> [] \<and>
    (\<forall>s \<in> set steps. step_elem s < sc_keys sc \<and> share (sc_mix sc) (step_operation s) \<noteq> 0)"
proof -
  note ok = scenarios_ok(1) [OF assms(1,2)]
  from build_steps [OF ok, of t] obtain steps where
    b: "BuildSteps sc (of_nat t) (of_nat n) = Some steps" "length steps = unat (step_count sc)" by metis
  from scenarios_ok(2) [OF assms(1,2)] obtain k where k: "k < 64" "unat (step_count sc) = 2 ^ k" by blast
  have "unat (index AND (of_nat (length steps) - 1) :: size_t) = unat index mod length steps" for index
    using mask_mod [OF k(2,1), of index] b(2) by simp
  moreover have "steps \<noteq> []" using b(2) k(2) by auto
  ultimately show ?thesis using b step_elem_less [OF ok assms(3) b(1)] by blast
qed

text \<open>
  Threads with windows keep to them. In a scenario with disjoint or sequential keys, the
  elements of two threads never meet; in a sequential one, a thread goes through its elements once each,
  in order.
\<close>

lemma windows_disjoint:
  assumes "sc \<in> set kScenarios" "n \<in> set kThreadCounts" "t < n" "u < n" "t \<noteq> u"
    and "BuildSteps sc (of_nat t) (of_nat n) = Some ss" "BuildSteps sc (of_nat u) (of_nat n) = Some us"
    and "sc_key_choice sc = kDisjoint \<or> sc_key_choice sc = kSequential"
  shows "step_elem ` set ss \<inter> step_elem ` set us = {} \<and>
    (sc_key_choice sc = kSequential \<longrightarrow> sorted_wrt (<) (map step_elem ss))"
proof -
  note ok = scenarios_ok(1) [OF assms(1,2)]
  let ?w = "unat (sc_keys sc) div n"
  have at: "unat (step_elem (steps ! j)) div ?w = v \<and>
      (sc_key_choice sc = kSequential \<longrightarrow> unat (step_elem (steps ! j)) = v * ?w + j)"
    if "v < n" "BuildSteps sc (of_nat v) (of_nat n) = Some steps" "j < length steps" for v steps j
    using elem_window(1,3) [OF ok that(1) _ _ assms(8)] built_steps [OF ok that(2)] that(3) by metis
  have "e \<noteq> e'" if e: "e \<in> step_elem ` set ss" "e' \<in> step_elem ` set us" for e e'
  proof -
    from e obtain i j where "i < length ss" "e = step_elem (ss ! i)" "j < length us" "e' = step_elem (us ! j)"
      by (auto simp: in_set_conv_nth)
    with at [OF assms(3,6)] at [OF assms(4,7)] assms(5) show ?thesis by metis
  qed
  moreover have "sorted_wrt (<) (map step_elem ss)" if "sc_key_choice sc = kSequential"
    unfolding sorted_wrt_iff_nth_less using at [OF assms(3,6)] that by (auto simp: word_less_nat_alt)
  ultimately show ?thesis by blast
qed

section \<open>Witnesses\<close>

theorem workload_steps_witness:
  "\<exists>steps. BuildSteps (kScenarios ! 0) 3 4 = Some steps \<and> length steps = 2 ^ 14 \<and>
    (\<forall>s \<in> set steps. step_operation s = kContains)"
proof -
  have "kScenarios ! 0 \<in> set kScenarios" "4 \<in> set kThreadCounts"
    by (simp_all add: kScenarios_def kThreadCounts_def)
  from workload_steps [OF this, of 3] obtain steps where s: "BuildSteps (kScenarios ! 0) 3 4 = Some steps"
    "length steps = unat (step_count (kScenarios ! 0))"
    "\<forall>s \<in> set steps. share (sc_mix (kScenarios ! 0)) (step_operation s) \<noteq> 0" by auto
  have "unat (step_count (kScenarios ! 0)) = 2 ^ 14"
    by (simp add: kScenarios_def step_count_def kStepsPerThread_def push_bit_eq_mult)
  moreover have "share (sc_mix (kScenarios ! 0)) x \<noteq> 0 \<longleftrightarrow> x = kContains" for x
    by (cases x) (simp_all add: kScenarios_def)
  ultimately show ?thesis using s by metis
qed

end
