(* ===== verification/BenchmarkProps.thy ===== *)
theory BenchmarkProps
  imports BenchmarkMain AtomicHistory WorkloadProps ReclaimedProps StripedProps CoarseProps RefinableProps
begin

text \<open>
  The benchmark and the sets under test together: the constructors accept the scenarios, and the check
  after a run passes for each of the sets.
\<close>

section \<open>The check\<close>

locale exact_at_rest =
  fixes run :: "'sh \<Rightarrow> size_t event list \<Rightarrow> 'sh \<Rightarrow> bool" and start :: "'sh \<Rightarrow> bool" and Size :: "'sh \<Rightarrow> size_t"
  assumes at_rest: "start s0 \<Longrightarrow> run s0 h s \<Longrightarrow>
    \<exists>a. atomic_run (a_init {}) h a \<and> quiet a \<and> Size s = of_nat (card (a_set a))"
begin

lemma check_keeps:
  assumes "start s0" "benchmark sc n main name run Size s0 sh g g'"
  shows "g_check_failed g' = g_check_failed g \<and> g_errors g' = g_errors g"
proof -
  let ?es = "prefill_elems sc" and ?steps = "\<lambda>t. the (BuildSteps sc (of_nat t) (of_nat n))"
  let ?g0 = "g\<lparr>g_initial_size := of_nat (length ?es), g_added := 0, g_removed := 0\<rparr>"
  from assms(2) obtain rs h g1 where len: "length rs = length (map Add ?es)"
    and run: "run s0 (calls_of main (map Add ?es) rs @ h) sh"
    and result: "RunScenario sc n h ?g0 = Some g1" and g': "g' = CheckRun name (Size sh) g1"
    by (auto simp: benchmark_def SetUpRun_def)
  from result obtain ws where ws: "run_events n ?steps h (\<lambda>_. new_worker) = Some ws"
    "g1 = fold (\<lambda>t. finish_worker (ws t)) [0..<n] ?g0"
    by (auto simp: RunScenario_def split: if_splits)
  have g1: "g_initial_size g1 + g_added g1 - g_removed g1 = of_nat (length ?es) + (\<Sum>t<n. net (ws t))"
    "g_check_failed g1 = g_check_failed g" "g_errors g1 = g_errors g"
    unfolding ws(2) using finish_workers [where ws = ws and n = n and g = ?g0]
    by (simp_all add: algebra_simps)
  from at_rest [OF assms(1) run] obtain a where
    a: "atomic_run (a_init {}) (calls_of main (map Add ?es) rs @ h) a" "quiet a" "Size sh = of_nat (card (a_set a))"
    by blast
  from atomic_run_append [OF a(1)] obtain a1 where
    a1: "atomic_run (a_init {}) (calls_of main (map Add ?es) rs) a1" "atomic_run a1 h a" by blast
  have "quiet (a_init {} :: size_t atomic)" by (simp add: quiet_def a_init_def)
  from calls_of_results [OF a1(1) this len] have
    "quiet a1" "apply_ops (map Add ?es) {} = (rs, a_set a1)" by (simp_all add: a_init_def)
  moreover have "apply_ops (map Add ?es) {} = (replicate (length ?es) True, {} \<union> set ?es)"
    by (rule apply_ops_adds) (simp_all add: prefill_distinct)
  ultimately have a1_set: "quiet a1" "a_set a1 = set ?es" by simp_all
  have "tally n ?steps (of_nat (length ?es)) (\<lambda>_. new_worker) a1"
    using a1_set by (simp add: tally_def quiet_def counted_def due_of_def sum_all_def net_def new_worker_def
        distinct_card [OF prefill_distinct])
  from tally_run [OF a1(2) this ws(1)] a(2)
  have "of_nat (length ?es) + (\<Sum>t<n. net (ws t)) = (of_nat (card (a_set a)) :: size_t)"
    by (simp add: tally_def quiet_def counted_def due_of_def sum_all_def)
  then have "Size sh = g_initial_size g1 + g_added g1 - g_removed g1"
    unfolding a(3) g1(1) by simp
  then show ?thesis unfolding g' CheckRun_def Let_def using g1(2,3) by simp
qed

end

lemma rest_runE:
  assumes "rest_run P s0 h s"
  obtains s1 where "sys_run P (sys_init P s0) h s1" "\<And>t. pcs s1 t = p_idle P" "shared s1 = s"
  using assms by (auto simp: rest_run_def)

lemma idle_pcs:
  "p_idle (coarse_program hash) = CIdle" "p_idle (striped_program hash) = SIdle"
  "p_idle (refinable_program hash mem) = RIdle"
  by (simp_all add: coarse_program_def striped_program_def refinable_program_def)

interpretation bench_coarse:
  exact_at_rest "rest_run (coarse_program hash)" "\<lambda>s. \<exists>c. construct_coarse c = Inr s" cg_Size for hash
proof
  fix s0 s :: "size_t coarse" and h
  assume "\<exists>c. construct_coarse c = Inr s0" and rest: "rest_run (coarse_program hash) s0 h s"
  then obtain c where c: "construct_coarse c = Inr s0" by blast
  obtain s1 where run: "sys_run (coarse_program hash) (sys_init (coarse_program hash) s0) h s1"
    and idle: "\<And>t. pcs s1 t = CIdle" and s: "shared s1 = s" using rest_runE [OF rest] unfolding idle_pcs by metis
  from coarse_at_rest [OF c run idle] s
  show "\<exists>a. atomic_run (a_init {}) h a \<and> quiet a \<and> cg_Size s = of_nat (card (a_set a))"
    unfolding quiet_def by metis
qed

interpretation bench_striped:
  exact_at_rest "rest_run (striped_program hash)" "\<lambda>s. \<exists>c. construct_striped c = Inr s" st_Size for hash
proof
  fix s0 s :: "size_t striped" and h
  assume "\<exists>c. construct_striped c = Inr s0" and rest: "rest_run (striped_program hash) s0 h s"
  then have start: "st_start hash s0" using construct_striped_start by blast
  obtain s1 where run: "sys_run (striped_program hash) (sys_init (striped_program hash) s0) h s1"
    and idle: "\<And>t. pcs s1 t = SIdle" and s: "shared s1 = s" using rest_runE [OF rest] unfolding idle_pcs by metis
  from st.set_of_history [OF start run] st.size_exact [OF start run] idle s
  show "\<exists>a. atomic_run (a_init {}) h a \<and> quiet a \<and> st_Size s = of_nat (card (a_set a))"
    by (auto simp: quiet_def st_Size_def)
qed

interpretation bench_refinable:
  exact_at_rest "rest_run (refinable_program hash mem)" "\<lambda>s. \<exists>m c. construct_refinable m c = Some (Inr s)" rf_Size
  for hash mem
proof
  fix s0 s :: "size_t refinable" and h
  assume "\<exists>m c. construct_refinable m c = Some (Inr s0)" and rest: "rest_run (refinable_program hash mem) s0 h s"
  then have start: "rf_start hash s0" using construct_refinable_start by blast
  obtain s1 where run: "sys_run (refinable_program hash mem) (sys_init (refinable_program hash mem) s0) h s1"
    and idle: "\<And>t. pcs s1 t = RIdle" and s: "shared s1 = s" using rest_runE [OF rest] unfolding idle_pcs by metis
  from rf.set_of_history [OF start run] rf.size_exact [OF start run] idle s
  show "\<exists>a. atomic_run (a_init {}) h a \<and> quiet a \<and> rf_Size s = of_nat (card (a_set a))"
    by (auto simp: quiet_def rf_Size_def)
qed

interpretation bench_lockfree:
  exact_at_rest "reclaimed_run hash" "\<lambda>s. \<exists>t c m. construct_reclaimed 0 t True c m = Inr s" rc_Size for hash
proof
  fix s0 s h
  assume "\<exists>t c m. construct_reclaimed 0 t True c m = Inr s0" "reclaimed_run hash s0 h s"
  then obtain t c m ms where made: "construct_reclaimed 0 t True c m = Inr s0" and run: "rc_run hash 0 ms s0 = Some (h, s)"
    and idle: "\<And>t. pcs (rc_set s) t = HIdle" by (auto simp: reclaimed_run_def)
  from reclaimed_history [OF made run] obtain l where l: "construct_lockfree 0 c m = Inr l"
    "sys_run (lockfree_program hash 0) (sys_init (lockfree_program hash 0) l) h (rc_set s)" .
  show "\<exists>a. atomic_run (a_init {}) h a \<and> quiet a \<and> rc_Size s = of_nat (card (a_set a))"
  proof (rule lockfree_at_rest [OF l idle])
    fix i :: "size_t interval"
    assume "atomic_run (a_init {}) h \<lparr>a_set = i_set i, a_status = (\<lambda>_. AIdle)\<rparr>"
      "lf_Size (shared (rc_set s)) = of_nat (card (i_set i))"
    then show ?thesis
      by (intro exI [of _ "\<lparr>a_set = i_set i, a_status = (\<lambda>_. AIdle)\<rparr>"]) (simp add: quiet_def rc_Size_def)
  qed
qed

interpretation bench_tbb:
  exact_at_rest "tbb_run M" "\<lambda>s. tbb_contract M \<and> (\<exists>t c. construct_tbb M t c = Inr s)" "tbb_Size M" for M
  by unfold_locales (use tbb_history in \<open>fastforce simp: quiet_def\<close>)

interpretation bench_cds:
  exact_at_rest "cds_set_run main L" "\<lambda>s. cds_contract L \<and> (\<exists>c. construct_cds L main c = Inr s)" "cds_Size L"
  for main L
  by unfold_locales (use cds_history in \<open>fastforce simp: quiet_def\<close>)

text \<open>Every constructor accepts the capacities of every scenario.\<close>

lemma scenario_capacities:
  assumes "sc \<in> set kScenarios"
  obtains i j where "2 \<le> i" "i \<le> j" "j \<le> 21" "sc_initial_capacity sc = 2 ^ i" "sc_max_capacity sc = 2 ^ j"
proof -
  have "\<exists>i j. 2 \<le> i \<and> i \<le> j \<and> j \<le> 21 \<and> sc_initial_capacity sc = 2 ^ i \<and> sc_max_capacity sc = 2 ^ j"
  proof -
    have p: "push_bit k 1 = (2 :: size_t) ^ k" for k by (simp add: push_bit_eq_mult)
    let ?ok = "\<lambda>sc i j. 2 \<le> i \<and> i \<le> j \<and> j \<le> (21 :: nat) \<and> sc_initial_capacity sc = 2 ^ i \<and> sc_max_capacity sc = 2 ^ j"
    from assms have "?ok sc 13 13 \<or> ?ok sc 21 21 \<or> ?ok sc 2 21 \<or> ?ok sc 10 20"
      by (auto simp: kScenarios_def workload_constants p)
    then show ?thesis by blast
  qed
  with that show thesis by blast
qed

lemma scenario_constructs:
  assumes "sc \<in> set kScenarios" "unat (sc_initial_capacity sc) \<le> mem"
  shows "\<exists>s. construct_coarse (sc_initial_capacity sc) = Inr s"
    "\<exists>s. construct_striped (sc_initial_capacity sc) = Inr s"
    "\<exists>s. construct_refinable mem (sc_initial_capacity sc) = Some (Inr s)"
    "\<exists>s. construct_reclaimed d t True (sc_initial_capacity sc) (sc_max_capacity sc) = Inr s"
proof -
  from assms(1) obtain i j where ij: "2 \<le> i" "i \<le> j" "j \<le> 21"
    and c: "sc_initial_capacity sc = 2 ^ i" "sc_max_capacity sc = 2 ^ j" by (rule scenario_capacities)
  have u: "unat (2 ^ i :: size_t) = 2 ^ i" "unat (2 ^ j :: size_t) = 2 ^ j" using ij by simp_all
  have b: "(2 :: nat) ^ 2 \<le> 2 ^ i" "(2 :: nat) ^ i \<le> 2 ^ j" "(2 :: nat) ^ j \<le> 2 ^ 21"
      "(2 :: nat) ^ i \<le> 2 ^ 21"
    using ij by (intro power_increasing; simp)+
  show "\<exists>s. construct_coarse (sc_initial_capacity sc) = Inr s"
    using b u by (simp add: c construct_coarse_def Let_def vec_max_def max_def word_le_nat_alt)
  show "\<exists>s. construct_striped (sc_initial_capacity sc) = Inr s"
    using b u by (simp add: c construct_striped_def Let_def vec_max_def mutex_max_def kAlignment_def word_le_nat_alt)
  show "\<exists>s. construct_reclaimed d t True (sc_initial_capacity sc) (sc_max_capacity sc) = Inr s"
  proof -
    have "\<not> not_pow2 (2 ^ i)" "\<not> not_pow2 (2 ^ j)"
      unfolding not_pow2_iff using ij u by (intro disjI2 exI [of _ i] exI [of _ j]; simp)+
    moreover have "\<not> (2 :: size_t) ^ i < 2" "\<not> (2 :: size_t) ^ j < 2 ^ i" "\<not> kMaxBuckets < 2 ^ j"
      using b u by (simp_all add: word_less_nat_alt kMaxBuckets_eq)
    ultimately show ?thesis
      by (simp add: c construct_reclaimed_def construct_reclaimer_def construct_lockfree_def split: prod.splits)
  qed
  have "ValidatedShift (2 ^ i) = Inr i" using ij u by (simp add: ValidatedShift_cases)
  moreover have "unat (BlockSize i 0) = 2 ^ i" using ij BlockSize_nat [of i 0] by (simp add: block_shift_def)
  ultimately show "\<exists>s. construct_refinable mem (sc_initial_capacity sc) = Some (Inr s)"
    using b u ij assms(2) by (simp add: c construct_refinable_def EnlargeMutexArena_def kMaxBlocks_def block_shift_def vec_max_def)
qed

section \<open>The runs of main\<close>

lemma registered:
  assumes "reg \<in> set (RegisterAll use_baselines)"
  shows "reg_scenario reg \<in> set kScenarios"
  using assms by (auto simp: RegisterAll_def Register_def split: if_splits)

lemma run_keeps:
  assumes "tbb_contract M" "cds_contract L" "run_registered hash mem M L main reg name g g'"
  shows "g_check_failed g' = g_check_failed g \<and> g_errors g' = g_errors g"
proof (cases "reg_kind reg")
  case Coarse_grained
  with assms(3) obtain c s0 sh where "construct_coarse c = Inr s0"
    "benchmark (reg_scenario reg) (reg_threads reg) main name (rest_run (coarse_program hash)) cg_Size s0 sh g g'"
    by (auto simp: run_registered_def Let_def)
  then show ?thesis using bench_coarse.check_keeps by blast
next
  case Striped
  with assms(3) obtain c s0 sh where "construct_striped c = Inr s0"
    "benchmark (reg_scenario reg) (reg_threads reg) main name (rest_run (striped_program hash)) st_Size s0 sh g g'"
    by (auto simp: run_registered_def Let_def)
  then show ?thesis using bench_striped.check_keeps by blast
next
  case Refinable
  with assms(3) obtain c s0 sh where "construct_refinable mem c = Some (Inr s0)"
    "benchmark (reg_scenario reg) (reg_threads reg) main name (rest_run (refinable_program hash mem)) rf_Size s0 sh g g'"
    by (auto simp: run_registered_def Let_def)
  then show ?thesis using bench_refinable.check_keeps by blast
next
  case Lock_free
  with assms(3) obtain c m s0 sh where "construct_reclaimed 0 main True c m = Inr s0"
    "benchmark (reg_scenario reg) (reg_threads reg) main name (reclaimed_run hash) rc_Size s0 sh g g'"
    by (auto simp: run_registered_def Let_def)
  then show ?thesis using bench_lockfree.check_keeps by blast
next
  case Tbb
  with assms(3) obtain c s0 sh where "construct_tbb M main c = Inr s0"
    "benchmark (reg_scenario reg) (reg_threads reg) main name (tbb_run M) (tbb_Size M) s0 sh g g'"
    by (auto simp: run_registered_def Let_def)
  with assms(1) bench_tbb.check_keeps show ?thesis by meson
next
  case Libcds
  with assms(3) obtain c s0 sh where "construct_cds L main c = Inr s0"
    "benchmark (reg_scenario reg) (reg_threads reg) main name (cds_set_run main L) (cds_Size L) s0 sh g g'"
    by (auto simp: run_registered_def Let_def)
  with assms(2) bench_cds.check_keeps show ?thesis by meson
qed

lemma runs_keep:
  assumes "tbb_contract M" "cds_contract L"
  shows "run_all hash mem M L main runs g g' \<Longrightarrow> g_check_failed g' = g_check_failed g \<and> g_errors g' = g_errors g"
proof (induction runs arbitrary: g)
  case (Cons run runs)
  obtain reg name where "run = (reg, name)" by fastforce
  with Cons.prems obtain g1 where "run_registered hash mem M L main reg name g g1"
    "run_all hash mem M L main runs g1 g'" by auto
  from run_keeps [OF assms this(1)] Cons.IH [OF this(2)] show ?case by simp
qed simp

section \<open>Properties\<close>

text \<open>
  C29 (safety): the benchmarks exit with 0. Every registered benchmark is given a set: the constructor
  accepts the capacities of its scenario. And whichever benchmarks are run, in any order and any number,
  however the threads of a run are interleaved: the size of the set is the number of elements it started
  with plus the additions and minus the removals the threads have counted, so \<open>CheckRun\<close> writes nothing to
  \<open>std::cerr\<close> and, with no unrecognized argument, \<open>main\<close> returns 0. This is under conditions: every run
  comes to rest, with no operation left by an exception; an allocation of the refinable set succeeds up to
  the largest capacity; \<open>membarrier\<close> can be registered, and the guards of the lock-free set announce the
  current epoch; the containers of the two baselines keep their contracts, that of libcds for attached
  threads only. \<open>hash\<close> is any hash function.
\<close>

theorem benchmarks_exit_zero:
  assumes "\<And>sc. sc \<in> set kScenarios \<Longrightarrow> unat (sc_initial_capacity sc) \<le> mem"
    and "tbb_contract M" "cds_contract L"
  shows "(\<forall>reg \<in> set (RegisterAll use_baselines). set_made mem M L main reg) \<and>
    (\<forall>runs g. run_all hash mem M L main runs no_globals g \<longrightarrow>
       exit_code False (g_check_failed g) = 0 \<and> g_errors g = [])"
proof (intro conjI ballI allI impI)
  fix reg assume "reg \<in> set (RegisterAll use_baselines)"
  then have reg: "reg_scenario reg \<in> set kScenarios" by (rule registered)
  have "\<not> sc_initial_capacity (reg_scenario reg) < 2" "\<not> sc_max_capacity (reg_scenario reg) < 2"
    using reg by (auto simp: kScenarios_def workload_constants push_bit_eq_mult)
  with scenario_constructs [OF reg assms(1) [OF reg]] show "set_made mem M L main reg"
    by (auto simp: set_made_def MakeHashSet_def construct_tbb_def tbb_ValidatedCapacity_def
        construct_cds_def cds_ValidatedCapacity_def split: set_kind.split)
next
  fix runs g assume "run_all hash mem M L main runs no_globals g"
  from runs_keep [OF assms(2,3) this] show "exit_code False (g_check_failed g) = 0" "g_errors g = []"
    by (simp_all add: no_globals_def exit_code_def)
qed

section \<open>Witnesses\<close>

text \<open>The last scenario with one thread, which makes one call on the coarse-grained set.\<close>

definition bench_schedule :: "size_t choice list" where
  "bench_schedule = [CallOp 0 (Add 0), Tick 0, Tick 0, Tick 0, Tick 0, Tick 0, Tick 0, Tick 0, Tick 0, Finish 0]"

lemma bench_history:
  assumes "construct_coarse (2 ^ 10) = Inr s0"
  shows "\<exists>s. sys_run (coarse_program id) (sys_init (coarse_program id) s0) [Call 0 (Add 0), Return 0 True] s \<and>
    (\<forall>t. pcs s t = p_idle (coarse_program id)) \<and> cg_Size (shared s) = 1"
proof -
  from assms have s0: "s0 = \<lparr>cg_table = replicate 1024 [], cg_mutex = None, cg_set_size = 0, cg_capacity = 1024\<rparr>"
    by (simp add: construct_coarse_def vec_max_def)
  have "\<exists>s. sched_run (coarse_program id) bench_schedule (sys_init (coarse_program id) s0) =
      Some ([Call 0 (Add 0), Return 0 True], s) \<and> (\<forall>t. pcs s t = p_idle (coarse_program id)) \<and>
      cg_Size (shared s) = 1"
    by (simp add: s0 bench_schedule_def coarse_program_def sys_init_def cg_lock_def cg_unlock_def cg_found_def Let_def
        bucket_index_def push_bucket_def push_back_def cg_overloaded_def cg_load_factor_numerator_def
        cg_load_factor_denominator_def cg_Size_def)
  with sched_run_sound show ?thesis by blast
qed

lemma bench_scenario:
  "RunScenario (kScenarios ! 9) 1 [Call 0 (Add 0), Return 0 True] no_globals = Some (no_globals\<lparr>g_added := 1\<rparr>)"
proof -
  have m: "kScenarios ! 9 \<in> set kScenarios" "1 \<in> set kThreadCounts"
    by (simp_all add: kScenarios_def kThreadCounts_def)
  have seq: "sc_key_choice (kScenarios ! 9) = kSequential" "sc_mix (kScenarios ! 9) = \<lparr>mix_contains = 0, mix_add = 100, mix_remove = 0\<rparr>"
    by (simp_all add: kScenarios_def)
  note ok = scenarios_ok(1) [OF m]
  from build_steps [OF ok, of 0] obtain steps where
    b: "BuildSteps (kScenarios ! 9) (of_nat 0) (of_nat 1) = Some steps" by metis
  note len = built_steps(1) [OF ok b] and el = built_steps(2) [OF ok b]
  have l: "length steps = 2 ^ 15" unfolding len by (simp add: kScenarios_def step_count_def kGrowthIterations_def push_bit_eq_mult)
  from el [of 0] l seq have "step_elem (steps ! 0) = 0" "step_operation (steps ! 0) = kAdd"
    by (auto simp: elem_from_def) (cases "step_operation (steps ! 0)"; simp)
  then have "next_call steps new_worker = Some (Add 0)"
    using l by (simp add: next_call_def new_worker_def Let_def)
  with b show ?thesis
    by (simp add: RunScenario_def take_result_def new_worker_def finish_worker_def no_globals_def)
qed

definition bench_map :: "(size_t, size_t \<rightharpoonup> 8 word, (size_t tbb_member, tbb_result) simple_pc) tbb_map" where
  "bench_map = simple_tbb"

definition bench_list :: "(size_t, size_t set, (size_t cds_member, cds_result) simple_pc) split_list_set" where
  "bench_list = simple_cds"

lemma bench_contracts: "tbb_contract bench_map" "cds_contract bench_list"
  by (simp_all add: bench_map_def bench_list_def simple_contracts)

theorem benchmarks_exit_zero_witness:
  "\<exists>g. run_all id (2 ^ 21) bench_map bench_list 0 [(Register (kScenarios ! 9) Coarse_grained ''coarse_grained'' 1, ''growth'')] no_globals g \<and>
     g_added g = 1 \<and> exit_code False (g_check_failed g) = 0"
proof -
  let ?reg = "Register (kScenarios ! 9) Coarse_grained ''coarse_grained'' 1"
  have reg: "?reg \<in> set (RegisterAll False)"
    by (simp add: RegisterAll_def kThreadCounts_def kScenarios_def)
  have cap: "unat (sc_initial_capacity sc) \<le> 2 ^ 21" if "sc \<in> set kScenarios" for sc
    using that by (auto simp: kScenarios_def workload_constants push_bit_eq_mult)
  have set_up: "SetUpRun (kScenarios ! 9) no_globals = ([], no_globals)"
    "MakeHashSet Coarse_grained (kScenarios ! 9) = [2 ^ 10]"
    by (simp_all add: kScenarios_def SetUpRun_def prefill_elems_def no_globals_def MakeHashSet_def
        kGrowthCapacity_def push_bit_eq_mult)
  note zero = benchmarks_exit_zero [OF cap bench_contracts, where use_baselines = False]
  from zero reg have "set_made (2 ^ 21) bench_map bench_list 0 ?reg" by blast
  then obtain s0 :: "size_t coarse" where s0: "construct_coarse (2 ^ 10) = Inr s0"
    by (auto simp: set_made_def Register_def set_up)
  from bench_history [OF s0] obtain s where s:
    "sys_run (coarse_program id) (sys_init (coarse_program id) s0) [Call 0 (Add 0), Return 0 True] s"
    "\<forall>t. pcs s t = p_idle (coarse_program id)" "cg_Size (shared s) = 1" by blast
  have "benchmark (kScenarios ! 9) 1 0 ''growth'' (rest_run (coarse_program id)) cg_Size s0 (shared s) no_globals
      (no_globals\<lparr>g_added := 1\<rparr>)"
    unfolding benchmark_def set_up(1) using s bench_scenario
    by (intro exI [of _ "[]"] exI [of _ "[Call 0 (Add 0), Return 0 True]"]
        exI [of _ "no_globals\<lparr>g_added := 1\<rparr>"]) (auto simp: CheckRun_def no_globals_def rest_run_def)
  with s0 have run: "run_all id (2 ^ 21) bench_map bench_list 0 [(?reg, ''growth'')] no_globals (no_globals\<lparr>g_added := 1\<rparr>)"
    by (auto simp: run_registered_def Register_def set_up(2))
  from zero run have "exit_code False (g_check_failed (no_globals\<lparr>g_added := 1\<rparr>)) = 0" by blast
  with run show ?thesis by (intro exI [of _ "no_globals\<lparr>g_added := 1\<rparr>"]) simp
qed

end
