(* ===== verification/Spec2Isabelle.thy ===== *)
theory Spec2Isabelle
  imports LockFreeProps ContainsStarves ContainsBounded EpochStale ReclaimerCache ReclaimedProgress ReclaimedStale
    SequentialProps StripedProps CoarseProps RefinableProps BenchmarkProps Baselines
begin

text \<open>
  The concurrent hash sets of \<open>src/\<close>: four concurrent implementations of one interface
  (\<open>HashSetBase.h\<close>), a sequential one, two wrappers around sets of other libraries, and the benchmark
  that compares them. This theory imports the whole development and describes it.

  \<^bold>\<open>The program and its model\<close>

  The machine integers of the sources (\<open>std::size_t\<close>, \<open>uintptr_t\<close>) are 64-bit words that wrap. A
  concurrent set is a \<^emph>\<open>program\<close> (theory \<open>Concurrency\<close>): a record of a shared state, program counters for
  the threads, and a step function that makes one access to a mutex, an atomic variable or a bucket, or
  is blocked. The steps of any number of threads interleave in any order, under sequential consistency;
  calls and returns are the visible events. Undefined behaviour (a failed assertion, an index out of
  range, a remainder by zero, a mutex locked twice by one thread or unlocked by another, a null reference)
  is a program counter of its own, shown to be unreachable; that no node is used after it has been deleted
  is a statement about what the next step touches. \<open>hash\<close> is \<open>std::hash<T>\<close>, any function.

  \<^item> \<open>Prelude\<close>, \<open>SizeBits\<close>: types, exceptions, vectors; \<open>std::bit_width\<close>, \<open>bit_floor\<close>, \<open>countr_zero\<close>.
  \<^item> \<open>HashSetBase\<close>: the interface as operations on a mathematical set (\<open>apply_op\<close>), and the locale
    \<open>hash_set\<close> of the sets one thread uses.
  \<^item> \<open>Linearizability\<close>: the specification of a concurrent set, a set on which each operation takes effect
    at one moment between its call and its return; the locale \<open>simulation\<close> proves it by a forward
    simulation. \<open>SizeCount\<close>: counters that lag behind the set. \<open>PerThread\<close>: mutexes, and the locale
    \<open>per_thread\<close>, which gives a simulation from facts about single threads. \<open>Progress\<close>: termination and
    progress of interleaved threads by ranks, also where a step may raise the ranks of others.
  \<^item> \<open>Markable\<close> (\<open>MarkableReference.h\<close>), \<open>SplitOrder\<close> (the keys of \<open>BucketList.h\<close>), \<open>BucketList\<close>,
    \<open>HashSetLockFree\<close>: the lock-free set, a split-ordered list under an array of buckets. \<open>ListInv\<close>,
    \<open>ListSteps\<close>, \<open>Ledger\<close>, \<open>ListCorrect\<close>, \<open>LockFreeCorrect\<close> have its invariants and the simulation,
    \<open>LockFreeProps\<close> its properties. \<open>ListChanges\<close>, \<open>ListProgress\<close> and \<open>LockFreeProgress\<close> rank the states
    of its threads: a step lowers the rank of its thread or uses up a bounded budget. \<open>ContainsStarves\<close>
    has a run in which one operation never returns, \<open>ContainsBounded\<close> bounds the steps of its traversal
    where keys differ.
  \<^item> \<open>EpochReclaimer\<close>: epoch-based reclamation, together with clients that link, read, unlink and retire
    nodes. \<open>EpochSafety\<close> and \<open>EpochStale\<close> say when it is safe and when it is not. \<open>ReclaimerCache\<close>: how a
    thread finds its participant, over any number of reclaimers.
  \<^item> \<open>HashSetReclaimed\<close>: the lock-free set over its reclaimer. Each step of the set that links, unlinks
    or retires a node moves the reclaimer too, and every operation runs inside its guard.
    \<open>ReclaimedInv\<close>, \<open>ReclaimedCorrect\<close>, \<open>ReclaimedProps\<close> and \<open>ReclaimedProgress\<close> join what is known of
    the two; \<open>ReclaimedStale\<close> has a run that goes wrong.
  \<^item> \<open>BucketTable\<close>: the table of buckets the lock-based sets share. \<open>HashSetSequential\<close> with
    \<open>SequentialProps\<close>; \<open>HashSetCoarseGrained\<close> with \<open>CoarseProps\<close>; \<open>HashSetStriped\<close> (and
    \<open>PaddedMutex.h\<close>) with \<open>StripedCorrect\<close> and \<open>StripedProps\<close>; \<open>MutexArena\<close> and \<open>HashSetRefinable\<close> with
    \<open>RefinableInv\<close>, \<open>RefinableFrame\<close>, \<open>RefinableCorrect\<close> and \<open>RefinableProps\<close>.
  \<^item> \<open>Workload\<close> and \<open>Benchmarks\<close> (\<open>benchmarks.cc\<close>): the scenarios, the steps each thread draws from
    \<open>std::mt19937_64\<close>, the set-up of a run, the loop of a thread, the check, the registrations.
    \<open>BenchmarkMain\<close>: the runs of \<open>main\<close>, each on a set of its kind. \<open>WorkloadProps\<close>, \<open>AtomicHistory\<close> and
    \<open>BenchmarkProps\<close> have their properties, the last one on all the sets through the locale
    \<open>exact_at_rest\<close>.
  \<^item> \<open>Containers\<close>: a concurrent container of another library, a parameter, and the contract its
    documentation gives for the calls it allows; the locale \<open>wrapper\<close> of the sets made of its members.
    \<open>Baselines\<close> (\<open>HashSetTbb.h\<close>, \<open>HashSetLibcds.h\<close>): the two wrappers, and the guards of libcds, which
    keep the threads attached as its contract asks.

  \<^bold>\<open>What is proved\<close>

  \<^item> The lock-free, striped, refinable and coarse-grained sets are linearizable; the coarse-grained one
    has exactly the histories of the striped one with a single stripe. The sequential set computes the
    results of the mathematical set. At rest, \<open>Size\<close> is the number of elements, and the table (or the
    list) holds the elements the history has left.
  \<^item> The lock-free set without its reclaimer: its list is finite and strictly sorted in every reachable
    state; each node is at every moment in exactly one place, so that an unlinked one is retired once
    (\<open>lockfree_retires_once\<close>); marked nodes are frozen; the entry of a bucket leads to its elements at
    every capacity; the capacity only doubles, and capacities and keys stay in their bounds; the recursion
    that makes a bucket ends.
  \<^item> The lock-free set over its reclaimer: histories are linearizable and no address that an operation
    holds is that of a freed node (\<open>reclaimed_safe\<close>), there is no undefined behaviour and nothing that is
    touched has been deleted or freed (\<open>reclaimed_memory_safe\<close>), both while guards announce the current
    epoch; at rest every node has been freed once or is freed once by the destructors
    (\<open>reclaimed_frees_once\<close>); and it is lock-free, in every infinite run of finitely many threads
    operations return for ever (\<open>reclaimed_progress\<close>). The traversal of a single \<open>Contains\<close> may yet run for
    ever (\<open>contains_can_starve\<close>), but not when no two elements have the same key: then the number of its
    steps is bounded beforehand (\<open>contains_wait_free\<close>).
  \<^item> The mutexes of the striped and the refinable set keep the threads apart, in the refinable set with
    one mutex per bucket for life; neither deadlocks; the operations of the striped set terminate under
    every schedule (those of the refinable set may spin for as long as another thread resizes, so only
    progress of some thread is claimed).
  \<^item> The reclaimer frees every retired node once, and under a reader never if every guard announces the
    epoch that is current when it does. A guard that is held up between loading and announcing the
    epoch can free a node under a reader, in the reclaimer alone (\<open>stale_guard_frees_early\<close>) and in
    the set, where a thread then reads the freed node (\<open>set_uses_freed_node\<close>). A lookup always gives
    the thread its own participant (\<open>lookup_finds_own\<close>).
  \<^item> What the constructors accept and what they throw, for each set that throws; what an \<open>Add\<close> that cannot
    grow the sequential table leaves; and that an exception in a resize of the refinable set locks out
    every later operation (\<open>resize_throw_wedges\<close>).
  \<^item> The benchmark's steps are in range and in the windows of their threads. Its check passes for every
    interleaving that comes to rest, on each of the four concurrent sets, the lock-free one with its guards
    and its reclaimer, and on the baselines, so that \<open>main\<close> returns 0 (\<open>benchmarks_exit_zero\<close>, which lists
    the conditions). For the baselines this rests on the contracts of their containers; that of libcds is
    for attached threads, and the guards see to it that all are (\<open>guarded_attached\<close>,
    \<open>main_keeps_protocol\<close>).

  \<^bold>\<open>Bounds and fuel\<close>

  \<open>Destroy\<close> has fuel, the number of nodes, which \<open>lockfree_frees_all_once\<close> shows to be enough. A vector of
  buckets has at most \<open>vec_max\<close> elements (\<open>max_size()\<close>, then \<open>std::length_error\<close>), which keeps the
  capacities of the lock-based sets below 2 ^ 59; the lock-free set is bounded by \<open>kMaxBuckets\<close>, 2 ^ 62.
  Counters of the elements wrap at 2 ^ 64 in the model as in the code. The theorems on the
  reclaimer are for runs of fewer than 2 ^ 63 epochs, those on the set over it for fewer than 2 ^ 63
  steps, those on the cache for fewer than 2 ^ 63 uses; \<open>reclaimed_progress\<close> has no bound.

  \<^bold>\<open>Not modelled\<close>

  \<^item> Memory orders weaker than sequential consistency, fences and \<open>membarrier\<close> beyond its outcome.
    The run of \<open>set_uses_freed_node\<close>, too, is one under sequential consistency.
  \<^item> Spurious failures of the one weak compare-and-set operation (the push of a participant in \<open>Adopt\<close>,
    which tries again): any number of them in a row is allowed, so that nothing could be said of progress.
  \<^item> \<open>std::bad_alloc\<close> and \<open>std::bad_array_new_length\<close>, the latter in the lock-free set for a very large
    maximum capacity; except in the refinable set, where a number \<open>mem\<close> bounds every allocation.
  \<^item> A thread that catches the exception of \<open>Retire\<close> and uses the set again: it makes no more calls. The
    operation it has left is pending for ever in the history.
  \<^item> The reuse of the memory of a node: addresses are fresh. \<open>reclaimed_safe\<close> says that no operation
    holds the address of a freed node, so that none could tell.
  \<^item> The lookup cache in the steps of the reclaimer, where it is reduced to whether it hits
    (\<open>ReclaimerCache\<close> has the cache itself).
  \<^item> The deleted copy and move operations, alignment, the pauses in spin loops.
  \<^item> oneTBB, libcds and the benchmark library themselves; build files, scripts and documents.
\<close>

end
